(* ===== verification/Patina_Prelude.thy ===== *)
theory Patina_Prelude
  imports Main "HOL-Library.Word" "HOL-Library.Multiset" "HOL-Library.AList" "HOL-Library.Sublist"
begin

text \<open>
  Shared vocabulary of the development: machine integers and byte strings, Rust's \<open>Result\<close>
  combinators on sums, runs of a labelled transition function with the invariant rule that every
  state machine of the development uses, decimal printing, and the big-endian length prefix.
\<close>

section \<open>Types\<close>

type_synonym u8 = "8 word"
type_synonym u16 = "16 word"
type_synonym u64 = "64 word"
type_synonym bytes = "u8 list"

lemma unat_u16_less: "unat (i :: u16) < 2 ^ 16"
  using unsigned_less [of i, where ?'a = nat] by simp

lemma unat_u32_less: "unat (i :: 32 word) < 2 ^ 32"
  using unsigned_less [of i, where ?'a = nat] by simp

lemma unat_u64_less: "unat (i :: u64) < 2 ^ 64"
  using unsigned_less [of i, where ?'a = nat] by simp

section \<open>Collections of lemmas\<close>

named_theorems op_defs \<open>defining equations of the operations on the pending map and its guard\<close>
named_theorems step_invs \<open>preservation of the client's invariant, one lemma per operation\<close>

section \<open>Rust's Result on sums: \<open>?\<close> and \<open>map_err\<close>\<close>

definition and_then :: "'e + 'a \<Rightarrow> ('a \<Rightarrow> 'e + 'b) \<Rightarrow> 'e + 'b" where
  "and_then r f = (case r of Inl e \<Rightarrow> Inl e | Inr a \<Rightarrow> f a)"

definition map_err :: "('e \<Rightarrow> 'f) \<Rightarrow> 'e + 'a \<Rightarrow> 'f + 'a" where
  "map_err g r = (case r of Inl e \<Rightarrow> Inl (g e) | Inr a \<Rightarrow> Inr a)"

lemma and_then_simps [simp]: "and_then (Inl e) f = Inl e" "and_then (Inr a) f = f a"
  by (simp_all add: and_then_def)

lemma map_err_simps [simp]: "map_err g (Inl e) = Inl (g e)" "map_err g (Inr a) = Inr a"
  by (simp_all add: map_err_def)

lemma and_then_Inr_iff: "and_then r f = Inr b \<longleftrightarrow> (\<exists>a. r = Inr a \<and> f a = Inr b)"
  by (cases r) simp_all

lemma map_err_Inr_iff [simp]: "map_err g r = Inr a \<longleftrightarrow> r = Inr a"
  by (cases r) simp_all

section \<open>Runs of a labelled transition function\<close>

fun run :: "('e \<Rightarrow> 's \<Rightarrow> 's option) \<Rightarrow> 'e list \<Rightarrow> 's \<Rightarrow> 's option" where
  "run f [] s = Some s"
| "run f (e # es) s = (case f e s of None \<Rightarrow> None | Some t \<Rightarrow> run f es t)"

lemma run_append: "run f (es @ fs) s = Option.bind (run f es s) (run f fs)"
  by (induction es arbitrary: s) (simp_all split: option.splits)

lemma run_snoc: "run f (es @ [e]) s = Some t \<longleftrightarrow> (\<exists>u. run f es s = Some u \<and> f e u = Some t)"
  by (auto simp: run_append bind_eq_Some_conv split: option.splits)

lemma run_snocE:
  assumes "run f (es @ [e]) s = Some t"
  obtains u where "run f es s = Some u" "f e u = Some t"
  using assms by (auto simp: run_snoc)

text \<open>A predicate that every step keeps holds after every run.\<close>

lemma run_invariant:
  assumes step: "\<And>e s t. I s \<Longrightarrow> f e s = Some t \<Longrightarrow> I t"
    and start: "I s" and exec: "run f es s = Some t"
  shows "I t"
  using start exec
proof (induction es arbitrary: s)
  case Nil
  then show ?case by simp
next
  case (Cons e es)
  from Cons.prems(2) obtain u where u: "f e s = Some u" "run f es u = Some t"
    by (auto split: option.splits)
  from step [OF Cons.prems(1) u(1)] u(2) show ?case by (rule Cons.IH)
qed

text \<open>The same for a relation between the events so far and the state they lead to.\<close>

lemma run_trace_invariant:
  assumes step: "\<And>es e s t. run f es s0 = Some s \<Longrightarrow> P es s \<Longrightarrow> f e s = Some t \<Longrightarrow> P (es @ [e]) t"
    and start: "P [] s0" and exec: "run f es s0 = Some t"
  shows "P es t"
  using exec
proof (induction es arbitrary: t rule: rev_induct)
  case Nil
  with start show ?case by simp
next
  case (snoc e es)
  from snoc.prems obtain u where u: "run f es s0 = Some u" "f e u = Some t"
    by (rule run_snocE)
  from step [OF u(1) snoc.IH [OF u(1)] u(2)] show ?case .
qed

section \<open>Decimal printing of unsigned integers\<close>

fun dec_digits :: "nat \<Rightarrow> string" where
  "dec_digits n =
     (if n < 10 then [char_of (48 + n)] else dec_digits (n div 10) @ [char_of (48 + n mod 10)])"

declare dec_digits.simps [simp del]

section \<open>The big-endian 32-bit length prefix\<close>

definition be32 :: "nat \<Rightarrow> bytes" where
  "be32 n = [word_of_nat (n div 2 ^ 24), word_of_nat (n div 2 ^ 16), word_of_nat (n div 2 ^ 8),
             word_of_nat n]"

definition be32_value :: "bytes \<Rightarrow> nat" where
  "be32_value bs = foldl (\<lambda>acc b. 256 * acc + unat b) 0 bs"

lemma length_be32 [simp]: "length (be32 n) = 4"
  by (simp add: be32_def)

lemma be32_not_Nil [simp]: "be32 n \<noteq> []"
  by (simp add: be32_def)

lemma unat_u8_of_nat: "unat (word_of_nat n :: u8) = n mod 256"
  by (simp add: unat_of_nat)

lemma be32_value_be32:
  assumes "n < 2 ^ 32"
  shows "be32_value (be32 n) = n"
proof -
  define a where "a = n div 256"
  define b where "b = a div 256"
  define c where "c = b div 256"
  have bounds: "c < 256"
    using assms by (simp add: a_def b_def c_def less_mult_imp_div_less flip: div_mult2_eq)
  have digits: "n div 2 ^ 24 = c" "n div 2 ^ 16 = b" "n div 2 ^ 8 = a"
    by (simp_all add: a_def b_def c_def flip: div_mult2_eq)
  have "be32_value (be32 n)
      = 256 * (256 * (256 * (c mod 256) + b mod 256) + a mod 256) + n mod 256"
    by (simp add: be32_value_def be32_def digits [simplified] unat_u8_of_nat)
  also have "\<dots> = n"
    using bounds by (simp add: a_def b_def c_def)
  finally show ?thesis .
qed

lemma be32_inject:
  assumes "m < 2 ^ 32" and "n < 2 ^ 32"
  shows "be32 m = be32 n \<longleftrightarrow> m = n"
  using be32_value_be32 [OF assms(1)] be32_value_be32 [OF assms(2)] by metis

section \<open>List lemmas\<close>

lemma strict_prefix_append_cases:
  assumes "strict_prefix xs (ys @ zs)"
  shows "strict_prefix xs ys \<or> (\<exists>us. xs = ys @ us \<and> strict_prefix us zs)"
  using assms by (auto simp: strict_prefix_def prefix_append)

lemma append_split:
  assumes "xs @ ys = fs @ rs" "\<not> strict_prefix xs fs"
  shows "\<exists>more. xs = fs @ more \<and> more @ ys = rs"
proof -
  from assms(1) obtain us where "xs = fs @ us \<and> us @ ys = rs \<or> xs @ us = fs \<and> ys = us @ rs"
    unfolding append_eq_append_conv2 by blast
  with assms(2) show ?thesis by (cases "us = []") (auto simp: strict_prefix_def)
qed

lemma subseq_mapD:
  assumes "subseq ys (map f xs)"
  shows "\<exists>zs. subseq zs xs \<and> ys = map f zs"
  using assms
proof (induction xs arbitrary: ys)
  case Nil
  then have "ys = []" by (auto dest: list_emb_Nil2)
  then show ?case by simp
next
  case (Cons x xs)
  from Cons.prems consider "subseq ys (map f xs)" | us where "ys = f x # us" "subseq us (map f xs)"
    by (cases ys) (auto split: if_splits)
  then show ?case
  proof cases
    case 1
    with Cons.IH show ?thesis by (blast intro: list_emb_Cons)
  next
    case 2
    from Cons.IH [OF 2(2)] obtain zs where "subseq zs xs" "us = map f zs" by blast
    then have "subseq (x # zs) (x # xs) \<and> ys = map f (x # zs)" using 2(1) by simp
    then show ?thesis by blast
  qed
qed

lemma subseq_distinct: "subseq xs ys \<Longrightarrow> distinct ys \<Longrightarrow> distinct xs"
  by (metis distinct_nthsI subseq_conv_nths)

section \<open>Finding by a key\<close>

lemma find_distinct_key:
  "distinct (map f xs) \<Longrightarrow> x \<in> set xs \<Longrightarrow> find (\<lambda>y. f y = f x) xs = Some x"
  by (induction xs) (auto simp: rev_image_eqI)

end
