(* ===== verification/Envelope.thy ===== *)
theory Envelope
  imports Patina_Prelude
begin

text \<open>
  The wire-level message types of \<^verbatim>\<open>crates/patina-rpc/src/envelope.rs\<close>: one record per payload
  struct and the \<open>Envelope\<close> sum. Rust's \<open>u64\<close>, \<open>u16\<close> and \<open>Vec<u8>\<close> keep their widths; a
  \<open>String\<close> is the list of its bytes.
\<close>

record request_data =
  rq_id :: u64
  rq_method :: string
  rq_payload :: bytes

record response_data =
  rs_id :: u64
  rs_payload :: bytes

record error_data =
  er_id :: u64
  er_code :: u16
  er_message :: string

datatype envelope =
    Request request_data
  | Response response_data
  | Error error_data
  | Heartbeat

text \<open>
  The id the client's reader looks up in the pending map: only replies carry one. It is the
  \<open>match\<close> at the top of the reader loop of \<^verbatim>\<open>client.rs\<close>.
\<close>

fun reply_id :: "envelope \<Rightarrow> u64 option" where
  "reply_id (Response r) = Some (rs_id r)"
| "reply_id (Error e) = Some (er_id e)"
| "reply_id Heartbeat = None"
| "reply_id (Request q) = None"

fun is_reply :: "envelope \<Rightarrow> bool" where
  "is_reply (Response r) = True"
| "is_reply (Error e) = True"
| "is_reply _ = False"

fun is_request :: "envelope \<Rightarrow> bool" where
  "is_request (Request q) = True"
| "is_request _ = False"

lemma reply_id_Some_iff: "(\<exists>i. reply_id e = Some i) \<longleftrightarrow> is_reply e"
  by (cases e) simp_all

lemma reply_id_None_iff: "reply_id e = None \<longleftrightarrow> \<not> is_reply e"
  by (cases e) simp_all

lemma is_reply_cases:
  assumes "is_reply e"
  obtains (Response) r where "e = Response r" | (Error) d where "e = Error d"
  using assms by (cases e) auto

lemma reply_not_request: "is_reply e \<Longrightarrow> \<not> is_request e"
  by (cases e) simp_all

end
