(* ===== verification/Pending_Map.thy ===== *)
theory Pending_Map
  imports Envelope
begin

text \<open>
  The in-flight registry of the client: \<open>PendingMap\<close> and \<open>PendingGuard\<close> of
  \<^verbatim>\<open>crates/patina-rpc/src/client.rs\<close>. The hash map is an association list with one entry per key;
  nothing below depends on its order. A sender is named by its channel. Dropping a sender wakes its
  receiver, so every operation that drops one returns it: the entry \<open>insert\<close> overwrites and the
  entry \<open>remove\<close> deletes.
\<close>

section \<open>The registry\<close>

type_synonym chan = nat
type_synonym pending_map = "(u64 \<times> chan) list"

definition pm_default :: pending_map where
  "pm_default = []"

definition pm_insert :: "u64 \<Rightarrow> chan \<Rightarrow> pending_map \<Rightarrow> chan option \<times> pending_map" where
  "pm_insert i tx m = (map_of m i, AList.update i tx m)"

definition pm_take :: "u64 \<Rightarrow> pending_map \<Rightarrow> chan option \<times> pending_map" where
  "pm_take i m = (map_of m i, AList.delete i m)"

definition pm_remove :: "u64 \<Rightarrow> pending_map \<Rightarrow> chan option \<times> pending_map" where
  "pm_remove i m = (map_of m i, AList.delete i m)"

definition pm_drain :: "pending_map \<Rightarrow> chan list \<times> pending_map" where
  "pm_drain m = (map snd m, pm_default)"

definition pm_len :: "pending_map \<Rightarrow> nat" where
  "pm_len m = length m"

section \<open>The guard\<close>

record pending_guard =
  pg_id :: u64
  pg_armed :: bool

definition guard_new :: "u64 \<Rightarrow> pending_guard" where
  "guard_new i = \<lparr>pg_id = i, pg_armed = True\<rparr>"

definition guard_disarm :: "pending_guard \<Rightarrow> pending_guard" where
  "guard_disarm g = g\<lparr>pg_armed := False\<rparr>"

definition guard_drop :: "pending_guard \<Rightarrow> pending_map \<Rightarrow> chan option \<times> pending_map" where
  "guard_drop g m = (if pg_armed g then pm_remove (pg_id g) m else (None, m))"

declare pm_default_def [op_defs] pm_insert_def [op_defs] pm_take_def [op_defs] pm_remove_def [op_defs]
  pm_drain_def [op_defs] guard_new_def [op_defs] guard_disarm_def [op_defs] guard_drop_def [op_defs]

section \<open>The contract of a registry\<close>

text \<open>
  What the client relies on, over the finite map \<open>lookup\<close> a registry stands for. Only
  ownership-returning operations are listed: no law exposes the representation.
\<close>

locale registry =
  fixes empty :: 'm
    and insert :: "'k \<Rightarrow> 'a \<Rightarrow> 'm \<Rightarrow> 'a option \<times> 'm"
    and take :: "'k \<Rightarrow> 'm \<Rightarrow> 'a option \<times> 'm"
    and remove :: "'k \<Rightarrow> 'm \<Rightarrow> 'a option \<times> 'm"
    and drain :: "'m \<Rightarrow> 'a list \<times> 'm"
    and len :: "'m \<Rightarrow> nat"
    and lookup :: "'m \<Rightarrow> 'k \<Rightarrow> 'a option"
    and wf :: "'m \<Rightarrow> bool"
  assumes lookup_empty: "lookup empty = Map.empty"
    and wf_empty: "wf empty"
    and insert_law: "wf m \<Longrightarrow> insert k v m = (old, m') \<Longrightarrow>
      old = lookup m k \<and> lookup m' = (lookup m)(k \<mapsto> v) \<and> wf m'"
    and take_law: "wf m \<Longrightarrow> take k m = (r, m') \<Longrightarrow>
      r = lookup m k \<and> lookup m' = (lookup m)(k := None) \<and> wf m'"
    and remove_law: "wf m \<Longrightarrow> remove k m = (r, m') \<Longrightarrow>
      r = lookup m k \<and> lookup m' = (lookup m)(k := None) \<and> wf m'"
    and drain_law: "wf m \<Longrightarrow> drain m = (rs, m') \<Longrightarrow>
      set rs = ran (lookup m) \<and> length rs = len m \<and> lookup m' = Map.empty \<and> wf m'"
    and len_law: "wf m \<Longrightarrow> len m = card (dom (lookup m)) \<and> finite (dom (lookup m))"
begin

lemma insert_then_take:
  "wf m \<Longrightarrow> insert k v m = (old, m1) \<Longrightarrow> take k m1 = (r, m2) \<Longrightarrow>
   r = Some v \<and> lookup m2 = (lookup m)(k := None)"
  using insert_law [of m k v old m1] take_law [of m1 k r m2] by auto

lemma take_twice:
  "wf m \<Longrightarrow> take k m = (r, m1) \<Longrightarrow> take k m1 = (r', m2) \<Longrightarrow> r' = None \<and> lookup m2 = lookup m1"
  using take_law [of m k r m1] take_law [of m1 k r' m2] by auto

lemma take_other:
  "wf m \<Longrightarrow> take k m = (r, m') \<Longrightarrow> j \<noteq> k \<Longrightarrow> lookup m' j = lookup m j"
  using take_law [of m k r m'] by auto

lemma len_empty: "len empty = 0"
  using len_law [OF wf_empty] by (simp add: lookup_empty)

lemma len_0_iff: "wf m \<Longrightarrow> len m = 0 \<longleftrightarrow> lookup m = Map.empty"
  using len_law [of m] by auto

lemma len_insert_fresh:
  "wf m \<Longrightarrow> lookup m k = None \<Longrightarrow> insert k v m = (old, m') \<Longrightarrow> old = None \<and> len m' = Suc (len m)"
  using insert_law [of m k v old m'] len_law [of m] len_law [of m']
  by (auto simp: dom_def card_insert_if simp flip: insert_Collect)

lemma len_remove:
  assumes "wf m" "remove k m = (r, m')"
  shows "len m' = (case lookup m k of None \<Rightarrow> len m | Some _ \<Rightarrow> len m - 1)"
  using remove_law [OF assms] len_law [OF assms(1)] len_law [of m']
  by (auto simp: card_Diff_singleton_if split: option.splits)

lemma drain_empties: "wf m \<Longrightarrow> drain m = (rs, m') \<Longrightarrow> len m' = 0 \<and> length rs = len m"
  using drain_law [of m rs m'] len_0_iff [of m'] by auto

end

section \<open>The hash map of the code satisfies it\<close>

definition pm_wf :: "pending_map \<Rightarrow> bool" where
  "pm_wf m \<longleftrightarrow> distinct (map fst m)"

lemma map_of_delete: "map_of (AList.delete k m) = (map_of m)(k := None)"
  by (simp add: delete_conv')

lemma length_distinct_keys: "distinct (map fst m) \<Longrightarrow> length m = card (dom (map_of m))"
  by (metis distinct_card dom_map_of_conv_image_fst length_map set_map)

lemma set_senders: "distinct (map fst m) \<Longrightarrow> set (map snd m) = ran (map_of m)"
  by (simp add: ran_distinct)

interpretation pm: registry pm_default pm_insert pm_take pm_remove pm_drain pm_len map_of pm_wf
  by unfold_locales
    (auto simp: pm_default_def pm_insert_def pm_take_def pm_remove_def pm_drain_def pm_len_def
      pm_wf_def update_conv' map_of_delete distinct_update distinct_delete length_distinct_keys
      set_senders finite_dom_map_of simp del: set_map)

lemma pm_take_eq_remove: "pm_take = pm_remove"
  by (simp add: fun_eq_iff pm_take_def pm_remove_def)

lemma guard_drop_disarmed [simp]: "guard_drop (guard_disarm g) m = (None, m)"
  by (simp add: guard_drop_def guard_disarm_def)

lemma guard_drop_armed: "pg_armed g \<Longrightarrow> guard_drop g m = pm_remove (pg_id g) m"
  by (simp add: guard_drop_def)

lemma guard_new_simps [simp]: "pg_id (guard_new i) = i" "pg_armed (guard_new i)"
  by (simp_all add: guard_new_def)

end
