(* ===== verification/Errors.thy ===== *)
theory Errors
  imports Envelope
begin

text \<open>
  The error types of \<^verbatim>\<open>crates/patina-rpc/src/error.rs\<close>. The errors of \<open>std::io\<close> and
  \<open>bincode\<close> are foreign values: they are the type parameter \<open>'x\<close>, and their \<open>Display\<close> is the
  parameter \<open>disp\<close> of the printing functions. Also here, because they are conversions between error
  types, \<open>HandlerError\<close> with its conversion from \<open>PatinaError\<close> (\<^verbatim>\<open>server.rs\<close>).
\<close>

section \<open>Wire and RPC errors\<close>

datatype 'x wire_error =
    Io 'x
  | Encode 'x
  | Decode 'x

datatype 'x patina_error =
    Wire "'x wire_error"
  | Remote u16 string
  | Closed
  | UnknownMethod string

type_synonym 'x rpc_error = "'x patina_error"

definition application :: "u16 \<Rightarrow> string \<Rightarrow> 'x patina_error" where
  "application c m = Remote c m"

definition patina_from_error_data :: "error_data \<Rightarrow> 'x patina_error" where
  "patina_from_error_data e = Remote (er_code e) (er_message e)"

definition patina_from_io :: "'x \<Rightarrow> 'x patina_error" where
  "patina_from_io e = Wire (Io e)"

section \<open>Display\<close>

fun wire_error_to_string :: "('x \<Rightarrow> string) \<Rightarrow> 'x wire_error \<Rightarrow> string" where
  "wire_error_to_string disp (Io e) = ''io error: '' @ disp e"
| "wire_error_to_string disp (Encode e) = ''bincode encode: '' @ disp e"
| "wire_error_to_string disp (Decode e) = ''bincode decode: '' @ disp e"

fun patina_error_to_string :: "('x \<Rightarrow> string) \<Rightarrow> 'x patina_error \<Rightarrow> string" where
  "patina_error_to_string disp (Wire e) = ''wire error: '' @ wire_error_to_string disp e"
| "patina_error_to_string disp (Remote c m) = ''remote error '' @ dec_digits (unat c) @ '': '' @ m"
| "patina_error_to_string disp Closed = ''connection closed''"
| "patina_error_to_string disp (UnknownMethod m) = ''unknown method: '' @ m"

section \<open>Handler errors\<close>

record handler_error =
  he_code :: u16
  he_message :: string

definition handler_error_new :: "u16 \<Rightarrow> string \<Rightarrow> handler_error" where
  "handler_error_new c m = \<lparr>he_code = c, he_message = m\<rparr>"

fun handler_error_from_patina :: "('x \<Rightarrow> string) \<Rightarrow> 'x patina_error \<Rightarrow> handler_error" where
  "handler_error_from_patina disp (Remote c m) = \<lparr>he_code = c, he_message = m\<rparr>"
| "handler_error_from_patina disp e =
     \<lparr>he_code = 500, he_message = patina_error_to_string disp e\<rparr>"

fun is_remote :: "'x patina_error \<Rightarrow> bool" where
  "is_remote (Remote c m) = True"
| "is_remote _ = False"

lemma handler_error_from_not_remote:
  "\<not> is_remote e \<Longrightarrow>
   handler_error_from_patina disp e = \<lparr>he_code = 500, he_message = patina_error_to_string disp e\<rparr>"
  by (cases e) simp_all

lemma he_code_from_patina:
  "he_code (handler_error_from_patina disp e) = (case e of Remote c m \<Rightarrow> c | _ \<Rightarrow> 500)"
  by (cases e) simp_all

end
