(* ===== verification/Client.thy ===== *)
theory Client
  imports Pending_Map Errors
begin

text \<open>
  The client multiplexer of \<^verbatim>\<open>crates/patina-rpc/src/client.rs\<close> as a state machine. The state is
  what the \<open>Client\<close>, its two background tasks and the \<open>call\<close> futures share or hold in local
  variables; every atomic action on shared state is a step of its own, so all interleavings of the
  tasks are runs. The network is the environment: which frames arrive, and whether a send succeeds,
  is part of the event.

  \<^item> \<open>call\<close>: \<open>EvCall\<close> (the \<open>is_cancelled\<close> test), \<open>EvFetchAdd\<close>, \<open>EvInsert\<close> (register and arm the
    guard), \<open>EvSend\<close>, \<open>EvRecv\<close>; \<open>EvDrop\<close> drops the future where it can be suspended;
  \<^item> \<open>writer_loop\<close>: the \<open>EvWriter\<close> events, \<open>reader_loop\<close>: the \<open>EvReader\<close> events;
  \<^item> \<open>EvClientDrop\<close>: the \<open>Client\<close> value is dropped.

  \<open>built\<close>, \<open>entered\<close> and \<open>sent\<close> are history: the request each call built, the calls in the order they
  started, and the envelopes the writer handed to the socket.
\<close>

section \<open>State\<close>

definition CLIENT_WRITER_CHANNEL_CAPACITY :: nat where
  "CLIENT_WRITER_CHANNEL_CAPACITY = 128"

text \<open>A oneshot channel as its receiver sees it.\<close>

datatype oneshot = Empty | Full envelope | TxDropped

text \<open>Where a \<open>call\<close> future is, with the local variables it holds there.\<close>

datatype 'x call_state =
    NotStarted
  | Checked string bytes
  | Numbered u64 string bytes
  | Sending u64 string bytes pending_guard
  | Awaiting u64 pending_guard
  | Finished "'x patina_error + bytes"
  | Dropped

datatype writer_state = WIdle | WSending envelope | WBreaking | WCancelled | WGone

datatype reader_state =
    RIdle
  | RDeliver chan envelope
  | RBreaking
  | RCancelled
  | RDropping "chan list"
  | RGone

record 'x client =
  next_id :: u64
  pending :: pending_map
  outbound :: "envelope list"
  token :: bool
  alive :: bool
  calls :: "chan \<Rightarrow> 'x call_state"
  chans :: "chan \<Rightarrow> oneshot"
  writer :: writer_state
  reader :: reader_state
  built :: "chan \<Rightarrow> request_data option"
  entered :: "chan list"
  sent :: "envelope list"

definition from_stream :: "'x client" where
  "from_stream =
     \<lparr>next_id = 0, pending = pm_default, outbound = [], token = False, alive = True,
      calls = (\<lambda>_. NotStarted), chans = (\<lambda>_. Empty), writer = WIdle, reader = RIdle,
      built = (\<lambda>_. None), entered = [], sent = []\<rparr>"

definition connect :: "'x + 'tcp \<Rightarrow> 'x patina_error + 'x client" where
  "connect r = (case r of Inl e \<Rightarrow> Inl (patina_from_io e) | Inr stream \<Rightarrow> Inr from_stream)"

definition pending_count :: "'x client \<Rightarrow> nat" where
  "pending_count s = pm_len (pending s)"

definition is_closed :: "'x client \<Rightarrow> bool" where
  "is_closed s = token s"

section \<open>Oneshot channels\<close>

text \<open>Sending on a channel and dropping a sender; both consume the sender.\<close>

definition send_tx :: "chan \<Rightarrow> envelope \<Rightarrow> (chan \<Rightarrow> oneshot) \<Rightarrow> (chan \<Rightarrow> oneshot)" where
  "send_tx c e ch = (if ch c = Empty then ch(c := Full e) else ch)"

fun drop_tx :: "chan option \<Rightarrow> (chan \<Rightarrow> oneshot) \<Rightarrow> (chan \<Rightarrow> oneshot)" where
  "drop_tx None ch = ch"
| "drop_tx (Some c) ch = (if ch c = Empty then ch(c := TxDropped) else ch)"

fun drop_all :: "chan list \<Rightarrow> (chan \<Rightarrow> oneshot) \<Rightarrow> (chan \<Rightarrow> oneshot)" where
  "drop_all [] ch = ch"
| "drop_all (c # cs) ch = drop_all cs (drop_tx (Some c) ch)"

section \<open>The call future\<close>

text \<open>The \<open>match rx.await\<close>; \<open>None\<close> is \<open>Err(RecvError)\<close>, the sender was dropped.\<close>

fun call_result :: "envelope option \<Rightarrow> 'x patina_error + bytes" where
  "call_result (Some (Response r)) = Inr (rs_payload r)"
| "call_result (Some (Error e)) = Inl (patina_from_error_data e)"
| "call_result (Some other) = Inl Closed"
| "call_result None = Inl Closed"

abbreviation set_call :: "chan \<Rightarrow> 'x call_state \<Rightarrow> 'x client \<Rightarrow> 'x client" where
  "set_call c st s \<equiv> s\<lparr>calls := (calls s)(c := st)\<rparr>"

definition call_enter :: "chan \<Rightarrow> string \<Rightarrow> bytes \<Rightarrow> 'x client \<Rightarrow> 'x client option" where
  "call_enter c m p s =
     (case calls s c of
        NotStarted \<Rightarrow>
          if \<not> alive s then None
          else if token s then Some (set_call c (Finished (Inl Closed)) s\<lparr>entered := c # entered s\<rparr>)
          else Some (set_call c (Checked m p) s\<lparr>entered := c # entered s\<rparr>)
      | _ \<Rightarrow> None)"

definition call_fetch_add :: "chan \<Rightarrow> 'x client \<Rightarrow> 'x client option" where
  "call_fetch_add c s =
     (case calls s c of
        Checked m p \<Rightarrow>
          Some (set_call c (Numbered (next_id s) m p) s\<lparr>next_id := next_id s + 1\<rparr>)
      | _ \<Rightarrow> None)"

definition call_insert :: "chan \<Rightarrow> 'x client \<Rightarrow> 'x client option" where
  "call_insert c s =
     (case calls s c of
        Numbered i m p \<Rightarrow>
          (let (old, pm) = pm_insert i c (pending s)
           in Some (set_call c (Sending i m p (guard_new i))
                s\<lparr>pending := pm, chans := drop_tx old (chans s),
                  built := (built s)(c \<mapsto> \<lparr>rq_id = i, rq_method = m, rq_payload = p\<rparr>)\<rparr>))
      | _ \<Rightarrow> None)"

text \<open>The future ends: its guard is dropped, then the state is recorded.\<close>

definition call_end :: "chan \<Rightarrow> pending_guard \<Rightarrow> 'x call_state \<Rightarrow> 'x client \<Rightarrow> 'x client" where
  "call_end c g st s =
     (let (tx, pm) = guard_drop g (pending s)
      in set_call c st s\<lparr>pending := pm, chans := drop_tx tx (chans s)\<rparr>)"

definition call_send :: "chan \<Rightarrow> 'x client \<Rightarrow> 'x client option" where
  "call_send c s =
     (case calls s c of
        Sending i m p g \<Rightarrow>
          if writer s = WGone then Some (call_end c g (Finished (Inl Closed)) s)
          else if length (outbound s) < CLIENT_WRITER_CHANNEL_CAPACITY
          then Some (set_call c (Awaiting i g)
                 s\<lparr>outbound := outbound s
                      @ [Request \<lparr>rq_id = i, rq_method = m, rq_payload = p\<rparr>]\<rparr>)
          else None
      | _ \<Rightarrow> None)"

definition call_recv :: "chan \<Rightarrow> 'x client \<Rightarrow> 'x client option" where
  "call_recv c s =
     (case calls s c of
        Awaiting i g \<Rightarrow>
          (case chans s c of
             Empty \<Rightarrow> None
           | Full e \<Rightarrow> Some (call_end c (guard_disarm g) (Finished (call_result (Some e))) s)
           | TxDropped \<Rightarrow> Some (call_end c (guard_disarm g) (Finished (call_result None)) s))
      | _ \<Rightarrow> None)"

text \<open>The caller drops the future: before its first poll, or at one of its two await points.\<close>

definition call_drop :: "chan \<Rightarrow> 'x client \<Rightarrow> 'x client option" where
  "call_drop c s =
     (case calls s c of
        NotStarted \<Rightarrow> Some (set_call c Dropped s)
      | Sending i m p g \<Rightarrow> Some (call_end c g Dropped s)
      | Awaiting i g \<Rightarrow> Some (call_end c g Dropped s)
      | _ \<Rightarrow> None)"

text \<open>The futures borrow the client, so it is dropped only when none of them is still running.\<close>

fun call_over :: "'x call_state \<Rightarrow> bool" where
  "call_over NotStarted = True"
| "call_over (Finished r) = True"
| "call_over Dropped = True"
| "call_over _ = False"

definition client_drop :: "'x client \<Rightarrow> 'x client option" where
  "client_drop s =
     (if alive s \<and> list_all (\<lambda>c. call_over (calls s c)) (entered s)
      then Some (s\<lparr>alive := False\<rparr>) else None)"

section \<open>The writer task\<close>

definition writer_cancelled :: "'x client \<Rightarrow> 'x client option" where
  "writer_cancelled s =
     (if writer s = WIdle \<and> token s then Some (s\<lparr>writer := WBreaking\<rparr>) else None)"

definition writer_recv :: "'x client \<Rightarrow> 'x client option" where
  "writer_recv s =
     (if writer s = WIdle then
        (case outbound s of
           e # q \<Rightarrow> Some (s\<lparr>outbound := q, writer := WSending e\<rparr>)
         | [] \<Rightarrow> if alive s then None else Some (s\<lparr>writer := WBreaking\<rparr>))
      else None)"

definition writer_sent :: "'x client \<Rightarrow> 'x client option" where
  "writer_sent s =
     (case writer s of
        WSending e \<Rightarrow> Some (s\<lparr>writer := WIdle, sent := sent s @ [e]\<rparr>)
      | _ \<Rightarrow> None)"

definition writer_failed :: "'x client \<Rightarrow> 'x client option" where
  "writer_failed s =
     (case writer s of WSending e \<Rightarrow> Some (s\<lparr>writer := WBreaking\<rparr>) | _ \<Rightarrow> None)"

definition writer_cancel :: "'x client \<Rightarrow> 'x client option" where
  "writer_cancel s =
     (if writer s = WBreaking then Some (s\<lparr>token := True, writer := WCancelled\<rparr>) else None)"

text \<open>Returning drops the receiver, and with it what is still buffered in the channel.\<close>

definition writer_exit :: "'x client \<Rightarrow> 'x client option" where
  "writer_exit s =
     (if writer s = WCancelled then Some (s\<lparr>outbound := [], writer := WGone\<rparr>) else None)"

section \<open>The reader task\<close>

definition reader_cancelled :: "'x client \<Rightarrow> 'x client option" where
  "reader_cancelled s =
     (if reader s = RIdle \<and> token s then Some (s\<lparr>reader := RBreaking\<rparr>) else None)"

definition reader_frame :: "envelope \<Rightarrow> 'x client \<Rightarrow> 'x client option" where
  "reader_frame e s =
     (if reader s = RIdle then
        (case reply_id e of
           None \<Rightarrow> Some s
         | Some i \<Rightarrow>
             (case pm_take i (pending s) of
                (Some tx, pm) \<Rightarrow> Some (s\<lparr>pending := pm, reader := RDeliver tx e\<rparr>)
              | (None, pm) \<Rightarrow> Some (s\<lparr>pending := pm\<rparr>)))
      else None)"

definition reader_deliver :: "'x client \<Rightarrow> 'x client option" where
  "reader_deliver s =
     (case reader s of
        RDeliver tx e \<Rightarrow> Some (s\<lparr>chans := send_tx tx e (chans s), reader := RIdle\<rparr>)
      | _ \<Rightarrow> None)"

text \<open>A decode error or the end of the stream leaves the loop.\<close>

definition reader_break :: "'x client \<Rightarrow> 'x client option" where
  "reader_break s = (if reader s = RIdle then Some (s\<lparr>reader := RBreaking\<rparr>) else None)"

definition reader_cancel :: "'x client \<Rightarrow> 'x client option" where
  "reader_cancel s =
     (if reader s = RBreaking then Some (s\<lparr>token := True, reader := RCancelled\<rparr>) else None)"

definition reader_drain :: "'x client \<Rightarrow> 'x client option" where
  "reader_drain s =
     (if reader s = RCancelled then
        (let (txs, pm) = pm_drain (pending s)
         in Some (s\<lparr>pending := pm, reader := RDropping txs\<rparr>))
      else None)"

definition reader_exit :: "'x client \<Rightarrow> 'x client option" where
  "reader_exit s =
     (case reader s of
        RDropping txs \<Rightarrow> Some (s\<lparr>chans := drop_all txs (chans s), reader := RGone\<rparr>)
      | _ \<Rightarrow> None)"

section \<open>Events and steps\<close>

datatype event =
    EvCall chan string bytes
  | EvFetchAdd chan
  | EvInsert chan
  | EvSend chan
  | EvRecv chan
  | EvDrop chan
  | EvClientDrop
  | EvWriterCancelled
  | EvWriterRecv
  | EvWriterSent
  | EvWriterFailed
  | EvWriterCancel
  | EvWriterExit
  | EvReaderCancelled
  | EvReaderFrame envelope
  | EvReaderDeliver
  | EvReaderError
  | EvReaderEof
  | EvReaderCancel
  | EvReaderDrain
  | EvReaderExit

fun client_step :: "event \<Rightarrow> 'x client \<Rightarrow> 'x client option" where
  "client_step (EvCall c m p) s = call_enter c m p s"
| "client_step (EvFetchAdd c) s = call_fetch_add c s"
| "client_step (EvInsert c) s = call_insert c s"
| "client_step (EvSend c) s = call_send c s"
| "client_step (EvRecv c) s = call_recv c s"
| "client_step (EvDrop c) s = call_drop c s"
| "client_step EvClientDrop s = client_drop s"
| "client_step EvWriterCancelled s = writer_cancelled s"
| "client_step EvWriterRecv s = writer_recv s"
| "client_step EvWriterSent s = writer_sent s"
| "client_step EvWriterFailed s = writer_failed s"
| "client_step EvWriterCancel s = writer_cancel s"
| "client_step EvWriterExit s = writer_exit s"
| "client_step EvReaderCancelled s = reader_cancelled s"
| "client_step (EvReaderFrame e) s = reader_frame e s"
| "client_step EvReaderDeliver s = reader_deliver s"
| "client_step EvReaderError s = reader_break s"
| "client_step EvReaderEof s = reader_break s"
| "client_step EvReaderCancel s = reader_cancel s"
| "client_step EvReaderDrain s = reader_drain s"
| "client_step EvReaderExit s = reader_exit s"

abbreviation client_run :: "event list \<Rightarrow> 'x client \<Rightarrow> 'x client option" where
  "client_run \<equiv> run client_step"

end
