(* ===== verification/Client_Inv.thy ===== *)
theory Client_Inv
  imports Client
begin

text \<open>
  The registration invariant of the client and its consequences. It ties the pending map, the
  oneshot channels, the reader task and the call futures together: an entry belongs to exactly one
  call that is waiting and whose channel is still empty, and a waiting call is never without a
  source of wake-up (an entry, a filled or closed channel, or the reader on its way to it).
\<close>

section \<open>Oneshot lemmas\<close>

lemma drop_tx_apply: "drop_tx o' ch c = (if o' = Some c \<and> ch c = Empty then TxDropped else ch c)"
  by (cases o') auto

lemma send_tx_apply: "send_tx d e ch c = (if d = c \<and> ch c = Empty then Full e else ch c)"
  by (simp add: send_tx_def)

lemma drop_all_apply: "drop_all ds ch c = (if c \<in> set ds \<and> ch c = Empty then TxDropped else ch c)"
  by (induction ds arbitrary: ch) auto

lemmas oneshot_apply = drop_tx_apply send_tx_apply drop_all_apply

section \<open>The invariant\<close>

text \<open>The id and the guard a future holds between registration and its end.\<close>

fun slot :: "'x call_state \<Rightarrow> (u64 \<times> pending_guard) option" where
  "slot (Sending i m p g) = Some (i, g)"
| "slot (Awaiting i g) = Some (i, g)"
| "slot _ = None"

fun unregistered :: "'x call_state \<Rightarrow> bool" where
  "unregistered NotStarted = True"
| "unregistered (Checked m p) = True"
| "unregistered (Numbered i m p) = True"
| "unregistered _ = False"

fun reader_holds :: "reader_state \<Rightarrow> chan set" where
  "reader_holds (RDeliver c e) = {c}"
| "reader_holds (RDropping cs) = set cs"
| "reader_holds _ = {}"

definition entries_ok :: "'x client \<Rightarrow> bool" where
  "entries_ok s \<longleftrightarrow> pm_wf (pending s) \<and>
     (\<forall>i c. map_of (pending s) i = Some c \<longrightarrow>
        slot (calls s c) = Some (i, guard_new i) \<and> chans s c = Empty \<and> c \<notin> reader_holds (reader s))"

definition waiters_ok :: "'x client \<Rightarrow> bool" where
  "waiters_ok s \<longleftrightarrow>
     (\<forall>c i g. slot (calls s c) = Some (i, g) \<longrightarrow> g = guard_new i \<and>
        (map_of (pending s) i = Some c \<or> chans s c \<noteq> Empty \<or> c \<in> reader_holds (reader s)))"

definition fresh_ok :: "'x client \<Rightarrow> bool" where
  "fresh_ok s \<longleftrightarrow>
     (\<forall>c. unregistered (calls s c) \<longrightarrow> chans s c = Empty \<and> c \<notin> reader_holds (reader s))"

definition client_inv :: "'x client \<Rightarrow> bool" where
  "client_inv s \<longleftrightarrow> entries_ok s \<and> waiters_ok s \<and> fresh_ok s"

lemmas client_inv_defs = client_inv_def entries_ok_def waiters_ok_def fresh_ok_def

lemma client_invI:
  assumes "pm_wf (pending s)"
    and "\<And>i c. map_of (pending s) i = Some c \<Longrightarrow>
      slot (calls s c) = Some (i, guard_new i) \<and> chans s c = Empty \<and> c \<notin> reader_holds (reader s)"
    and "\<And>c i g. slot (calls s c) = Some (i, g) \<Longrightarrow> g = guard_new i \<and>
        (map_of (pending s) i = Some c \<or> chans s c \<noteq> Empty \<or> c \<in> reader_holds (reader s))"
    and "\<And>c. unregistered (calls s c) \<Longrightarrow> chans s c = Empty \<and> c \<notin> reader_holds (reader s)"
  shows "client_inv s"
  using assms unfolding client_inv_defs by blast

lemma client_invD:
  assumes "client_inv s"
  shows "pm_wf (pending s)"
    and "map_of (pending s) i = Some c \<Longrightarrow>
      slot (calls s c) = Some (i, guard_new i) \<and> chans s c = Empty \<and> c \<notin> reader_holds (reader s)"
    and "slot (calls s c) = Some (i, g) \<Longrightarrow> g = guard_new i \<and>
        (map_of (pending s) i = Some c \<or> chans s c \<noteq> Empty \<or> c \<in> reader_holds (reader s))"
    and "unregistered (calls s c) \<Longrightarrow> chans s c = Empty \<and> c \<notin> reader_holds (reader s)"
  using assms unfolding client_inv_defs by blast+

lemma client_inv_init: "client_inv from_stream"
  by (rule client_invI) (simp_all add: from_stream_def pm_default_def pm_wf_def)

lemma slot_unregistered: "slot st = Some x \<Longrightarrow> \<not> unregistered st"
  by (cases st) simp_all

section \<open>Every operation keeps it\<close>

text \<open>
  A step that only moves one call between states with the same slot, or changes fields the
  invariant does not mention, keeps it.
\<close>

lemma client_inv_frame:
  assumes "client_inv s" "pending t = pending s" "chans t = chans s"
    and "reader_holds (reader t) = reader_holds (reader s)"
    and "\<And>d. slot (calls t d) = slot (calls s d)"
    and "\<And>d. unregistered (calls t d) \<Longrightarrow> unregistered (calls s d)"
  shows "client_inv t"
  using assms unfolding client_inv_defs by metis

lemma call_enter_inv: "client_inv s \<Longrightarrow> call_enter c m p s = Some t \<Longrightarrow> client_inv t"
  by (erule client_inv_frame) (auto simp: call_enter_def split: call_state.splits if_splits)

lemma call_fetch_add_inv: "client_inv s \<Longrightarrow> call_fetch_add c s = Some t \<Longrightarrow> client_inv t"
  by (erule client_inv_frame) (auto simp: call_fetch_add_def split: call_state.splits if_splits)

lemma call_insert_inv:
  assumes inv: "client_inv s" and step: "call_insert c s = Some t"
  shows "client_inv t"
proof -
  note D = client_invD [OF inv]
  from step obtain i m p where st: "calls s c = Numbered i m p"
    by (auto simp: call_insert_def split: call_state.splits)
  obtain old pm where ins: "pm_insert i c (pending s) = (old, pm)" by force
  note law = pm.insert_law [OF D(1) ins]
  from D(4) [of c] have c: "chans s c = Empty" "c \<notin> reader_holds (reader s)" by (simp_all add: st)
  from D(2) have not_c: "map_of (pending s) j \<noteq> Some c" for j
    using slot_unregistered [of "calls s c"] by (force simp: st)
  have t: "pending t = pm" "chans t = drop_tx old (chans s)" "reader t = reader s"
    "calls t = (calls s)(c := Sending i m p (guard_new i))"
    using step by (auto simp: call_insert_def st ins)
  show ?thesis
  proof (rule client_invI)
    show "pm_wf (pending t)" using law by (simp add: t)
  next
    fix j d assume "map_of (pending t) j = Some d"
    then show "slot (calls t d) = Some (j, guard_new j) \<and> chans t d = Empty
        \<and> d \<notin> reader_holds (reader t)"
      using D(2) [of j d] D(2) [of i d] law c not_c [of j] st
      by (auto simp: t oneshot_apply split: if_splits)
  next
    fix d j g assume "slot (calls t d) = Some (j, g)"
    then show "g = guard_new j \<and> (map_of (pending t) j = Some d \<or> chans t d \<noteq> Empty
        \<or> d \<in> reader_holds (reader t))"
      using D(3) [of d j g] law by (auto simp: t oneshot_apply split: if_splits)
  next
    fix d assume "unregistered (calls t d)"
    then show "chans t d = Empty \<and> d \<notin> reader_holds (reader t)"
      using D(4) [of d] D(2) [of i d] law slot_unregistered [of "calls s d"]
      by (auto simp: t oneshot_apply split: if_splits)
  qed
qed

text \<open>Ending a call runs its guard: an armed one takes the entry with the call's id out of the map.\<close>

lemma call_end_inv:
  assumes inv: "client_inv s" and slot: "slot (calls s c) = Some (i, g)"
    and st: "slot st = None" "\<not> unregistered st"
  shows "client_inv (call_end c g st s)"
proof -
  note D = client_invD [OF inv]
  from D(3) [OF slot] have g: "g = guard_new i" by simp
  obtain tx pm where rem: "pm_remove i (pending s) = (tx, pm)" by force
  note law = pm.remove_law [OF D(1) rem]
  define t where "t = call_end c g st s"
  have t: "pending t = pm" "chans t = drop_tx tx (chans s)" "reader t = reader s"
    "calls t = (calls s)(c := st)"
    by (simp_all add: t_def call_end_def g guard_drop_armed rem)
  have "client_inv t"
  proof (rule client_invI)
    show "pm_wf (pending t)" using law by (simp add: t)
  next
    fix j d assume "map_of (pending t) j = Some d"
    then show "slot (calls t d) = Some (j, guard_new j) \<and> chans t d = Empty
        \<and> d \<notin> reader_holds (reader t)"
      using D(2) [of j d] D(2) [of i d] law slot
      by (auto simp: t oneshot_apply split: if_splits)
  next
    fix d j g' assume "slot (calls t d) = Some (j, g')"
    then show "g' = guard_new j \<and> (map_of (pending t) j = Some d \<or> chans t d \<noteq> Empty
        \<or> d \<in> reader_holds (reader t))"
      using D(3) [of d j g'] law st(1) by (auto simp: t oneshot_apply split: if_splits)
  next
    fix d assume "unregistered (calls t d)"
    then show "chans t d = Empty \<and> d \<notin> reader_holds (reader t)"
      using D(4) [of d] D(2) [of i d] law st(2) slot_unregistered [of "calls s d"]
      by (auto simp: t oneshot_apply split: if_splits)
  qed
  then show ?thesis by (simp only: t_def)
qed

text \<open>A disarmed guard leaves the map alone; the call must have been woken already.\<close>

lemma call_end_disarmed_inv:
  assumes inv: "client_inv s" and woken: "chans s c \<noteq> Empty"
    and st: "slot st = None" "\<not> unregistered st"
  shows "client_inv (call_end c (guard_disarm g) st s)"
  using client_invD [OF inv] woken st
  by (intro client_invI) (auto simp: call_end_def split: if_splits)

lemma call_send_inv:
  assumes "client_inv s" "call_send c s = Some t"
  shows "client_inv t"
proof -
  from assms(2) obtain i m p g where st: "calls s c = Sending i m p g"
    by (auto simp: call_send_def split: call_state.splits)
  show ?thesis
  proof (cases "writer s = WGone")
    case True
    with assms(2) st have "t = call_end c g (Finished (Inl Closed)) s"
      by (simp add: call_send_def)
    with call_end_inv [OF assms(1), of c i g "Finished (Inl Closed)"] st show ?thesis by simp
  next
    case False
    with assms st show ?thesis
      by (elim client_inv_frame) (auto simp: call_send_def split: if_splits)
  qed
qed

lemma call_recv_inv: "client_inv s \<Longrightarrow> call_recv c s = Some t \<Longrightarrow> client_inv t"
  by (auto simp: call_recv_def intro!: call_end_disarmed_inv split: call_state.splits oneshot.splits)

lemma call_drop_inv:
  assumes inv: "client_inv s" and step: "call_drop c s = Some t"
  shows "client_inv t"
proof (cases "calls s c = NotStarted")
  case True
  with inv step show ?thesis by (elim client_inv_frame) (auto simp: call_drop_def split: if_splits)
next
  case False
  with step obtain i g where "slot (calls s c) = Some (i, g)" "t = call_end c g Dropped s"
    by (auto simp: call_drop_def split: call_state.splits)
  with call_end_inv [OF inv, of c i g Dropped] show ?thesis by simp
qed

lemma client_drop_inv: "client_inv s \<Longrightarrow> client_drop s = Some t \<Longrightarrow> client_inv t"
  by (erule client_inv_frame) (auto simp: client_drop_def split: if_splits)

lemma writer_inv:
  assumes "client_inv s"
    and "writer_cancelled s = Some t \<or> writer_recv s = Some t \<or> writer_sent s = Some t
      \<or> writer_failed s = Some t \<or> writer_cancel s = Some t \<or> writer_exit s = Some t"
  shows "client_inv t"
  using assms(1)
  by (rule client_inv_frame)
    (use assms(2) in \<open>auto simp: writer_cancelled_def writer_recv_def writer_sent_def
      writer_failed_def writer_cancel_def writer_exit_def
      split: if_splits list.splits writer_state.splits\<close>)

lemma reader_loop_inv:
  assumes "client_inv s"
    and "reader_cancelled s = Some t \<or> reader_break s = Some t \<or> reader_cancel s = Some t"
  shows "client_inv t"
  using assms(1)
  by (rule client_inv_frame)
    (use assms(2) in \<open>auto simp: reader_cancelled_def reader_break_def reader_cancel_def
      split: if_splits\<close>)

lemma reader_frame_inv:
  assumes inv: "client_inv s" and step: "reader_frame e s = Some t"
  shows "client_inv t"
proof (cases "reply_id e")
  case None
  with step inv show ?thesis by (auto simp: reader_frame_def split: if_splits)
next
  case (Some i)
  note D = client_invD [OF inv]
  obtain r pm where take: "pm_take i (pending s) = (r, pm)" by force
  note law = pm.take_law [OF D(1) take]
  from step have idle: "reader s = RIdle" by (auto simp: reader_frame_def split: if_splits)
  have t: "pending t = pm" "chans t = chans s" "calls t = calls s"
    "reader_holds (reader t) = set_option r"
    using step by (auto simp: reader_frame_def idle Some take split: option.splits)
  show ?thesis
  proof (rule client_invI)
    show "pm_wf (pending t)" using law by (simp add: t)
  next
    fix j d assume "map_of (pending t) j = Some d"
    then show "slot (calls t d) = Some (j, guard_new j) \<and> chans t d = Empty
        \<and> d \<notin> reader_holds (reader t)"
      using D(2) [of j d] D(2) [of i d] law by (auto simp: t split: if_splits)
  next
    fix d j g assume "slot (calls t d) = Some (j, g)"
    then show "g = guard_new j \<and> (map_of (pending t) j = Some d \<or> chans t d \<noteq> Empty
        \<or> d \<in> reader_holds (reader t))"
      using D(3) [of d j g] law by (auto simp: t idle)
  next
    fix d assume "unregistered (calls t d)"
    then show "chans t d = Empty \<and> d \<notin> reader_holds (reader t)"
      using D(4) [of d] D(2) [of i d] law slot_unregistered [of "calls s d"] by (auto simp: t)
  qed
qed

lemma reader_deliver_inv:
  assumes inv: "client_inv s" and step: "reader_deliver s = Some t"
  shows "client_inv t"
proof -
  from step obtain c e where rd: "reader s = RDeliver c e"
    and t: "t = s\<lparr>chans := send_tx c e (chans s), reader := RIdle\<rparr>"
    by (auto simp: reader_deliver_def split: reader_state.splits)
  show ?thesis
    using client_invD [OF inv] by (intro client_invI) (fastforce simp: t rd oneshot_apply split: if_splits)+
qed

lemma reader_drain_inv:
  assumes inv: "client_inv s" and step: "reader_drain s = Some t"
  shows "client_inv t"
proof -
  note D = client_invD [OF inv]
  obtain txs pm where dr: "pm_drain (pending s) = (txs, pm)" by force
  note law = pm.drain_law [OF D(1) dr]
  from step have rd: "reader s = RCancelled" and t: "t = s\<lparr>pending := pm, reader := RDropping txs\<rparr>"
    by (auto simp: reader_drain_def dr split: if_splits)
  have txs: "c \<in> set txs \<longleftrightarrow> (\<exists>i. map_of (pending s) i = Some c)" for c
    using law by (simp add: ran_def)
  show ?thesis
  proof (rule client_invI)
    fix c i g assume "slot (calls t c) = Some (i, g)"
    then show "g = guard_new i \<and> (map_of (pending t) i = Some c \<or> chans t c \<noteq> Empty
        \<or> c \<in> reader_holds (reader t))"
      using D(3) [of c i g] txs [of c] by (auto simp: t rd)
  next
    fix c assume u: "unregistered (calls t c)"
    then have "c \<notin> set txs"
      using txs [of c] D(2) slot_unregistered [of "calls s c"] by (auto simp: t)
    with u show "chans t c = Empty \<and> c \<notin> reader_holds (reader t)"
      using D(4) [of c] by (simp add: t)
  qed (use law in \<open>auto simp: t\<close>)
qed

lemma reader_exit_inv:
  assumes inv: "client_inv s" and step: "reader_exit s = Some t"
  shows "client_inv t"
proof -
  from step obtain txs where rd: "reader s = RDropping txs"
    and t: "t = s\<lparr>chans := drop_all txs (chans s), reader := RGone\<rparr>"
    by (auto simp: reader_exit_def split: reader_state.splits)
  show ?thesis
    using client_invD [OF inv] by (intro client_invI) (fastforce simp: t rd oneshot_apply split: if_splits)+
qed

declare call_enter_inv [step_invs] call_fetch_add_inv [step_invs] call_insert_inv [step_invs]
  call_send_inv [step_invs] call_recv_inv [step_invs] call_drop_inv [step_invs] client_drop_inv [step_invs]
  writer_inv [step_invs] reader_loop_inv [step_invs] reader_frame_inv [step_invs]
  reader_deliver_inv [step_invs] reader_drain_inv [step_invs] reader_exit_inv [step_invs]

lemma client_step_inv:
  assumes "client_inv s" "client_step e s = Some t"
  shows "client_inv t"
  using assms
  by (cases e) (auto intro: step_invs)

lemma client_run_inv: "client_run es from_stream = Some s \<Longrightarrow> client_inv s"
  using run_invariant [of client_inv client_step from_stream es s] client_step_inv client_inv_init
  by blast

end
