(* ===== verification/Client_Trace.thy ===== *)
theory Client_Trace
  imports Client_Inv
begin

text \<open>
  What a run of the client can have done: how each step changes one field, and the facts about
  whole runs that follow: where a call's result comes from, how ids are handed out, what reaches
  the socket, and that the two background tasks tear the connection down together.
\<close>

section \<open>Field by field\<close>

lemmas call_op_defs = call_enter_def call_fetch_add_def call_insert_def call_send_def call_recv_def
  call_drop_def client_drop_def call_end_def

lemmas writer_op_defs = writer_cancelled_def writer_recv_def writer_sent_def writer_failed_def
  writer_cancel_def writer_exit_def

lemmas reader_op_defs = reader_cancelled_def reader_frame_def reader_deliver_def reader_break_def
  reader_cancel_def reader_drain_def reader_exit_def

lemmas client_op_defs = call_op_defs writer_op_defs reader_op_defs

lemmas client_op_splits = call_state.splits oneshot.splits writer_state.splits reader_state.splits
  option.splits prod.splits list.splits if_splits

lemma step_slot:
  assumes "client_step e s = Some t" "slot (calls t c) = Some (i, g)"
  shows "slot (calls s c) = Some (i, g)
    \<or> (\<exists>m p. e = EvInsert c \<and> calls s c = Numbered i m p \<and> g = guard_new i
         \<and> built t c = Some \<lparr>rq_id = i, rq_method = m, rq_payload = p\<rparr>)"
  using assms
  by (cases e) (auto simp: client_op_defs split: client_op_splits)

lemma step_built:
  assumes "client_step e s = Some t" "built t c \<noteq> built s c"
  shows "\<exists>i m p. e = EvInsert c \<and> calls s c = Numbered i m p
    \<and> built t c = Some \<lparr>rq_id = i, rq_method = m, rq_payload = p\<rparr>"
  using assms
  by (cases e) (auto simp: client_op_defs split: client_op_splits)

lemma step_full:
  assumes "client_step e s = Some t" "chans t c = Full r"
  shows "chans s c = Full r \<or> reader s = RDeliver c r"
  using assms
  by (cases e) (auto simp: client_op_defs oneshot_apply split: client_op_splits)

lemma step_deliver:
  assumes "client_step e s = Some t" "reader t = RDeliver c r"
  shows "reader s = RDeliver c r
    \<or> (\<exists>i. e = EvReaderFrame r \<and> reply_id r = Some i \<and> map_of (pending s) i = Some c)"
  using assms
  by (cases e) (auto simp: client_op_defs pm_take_def split: client_op_splits)

lemma step_finished:
  assumes "client_step e s = Some t" "calls t c = Finished r"
  shows "calls s c = Finished r \<or> r = Inl Closed
    \<or> (\<exists>a. chans s c = Full a \<and> r = call_result (Some a))"
  using assms
  by (cases e) (auto simp: client_op_defs split: client_op_splits)

lemma step_token: "client_step e s = Some t \<Longrightarrow> token s \<Longrightarrow> token t"
  by (cases e) (auto simp: client_op_defs split: client_op_splits)

lemma run_token: "token s \<Longrightarrow> client_run es s = Some t \<Longrightarrow> token t"
  using run_invariant [of token client_step s es t] step_token by blast

section \<open>Where results come from\<close>

text \<open>\<open>answers es s c e\<close>: the envelope \<open>e\<close> arrived and carries the id of the request call \<open>c\<close> built.\<close>

definition answers :: "event list \<Rightarrow> 'x client \<Rightarrow> chan \<Rightarrow> envelope \<Rightarrow> bool" where
  "answers es s c e \<longleftrightarrow>
     EvReaderFrame e \<in> set es \<and> (\<exists>q. built s c = Some q \<and> reply_id e = Some (rq_id q))"

definition slots_built :: "'x client \<Rightarrow> bool" where
  "slots_built s \<longleftrightarrow>
     (\<forall>c i g. slot (calls s c) = Some (i, g) \<longrightarrow> (\<exists>q. built s c = Some q \<and> rq_id q = i))"

definition routed :: "event list \<Rightarrow> 'x client \<Rightarrow> bool" where
  "routed es s \<longleftrightarrow>
     (\<forall>c e. reader s = RDeliver c e \<longrightarrow> answers es s c e) \<and>
     (\<forall>c e. chans s c = Full e \<longrightarrow> answers es s c e) \<and>
     (\<forall>c r. calls s c = Finished r \<longrightarrow>
        r = Inl Closed \<or> (\<exists>e. answers es s c e \<and> r = call_result (Some e)))"

lemma step_slots_built:
  assumes "slots_built s" "client_step e s = Some t"
  shows "slots_built t"
  unfolding slots_built_def
proof (intro allI impI)
  fix c i g assume slot: "slot (calls t c) = Some (i, g)"
  show "\<exists>q. built t c = Some q \<and> rq_id q = i"
  proof (cases "built t c = built s c")
    case True
    with step_slot [OF assms(2) slot] assms(1) show ?thesis
      by (auto simp: slots_built_def)
  next
    case False
    from step_built [OF assms(2) False] step_slot [OF assms(2) slot] show ?thesis by auto
  qed
qed

lemma run_slots_built: "client_run es from_stream = Some s \<Longrightarrow> slots_built s"
proof (rule run_invariant [where I = slots_built and f = client_step])
  show "slots_built from_stream" by (simp add: slots_built_def from_stream_def)
qed (blast intro: step_slots_built)+

text \<open>A call that is being woken or has been woken was registered, so its request does not change.\<close>

lemma step_answers:
  assumes "client_step ev s = Some t" "answers es s c e" "\<not> unregistered (calls s c)"
  shows "answers (es @ [ev]) t c e"
proof -
  have "built t c = built s c"
  proof (rule ccontr)
    assume "built t c \<noteq> built s c"
    from step_built [OF assms(1) this] assms(3) show False by auto
  qed
  with assms(2) show ?thesis by (simp add: answers_def)
qed

lemma step_routed:
  assumes inv: "client_inv s" and built: "slots_built s" and old: "routed es s"
    and step: "client_step ev s = Some t"
  shows "routed (es @ [ev]) t"
proof -
  note D = client_invD [OF inv]
  have full: "answers (es @ [ev]) t c e" if "chans s c = Full e" for c e
    using that old D(4) [of c] step_answers [OF step, of es c e] by (auto simp: routed_def)
  have del: "answers (es @ [ev]) t c e" if "reader s = RDeliver c e" for c e
    using that old D(4) [of c] step_answers [OF step, of es c e] by (auto simp: routed_def)
  have took: "answers (es @ [ev]) t c e"
    if "ev = EvReaderFrame e" "reply_id e = Some i" "map_of (pending s) i = Some c" for c e i
  proof -
    have slot: "slot (calls s c) = Some (i, guard_new i)" using D(2) that(3) by blast
    then obtain q where "built s c = Some q" "rq_id q = i" using built by (auto simp: slots_built_def)
    moreover have "built t c = built s c"
      using step_built [OF step, of c] that(1) by blast
    ultimately show ?thesis using that by (simp add: answers_def)
  qed
  have fin: "answers (es @ [ev]) t c e" if "calls s c = Finished r" "answers es s c e" for c e r
    using that step_answers [OF step, of es c e] by simp
  show ?thesis
    unfolding routed_def
  proof (intro conjI allI impI)
    fix c e assume "reader t = RDeliver c e"
    from step_deliver [OF step this] show "answers (es @ [ev]) t c e" using del took by blast
  next
    fix c e assume "chans t c = Full e"
    from step_full [OF step this] show "answers (es @ [ev]) t c e" using full del by blast
  next
    fix c r assume "calls t c = Finished r"
    then consider "calls s c = Finished r" | "r = Inl Closed"
      | a where "chans s c = Full a" "r = call_result (Some a)"
      using step_finished [OF step] by blast
    then show "r = Inl Closed \<or> (\<exists>e. answers (es @ [ev]) t c e \<and> r = call_result (Some e))"
    proof cases
      case 1
      then have "r = Inl Closed \<or> (\<exists>e. answers es s c e \<and> r = call_result (Some e))"
        using old unfolding routed_def by blast
      with fin [OF 1] show ?thesis by blast
    next
      case 3
      with full show ?thesis by blast
    qed simp
  qed
qed

lemma run_routed:
  assumes "client_run es from_stream = Some s"
  shows "routed es s"
proof (rule run_trace_invariant [where P = routed and f = client_step and ?s0.0 = from_stream])
  show "routed [] from_stream" by (simp add: routed_def from_stream_def)
next
  fix es e s t
  assume "client_run es from_stream = Some s" "routed es s" "client_step e s = Some t"
  then show "routed (es @ [e]) t"
    using step_routed client_run_inv run_slots_built by blast
qed (rule assms)

section \<open>Ids\<close>

text \<open>The calls that took a number, in order; the \<open>k\<close>-th one got \<open>k mod 2 ^ 64\<close>.\<close>

fun numbered :: "event list \<Rightarrow> chan list" where
  "numbered [] = []"
| "numbered (EvFetchAdd c # es) = c # numbered es"
| "numbered (_ # es) = numbered es"

lemma numbered_append [simp]: "numbered (es @ fs) = numbered es @ numbered fs"
  by (induction es rule: numbered.induct) simp_all

fun before_number :: "'x call_state \<Rightarrow> bool" where
  "before_number NotStarted = True"
| "before_number (Checked m p) = True"
| "before_number _ = False"

definition nth_id :: "chan list \<Rightarrow> chan \<Rightarrow> u64 \<Rightarrow> bool" where
  "nth_id cs c i \<longleftrightarrow> (\<exists>k < length cs. cs ! k = c \<and> i = word_of_nat k)"

definition ids_ok :: "event list \<Rightarrow> 'x client \<Rightarrow> bool" where
  "ids_ok es s \<longleftrightarrow>
     next_id s = word_of_nat (length (numbered es)) \<and> distinct (numbered es) \<and>
     (\<forall>c \<in> set (numbered es). \<not> before_number (calls s c)) \<and>
     (\<forall>c i m p. calls s c = Numbered i m p \<longrightarrow> nth_id (numbered es) c i) \<and>
     (\<forall>c q. built s c = Some q \<longrightarrow> nth_id (numbered es) c (rq_id q))"

lemma nth_id_append:
  assumes "nth_id cs c i"
  shows "nth_id (cs @ ds) c i"
proof -
  from assms obtain k where "k < length cs" "cs ! k = c" "i = word_of_nat k"
    by (auto simp: nth_id_def)
  then have "k < length (cs @ ds) \<and> (cs @ ds) ! k = c \<and> i = word_of_nat k"
    by (simp add: nth_append)
  then show ?thesis unfolding nth_id_def by blast
qed

lemma nth_id_last: "nth_id (cs @ [c]) c (word_of_nat (length cs))"
  by (auto simp: nth_id_def intro!: exI [of _ "length cs"])

text \<open>\<open>fetch_add\<close> is the only step that hands out a number.\<close>

lemma step_numbered:
  assumes "client_step e s = Some t" "calls t c = Numbered i m p"
  shows "calls s c = Numbered i m p \<or> e = EvFetchAdd c \<and> i = next_id s"
  using assms
  by (cases e) (auto simp: client_op_defs split: client_op_splits)

lemma step_next_id:
  assumes "client_step e s = Some t"
  shows "next_id t = next_id s + word_of_nat (length (numbered [e]))"
  using assms
  by (cases e) (auto simp: client_op_defs split: client_op_splits)

lemma step_before_number:
  assumes "client_step e s = Some t" "before_number (calls t c)"
  shows "before_number (calls s c) \<and> c \<notin> set (numbered [e])"
  using assms
  by (cases e) (auto simp: client_op_defs split: client_op_splits)

lemma step_fetch_add_before: "client_step (EvFetchAdd c) s = Some t \<Longrightarrow> before_number (calls s c)"
  by (auto simp: call_fetch_add_def split: call_state.splits)

lemma numbered_singleton: "numbered [e] = [] \<or> (\<exists>c. e = EvFetchAdd c \<and> numbered [e] = [c])"
  by (cases e) simp_all

lemma step_ids_ok:
  assumes old: "ids_ok es s" and step: "client_step e s = Some t"
  shows "ids_ok (es @ [e]) t"
  unfolding ids_ok_def
proof (intro conjI allI impI ballI)
  show "next_id t = word_of_nat (length (numbered (es @ [e])))"
    using old step_next_id [OF step] by (simp add: ids_ok_def)
next
  show "distinct (numbered (es @ [e]))"
    using numbered_singleton [of e]
  proof (elim disjE exE conjE)
    fix c assume e: "e = EvFetchAdd c" "numbered [e] = [c]"
    have "before_number (calls s c)" using step_fetch_add_before step e(1) by blast
    then have "c \<notin> set (numbered es)" using old by (auto simp: ids_ok_def)
    with e(2) old show ?thesis by (simp add: ids_ok_def)
  qed (use old in \<open>simp add: ids_ok_def\<close>)
next
  fix c assume "c \<in> set (numbered (es @ [e]))"
  then show "\<not> before_number (calls t c)"
    using old step_before_number [OF step, of c] by (auto simp: ids_ok_def)
next
  fix c i m p assume "calls t c = Numbered i m p"
  from step_numbered [OF step this] show "nth_id (numbered (es @ [e])) c i"
    using old nth_id_append nth_id_last [of "numbered es" c] by (fastforce simp: ids_ok_def)
next
  fix c q assume q: "built t c = Some q"
  show "nth_id (numbered (es @ [e])) c (rq_id q)"
  proof (cases "built t c = built s c")
    case True
    with q old show ?thesis by (simp add: ids_ok_def nth_id_append)
  next
    case False
    from step_built [OF step False] q old show ?thesis
      by (auto simp: ids_ok_def nth_id_append)
  qed
qed

lemma run_ids_ok: "client_run es from_stream = Some s \<Longrightarrow> ids_ok es s"
proof (rule run_trace_invariant [where P = ids_ok and f = client_step and ?s0.0 = from_stream])
  show "ids_ok [] from_stream" by (simp add: ids_ok_def from_stream_def)
qed (blast intro: step_ids_ok)+

lemma nth_id_unique:
  assumes "nth_id cs c i" "nth_id cs d i" "length cs \<le> 2 ^ 64"
  shows "c = d"
proof -
  from assms(1,2) obtain j k where jk: "j < length cs" "cs ! j = c" "k < length cs" "cs ! k = d"
    "(word_of_nat j :: u64) = word_of_nat k"
    unfolding nth_id_def by auto
  have small: "unat (word_of_nat n :: u64) = n" if "n < length cs" for n
    using less_le_trans [OF that assms(3)] by (simp add: unat_of_nat)
  have "j = unat (word_of_nat j :: u64)" by (rule small [OF jk(1), symmetric])
  also have "\<dots> = unat (word_of_nat k :: u64)" by (simp only: jk(5))
  also have "\<dots> = k" by (rule small [OF jk(3)])
  finally show ?thesis using jk(2,4) by simp
qed

lemma built_ids_unique:
  assumes "client_run es from_stream = Some s" "length (numbered es) \<le> 2 ^ 64"
    and "built s c = Some q" "built s d = Some r" "rq_id q = rq_id r"
  shows "c = d"
proof -
  have *: "nth_id (numbered es) e (rq_id p)" if "built s e = Some p" for e p
    using run_ids_ok [OF assms(1)] that unfolding ids_ok_def by blast
  from * [OF assms(4)] have "nth_id (numbered es) d (rq_id q)" by (simp only: assms(5))
  from nth_id_unique [OF * [OF assms(3)] this assms(2)] show ?thesis .
qed

section \<open>What is built and what reaches the socket\<close>

definition built_ok :: "'x client \<Rightarrow> bool" where
  "built_ok s \<longleftrightarrow>
     (\<forall>c. unregistered (calls s c) \<longrightarrow> built s c = None) \<and>
     (\<forall>c i m p g. calls s c = Sending i m p g \<longrightarrow>
        built s c = Some \<lparr>rq_id = i, rq_method = m, rq_payload = p\<rparr>)"

lemma step_sending:
  assumes "client_step e s = Some t" "calls t c = Sending i m p g"
  shows "calls s c = Sending i m p g \<and> built t c = built s c
    \<or> built t c = Some \<lparr>rq_id = i, rq_method = m, rq_payload = p\<rparr>"
  using assms
  by (cases e) (auto simp: client_op_defs split: client_op_splits)

lemma step_unregistered:
  assumes "client_step e s = Some t" "unregistered (calls t c)"
  shows "unregistered (calls s c) \<and> built t c = built s c"
  using assms
  by (cases e) (auto simp: client_op_defs split: client_op_splits)

lemma step_built_ok:
  assumes old: "built_ok s" and step: "client_step e s = Some t"
  shows "built_ok t"
  unfolding built_ok_def
proof (intro conjI allI impI)
  fix c assume "unregistered (calls t c)"
  from step_unregistered [OF step this] old show "built t c = None" by (simp add: built_ok_def)
next
  fix c i m p g assume "calls t c = Sending i m p g"
  from step_sending [OF step this] old
  show "built t c = Some \<lparr>rq_id = i, rq_method = m, rq_payload = p\<rparr>" by (auto simp: built_ok_def)
qed

lemma run_built_ok: "client_run es from_stream = Some s \<Longrightarrow> built_ok s"
proof (rule run_invariant [where I = built_ok and f = client_step])
  show "built_ok from_stream" by (simp add: built_ok_def from_stream_def)
qed (blast intro: step_built_ok)+

lemma built_stable:
  assumes "built_ok s" "client_step e s = Some t" "built s c = Some q"
  shows "built t c = Some q"
proof (rule ccontr)
  assume "built t c \<noteq> Some q"
  with assms(3) have "built t c \<noteq> built s c" by simp
  from step_built [OF assms(2) this] have "unregistered (calls s c)" by auto
  with assms(1,3) show False by (simp add: built_ok_def)
qed

text \<open>The writer's pipeline: sent, being sent, and buffered in the channel.\<close>

fun in_writer :: "writer_state \<Rightarrow> envelope list" where
  "in_writer (WSending e) = [e]"
| "in_writer _ = []"

definition flow :: "'x client \<Rightarrow> envelope list" where
  "flow s = sent s @ in_writer (writer s) @ outbound s"

lemma subseq_drop_mid: "subseq (xs @ ys) (xs @ e # ys)"
  by (induction xs) (auto intro: list_emb_Cons)

lemma subseq_drop_end: "subseq (xs @ ys) (xs @ ys @ zs)"
  by (metis append.assoc subseq_rev_drop_many subseq_order.order_refl)

lemma step_flow:
  assumes "client_step e s = Some t"
  shows "subseq (flow t) (flow s)
    \<or> (\<exists>c i m p g. calls s c = Sending i m p g \<and> calls t c = Awaiting i g
         \<and> flow t = flow s @ [Request \<lparr>rq_id = i, rq_method = m, rq_payload = p\<rparr>])"
  using assms
proof (cases "\<exists>c. e = EvSend c")
  case True
  with assms show ?thesis
    by (auto simp: client_step.simps call_send_def call_end_def flow_def split: client_op_splits)
next
  case False
  have "flow t = flow s \<or> flow t = sent s @ outbound s \<or> flow t = sent s @ in_writer (writer s)"
    using assms False
    by (cases e) (auto simp: client_op_defs flow_def split: client_op_splits)
  then show ?thesis
    using subseq_drop_mid [of "sent s"] subseq_drop_end [of "sent s"]
    by (cases "writer s") (auto simp: flow_def)
qed

fun submitted :: "'x call_state \<Rightarrow> bool" where
  "submitted (Sending i m p g) = False"
| "submitted st = (\<not> unregistered st)"

lemma step_submitted:
  assumes "client_step e s = Some t" "submitted (calls s c)"
  shows "submitted (calls t c)"
  using assms
  by (cases e) (auto simp: client_op_defs split: client_op_splits)

text \<open>Every envelope in the pipeline is the request of one call, and no two are of the same call.\<close>

definition flow_ok :: "'x client \<Rightarrow> bool" where
  "flow_ok s \<longleftrightarrow> (\<exists>cs. distinct cs \<and> map Some (flow s) = map (\<lambda>c. map_option Request (built s c)) cs
     \<and> (\<forall>c \<in> set cs. submitted (calls s c)))"

lemma step_flow_ok:
  assumes ok: "flow_ok s" and built: "built_ok s" and step: "client_step e s = Some t"
  shows "flow_ok t"
proof -
  from ok obtain cs where cs: "distinct cs" "map Some (flow s) = map (\<lambda>c. map_option Request (built s c)) cs"
    "\<forall>c \<in> set cs. submitted (calls s c)" by (auto simp: flow_ok_def)
  have same: "built t c = built s c" if "submitted (calls s c)" for c
    using that step_built [OF step, of c] by (metis submitted.simps(4) unregistered.simps(3))
  from step_flow [OF step] show ?thesis
  proof (elim disjE exE conjE)
    assume "subseq (flow t) (flow s)"
    then have "subseq (map Some (flow t)) (map (\<lambda>c. map_option Request (built s c)) cs)"
      by (simp add: subseq_map flip: cs(2))
    then obtain ds where ds: "subseq ds cs" "map Some (flow t) = map (\<lambda>c. map_option Request (built s c)) ds"
      by (auto dest: subseq_mapD)
    then have sub: "set ds \<subseteq> set cs" by (auto dest: list_emb_set)
    have "map Some (flow t) = map (\<lambda>c. map_option Request (built t c)) ds"
      using ds(2) same cs(3) sub by (auto cong: map_cong)
    moreover have "distinct ds" using ds(1) cs(1) by (rule subseq_distinct)
    ultimately show ?thesis
      using cs(3) sub step_submitted [OF step] unfolding flow_ok_def by blast
  next
    fix c i m p g
    assume c: "calls s c = Sending i m p g" "calls t c = Awaiting i g"
      "flow t = flow s @ [Request \<lparr>rq_id = i, rq_method = m, rq_payload = p\<rparr>]"
    have "built s c = Some \<lparr>rq_id = i, rq_method = m, rq_payload = p\<rparr>"
      using built c(1) by (simp add: built_ok_def)
    then have "built t c = Some \<lparr>rq_id = i, rq_method = m, rq_payload = p\<rparr>"
      by (rule built_stable [OF built step])
    moreover have "map (\<lambda>c. map_option Request (built s c)) cs = map (\<lambda>c. map_option Request (built t c)) cs"
      using same cs(3) by simp
    ultimately have "map Some (flow t) = map (\<lambda>c. map_option Request (built t c)) (cs @ [c])"
      using c(3) cs(2) by simp
    moreover have "distinct (cs @ [c])" using cs(1,3) c(1) by auto
    moreover have "\<forall>d \<in> set (cs @ [c]). submitted (calls t d)"
      using cs(3) step_submitted [OF step] c(2) by auto
    ultimately show ?thesis unfolding flow_ok_def by blast
  qed
qed

lemma run_flow_ok: "client_run es from_stream = Some s \<Longrightarrow> built_ok s \<and> flow_ok s"
proof (rule run_invariant [where I = "\<lambda>s. built_ok s \<and> flow_ok s" and f = client_step])
  show "built_ok from_stream \<and> flow_ok from_stream"
    by (simp add: built_ok_def flow_ok_def from_stream_def flow_def)
qed (blast intro: step_built_ok step_flow_ok)+

section \<open>Requests are what the callers asked for\<close>

fun wanted :: "'x call_state \<Rightarrow> (string \<times> bytes) option" where
  "wanted (Checked m p) = Some (m, p)"
| "wanted (Numbered i m p) = Some (m, p)"
| "wanted (Sending i m p g) = Some (m, p)"
| "wanted _ = None"

definition asked_ok :: "event list \<Rightarrow> 'x client \<Rightarrow> bool" where
  "asked_ok es s \<longleftrightarrow>
     (\<forall>c m p. wanted (calls s c) = Some (m, p) \<longrightarrow> EvCall c m p \<in> set es) \<and>
     (\<forall>c q. built s c = Some q \<longrightarrow> EvCall c (rq_method q) (rq_payload q) \<in> set es)"

lemma step_wanted:
  "client_step e s = Some t \<Longrightarrow> wanted (calls t c) = Some (m, p) \<Longrightarrow>
   wanted (calls s c) = Some (m, p) \<or> e = EvCall c m p"
  by (cases e) (auto simp: client_op_defs split: client_op_splits)

lemma step_asked_ok:
  assumes "asked_ok es s" "client_step e s = Some t"
  shows "asked_ok (es @ [e]) t"
  unfolding asked_ok_def
proof (intro conjI allI impI)
  fix c m p assume "wanted (calls t c) = Some (m, p)"
  from step_wanted [OF assms(2) this] assms(1) show "EvCall c m p \<in> set (es @ [e])" by (auto simp: asked_ok_def)
next
  fix c q assume q: "built t c = Some q"
  show "EvCall c (rq_method q) (rq_payload q) \<in> set (es @ [e])"
  proof (cases "built t c = built s c")
    case True
    with q assms(1) show ?thesis by (simp add: asked_ok_def)
  next
    case False
    from step_built [OF assms(2) False] q obtain i where
      "calls s c = Numbered i (rq_method q) (rq_payload q)" by auto
    then have "wanted (calls s c) = Some (rq_method q, rq_payload q)" by simp
    with assms(1) show ?thesis by (simp add: asked_ok_def)
  qed
qed

lemma run_asked_ok: "client_run es from_stream = Some s \<Longrightarrow> asked_ok es s"
proof (rule run_trace_invariant [where P = asked_ok and f = client_step and ?s0.0 = from_stream])
  show "asked_ok [] from_stream" by (simp add: asked_ok_def from_stream_def)
qed (blast intro: step_asked_ok)+

section \<open>The two tasks\<close>

fun writer_ended :: "writer_state \<Rightarrow> bool" where
  "writer_ended WCancelled = True"
| "writer_ended WGone = True"
| "writer_ended _ = False"

fun reader_ended :: "reader_state \<Rightarrow> bool" where
  "reader_ended RCancelled = True"
| "reader_ended (RDropping cs) = True"
| "reader_ended RGone = True"
| "reader_ended _ = False"

definition tasks_ok :: "'x client \<Rightarrow> bool" where
  "tasks_ok s \<longleftrightarrow>
     (writer_ended (writer s) \<longrightarrow> token s) \<and> (reader_ended (reader s) \<longrightarrow> token s) \<and>
     (writer s = WGone \<longrightarrow> outbound s = []) \<and>
     length (outbound s) \<le> CLIENT_WRITER_CHANNEL_CAPACITY"

lemma step_writer_ended:
  "client_step e s = Some t \<Longrightarrow> writer_ended (writer t) \<Longrightarrow> writer_ended (writer s) \<or> token t"
  by (cases e) (auto simp: client_op_defs split: client_op_splits)

lemma step_reader_ended:
  "client_step e s = Some t \<Longrightarrow> reader_ended (reader t) \<Longrightarrow> reader_ended (reader s) \<or> token t"
  by (cases e) (auto simp: client_op_defs split: client_op_splits)

lemma step_outbound_gone:
  "client_step e s = Some t \<Longrightarrow> writer t = WGone \<Longrightarrow>
   outbound t = [] \<or> writer s = WGone \<and> outbound t = outbound s"
  by (cases e) (auto simp: client_op_defs split: client_op_splits)

lemma step_outbound_length:
  "client_step e s = Some t \<Longrightarrow>
   length (outbound t) \<le> length (outbound s) \<or> length (outbound t) \<le> CLIENT_WRITER_CHANNEL_CAPACITY"
  by (cases e) (auto simp: client_op_defs split: client_op_splits)

lemma step_tasks_ok:
  assumes "tasks_ok s" "client_step e s = Some t"
  shows "tasks_ok t"
  using assms(1) step_writer_ended [OF assms(2)] step_reader_ended [OF assms(2)]
    step_outbound_gone [OF assms(2)] step_outbound_length [OF assms(2)] step_token [OF assms(2)]
  unfolding tasks_ok_def by auto

lemma run_tasks_ok: "client_run es from_stream = Some s \<Longrightarrow> tasks_ok s"
proof (rule run_invariant [where I = tasks_ok and f = client_step])
  show "tasks_ok from_stream" by (simp add: tasks_ok_def from_stream_def)
qed (blast intro: step_tasks_ok)+

text \<open>The events with which each task ends once the token is cancelled.\<close>

definition writer_end :: "event list" where
  "writer_end = [EvWriterCancelled, EvWriterCancel, EvWriterExit]"

definition reader_end :: "event list" where
  "reader_end = [EvReaderCancelled, EvReaderCancel, EvReaderDrain, EvReaderExit]"

fun writer_path :: "writer_state \<Rightarrow> event list" where
  "writer_path WGone = []"
| "writer_path WCancelled = drop 2 writer_end"
| "writer_path WBreaking = drop 1 writer_end"
| "writer_path WIdle = writer_end"
| "writer_path (WSending e) = EvWriterSent # writer_end"

fun reader_path :: "reader_state \<Rightarrow> event list" where
  "reader_path RGone = []"
| "reader_path (RDropping cs) = drop 3 reader_end"
| "reader_path RCancelled = drop 2 reader_end"
| "reader_path RBreaking = drop 1 reader_end"
| "reader_path RIdle = reader_end"
| "reader_path (RDeliver c e) = EvReaderDeliver # reader_end"

lemma writer_path_length: "length (writer_path w) \<le> 4"
  by (cases w) (simp_all add: writer_end_def)

lemma reader_path_length: "length (reader_path r) \<le> 5"
  by (cases r) (simp_all add: reader_end_def)

lemma writer_path_run:
  "token s \<Longrightarrow> \<exists>t. client_run (writer_path (writer s)) s = Some t \<and> writer t = WGone
     \<and> reader t = reader s \<and> token t"
  by (cases "writer s") (auto simp: writer_op_defs writer_end_def)

lemma reader_path_run:
  "token s \<Longrightarrow> \<exists>t. client_run (reader_path (reader s)) s = Some t \<and> reader t = RGone
     \<and> writer t = writer s"
  by (cases "reader s") (auto simp: reader_op_defs reader_end_def split: prod.splits)

end
