(* ===== verification/Client_Props.thy ===== *)
theory Client_Props
  imports Client_Trace
begin

text \<open>
  The properties of the client multiplexer. Safety: a call only ever returns an answer to its own
  request, the registry holds exactly the calls that still wait, ids do not repeat, only requests
  reach the socket. Liveness: a waiting call always has a source of wake-up, disconnect wakes every
  call registered before the drain; a call that registers after it is stranded.
\<close>

section \<open>Calls that are out of the registry stay out\<close>

definition unlisted :: "chan \<Rightarrow> 'x client \<Rightarrow> bool" where
  "unlisted c s \<longleftrightarrow> \<not> unregistered (calls s c) \<and> (\<forall>i. map_of (pending s) i \<noteq> Some c)"

lemma step_registered: "client_step e s = Some t \<Longrightarrow> \<not> unregistered (calls s c) \<Longrightarrow> \<not> unregistered (calls t c)"
  using step_unregistered by blast

lemma step_entry:
  assumes "pm_wf (pending s)" "client_step e s = Some t" "map_of (pending t) i = Some c"
  shows "map_of (pending s) i = Some c \<or> unregistered (calls s c)"
  using assms
  by (cases e) (auto simp: client_op_defs op_defs update_conv' map_of_delete split: client_op_splits)

lemma step_unlisted:
  assumes "client_inv s" "unlisted c s" "client_step e s = Some t"
  shows "unlisted c t"
  using assms(2) step_entry [OF client_invD(1) [OF assms(1)] assms(3)] step_registered [OF assms(3)]
  unfolding unlisted_def by blast

lemma run_unlisted:
  assumes "client_inv s" "unlisted c s" "client_run es s = Some t"
  shows "client_inv t \<and> unlisted c t"
proof (rule run_invariant [where I = "\<lambda>s. client_inv s \<and> unlisted c s" and f = client_step])
  show "client_inv s \<and> unlisted c s" using assms by simp
qed (use assms(3) client_step_inv step_unlisted in blast)+

lemma woken_unlisted:
  assumes "client_inv s" "chans s c \<noteq> Empty"
  shows "unlisted c s"
  using client_invD(2) [OF assms(1)] client_invD(4) [OF assms(1)] assms(2)
  unfolding unlisted_def by blast

section \<open>Runs used as witnesses\<close>

lemmas client_eval = client_op_defs op_defs from_stream_def send_tx_def
  CLIENT_WRITER_CHANNEL_CAPACITY_def fun_upd_def

definition submit_run :: "chan \<Rightarrow> string \<Rightarrow> bytes \<Rightarrow> event list" where
  "submit_run c m p = [EvCall c m p, EvFetchAdd c, EvInsert c, EvSend c, EvWriterRecv, EvWriterSent]"

definition answer_run :: "chan \<Rightarrow> envelope \<Rightarrow> event list" where
  "answer_run c e = [EvReaderFrame e, EvReaderDeliver, EvRecv c]"

text \<open>
  Two calls in flight at once, answered in the opposite order: call 1 (id 1) first, then call 0.
\<close>

definition crossed_run :: "event list" where
  "crossed_run = submit_run 0 ''a'' [10] @ submit_run 1 ''b'' [20]
     @ answer_run 1 (Response \<lparr>rs_id = 1, rs_payload = [21]\<rparr>)
     @ answer_run 0 (Response \<lparr>rs_id = 0, rs_payload = [11]\<rparr>)"

lemma crossed_run_result:
  "\<exists>s :: string client. client_run crossed_run from_stream = Some s
     \<and> calls s 0 = Finished (Inr [11]) \<and> calls s 1 = Finished (Inr [21]) \<and> pending s = []
     \<and> built s 0 = Some \<lparr>rq_id = 0, rq_method = ''a'', rq_payload = [10]\<rparr>
     \<and> built s 1 = Some \<lparr>rq_id = 1, rq_method = ''b'', rq_payload = [20]\<rparr>"
  by (simp add: crossed_run_def submit_run_def answer_run_def client_eval)

text \<open>One call that is parked: registered, sent, and waiting for its answer.\<close>

lemma submit_run_result:
  "\<exists>s :: string client. client_run (submit_run 0 ''a'' [10]) from_stream = Some s
     \<and> calls s 0 = Awaiting 0 (guard_new 0) \<and> pending s = [(0, 0)] \<and> chans s 0 = Empty
     \<and> reader s = RIdle \<and> writer s = WIdle \<and> \<not> token s
     \<and> built s 0 = Some \<lparr>rq_id = 0, rq_method = ''a'', rq_payload = [10]\<rparr>"
  by (simp add: submit_run_def client_eval)

section \<open>Results\<close>

text \<open>
  C11. Response routing. Whatever the interleaving of callers, writer and reader, and whatever frames
  the peer sends, a finished call returned either \<open>Closed\<close> or the content of an envelope that really
  arrived on this connection and carries the id of the request that this very call built.
\<close>

theorem response_routing:
  assumes "client_run es from_stream = Some s" and "calls s c = Finished r"
  shows "r = Inl Closed \<or>
    (\<exists>e q. EvReaderFrame e \<in> set es \<and> built s c = Some q \<and> reply_id e = Some (rq_id q)
       \<and> r = call_result (Some e))"
  using run_routed [OF assms(1)] assms(2) unfolding routed_def answers_def by blast

theorem response_routing_witness:
  "\<exists>s :: string client. client_run crossed_run from_stream = Some s \<and> calls s 1 = Finished (Inr [21])
     \<and> (\<exists>e q. EvReaderFrame e \<in> set crossed_run \<and> built s 1 = Some q \<and> reply_id e = Some (rq_id q)
          \<and> Inr [21] = (call_result (Some e) :: string patina_error + bytes))"
proof -
  obtain s :: "string client" where s: "client_run crossed_run from_stream = Some s"
    "calls s 1 = Finished (Inr [21])"
    using crossed_run_result by blast
  from response_routing [OF s] s show ?thesis by blast
qed

text \<open>
  C12. No lost wake-up. In every reachable state, a call that is registered and has not ended still
  has a source of wake-up: its entry is in the pending map, or its oneshot channel has been filled
  or closed, or the reader has taken its sender and is about to use it.
\<close>

theorem no_lost_wakeup:
  assumes "client_run es from_stream = Some s" and "slot (calls s c) = Some (i, g)"
  shows "map_of (pending s) i = Some c \<or> chans s c \<noteq> Empty \<or> c \<in> reader_holds (reader s)"
  using client_invD(3) [OF client_run_inv [OF assms(1)] assms(2)] by simp

theorem no_lost_wakeup_witness:
  "\<exists>s :: string client. client_run (submit_run 0 ''a'' [10]) from_stream = Some s
     \<and> slot (calls s 0) = Some (0, guard_new 0)
     \<and> (map_of (pending s) 0 = Some 0 \<or> chans s 0 \<noteq> Empty \<or> 0 \<in> reader_holds (reader s))"
proof -
  obtain s :: "string client" where s: "client_run (submit_run 0 ''a'' [10]) from_stream = Some s"
    "calls s 0 = Awaiting 0 (guard_new 0)"
    using submit_run_result by blast
  then have slot: "slot (calls s 0) = Some (0, guard_new 0)" by simp
  from no_lost_wakeup [OF s(1) slot] s(1) slot show ?thesis by blast
qed

text \<open>
  C14. No leak. In every reachable state an entry of the pending map belongs to a call that is still
  waiting under exactly that id with its guard armed, and no two entries share a call; so the count
  is at most the number of waiting calls, and it is zero once no call waits.
\<close>

theorem pending_entries_live:
  assumes "client_run es from_stream = Some s" and "map_of (pending s) i = Some c"
  shows "slot (calls s c) = Some (i, guard_new i) \<and> chans s c = Empty
    \<and> (\<forall>j. map_of (pending s) j = Some c \<longrightarrow> j = i)"
proof -
  note D = client_invD(2) [OF client_run_inv [OF assms(1)]]
  from D [OF assms(2)] show ?thesis using D by fastforce
qed

theorem pending_entries_live_witness:
  "\<exists>s :: string client. client_run (submit_run 0 ''a'' [10]) from_stream = Some s
     \<and> map_of (pending s) 0 = Some 0 \<and> slot (calls s 0) = Some (0, guard_new 0)"
proof -
  obtain s :: "string client" where s: "client_run (submit_run 0 ''a'' [10]) from_stream = Some s"
    "pending s = [(0, 0)]"
    using submit_run_result by blast
  then have "map_of (pending s) 0 = Some 0" by simp
  with pending_entries_live [OF s(1) this] s(1) show ?thesis by blast
qed

text \<open>
  The count returns to zero. In a reachable state in which no call is waiting, \<open>pending_count\<close> is
  0, whether the calls were answered, failed, or were dropped by their callers.
\<close>

lemma pending_count_zero:
  assumes "client_run es from_stream = Some s" and "\<forall>c. slot (calls s c) = None"
  shows "pending_count s = 0"
proof -
  note inv = client_run_inv [OF assms(1)]
  have "map_of (pending s) i = None" for i
    using client_invD(2) [OF inv] assms(2) by (metis not_None_eq)
  then show ?thesis
    using pm.len_0_iff [OF client_invD(1) [OF inv]] by (simp add: pending_count_def fun_eq_iff)
qed

text \<open>
  C15. Request ids. As long as at most \<open>2 ^ 64\<close> ids have been handed out on a connection, two requests
  built by different calls never carry the same id, finished calls included.
\<close>

theorem request_ids_unique:
  assumes "client_run es from_stream = Some s" and "length (numbered es) \<le> 2 ^ 64"
    and "built s c = Some q" and "built s d = Some r" and "c \<noteq> d"
  shows "rq_id q \<noteq> rq_id r"
  using built_ids_unique [OF assms(1-4)] assms(5) by blast

theorem request_ids_unique_witness:
  "\<exists>(s :: string client) q r. client_run crossed_run from_stream = Some s
     \<and> length (numbered crossed_run) \<le> 2 ^ 64 \<and> built s 0 = Some q \<and> built s 1 = Some r
     \<and> rq_id q \<noteq> rq_id r"
proof -
  obtain s :: "string client" and q r where s: "client_run crossed_run from_stream = Some s"
    "built s 0 = Some q" "built s 1 = Some r"
    using crossed_run_result by blast
  have n: "length (numbered crossed_run) \<le> 2 ^ 64"
    by (simp add: crossed_run_def submit_run_def answer_run_def)
  from request_ids_unique [OF s(1) n s(2,3)] s n show ?thesis by auto
qed

text \<open>
  Wrap-around. The counter is a 64-bit one: after \<open>2 ^ 64 - 1\<close> the next id is 0 again. A call that
  registers under an id still in use takes the entry over, and the earlier caller is woken with a
  closed channel, so it reports \<open>Closed\<close> although the connection is open.
\<close>

lemma colliding_id_closes_earlier_call:
  assumes "client_inv s" and "calls s c = Numbered i m p" and "map_of (pending s) i = Some d"
    and "calls s d = Awaiting i g" and "client_step (EvInsert c) s = Some t"
  shows "map_of (pending t) i = Some c \<and> chans t d = TxDropped
    \<and> (\<exists>u. client_step (EvRecv d) t = Some u \<and> calls u d = Finished (Inl Closed))"
proof -
  obtain old pm where ins: "pm_insert i c (pending s) = (old, pm)" by force
  note law = pm.insert_law [OF client_invD(1) [OF assms(1)] ins]
  from client_invD(2) [OF assms(1,3)] have "chans s d = Empty" by simp
  moreover have "c \<noteq> d" using assms(2,4) by auto
  ultimately show ?thesis
    using assms(2-5) law
    by (auto simp: call_insert_def ins call_recv_def call_end_def)
qed

definition wrapping_client :: "string client" where
  "wrapping_client = from_stream\<lparr>next_id := 0, pending := [(0, 0)],
     calls := (calls from_stream)(0 := Awaiting 0 (guard_new 0), 1 := Numbered 0 ''b'' []),
     built := [0 \<mapsto> \<lparr>rq_id = 0, rq_method = ''a'', rq_payload = []\<rparr>]\<rparr>"

lemma colliding_id_closes_earlier_call_witness:
  "(2 ^ 64 - 1 :: u64) + 1 = 0
   \<and> (\<exists>t. client_step (EvInsert 1) wrapping_client = Some t \<and> map_of (pending t) 0 = Some 1
        \<and> chans t 0 = TxDropped)"
proof -
  have inv: "client_inv wrapping_client"
    by (rule client_invI)
      (auto simp: wrapping_client_def from_stream_def pm_wf_def split: if_splits)
  have c: "calls wrapping_client 1 = Numbered 0 ''b'' []"
    "map_of (pending wrapping_client) 0 = Some 0"
    "calls wrapping_client 0 = Awaiting 0 (guard_new 0)"
    by (simp_all add: wrapping_client_def)
  then obtain t where t: "client_step (EvInsert 1) wrapping_client = Some t"
    by (simp add: call_insert_def case_prod_beta)
  from colliding_id_closes_earlier_call [OF inv c t] t show ?thesis by auto
qed

section \<open>Disconnect\<close>

text \<open>
  Disconnect wakes the registered callers. A call that is registered when the reader drains the
  map finds, once the reader is gone, its channel filled or closed; if it is waiting for the answer it
  can return at once, and it returns \<open>Closed\<close> if the drain closed its channel.
\<close>

lemma drain_wakes_registered:
  assumes "client_run es from_stream = Some s" and "client_step EvReaderDrain s = Some t"
    and "slot (calls s c) = Some x" and "client_run fs t = Some u" and "reader u = RGone"
    and "calls u c = Awaiting i g"
  shows "\<exists>v r. client_step (EvRecv c) u = Some v \<and> calls v c = Finished r
    \<and> (chans u c = TxDropped \<longrightarrow> r = Inl Closed)"
proof -
  note inv_s = client_run_inv [OF assms(1)]
  note inv_t = client_step_inv [OF inv_s assms(2)]
  obtain txs pm where dr: "pm_drain (pending s) = (txs, pm)" by force
  have "map_of (pending t) = Map.empty"
    using assms(2) pm.drain_law [OF client_invD(1) [OF inv_s] dr]
    by (auto simp: reader_drain_def dr split: if_splits)
  then have "unlisted c t"
    using step_registered [OF assms(2), of c] slot_unregistered [OF assms(3)] by (simp add: unlisted_def)
  from run_unlisted [OF inv_t this assms(4)] have u: "client_inv u" "unlisted c u" by simp_all
  have "chans u c \<noteq> Empty"
    using client_invD(3) [OF u(1), of c i g] u(2) assms(5,6) by (simp add: unlisted_def)
  then show ?thesis
    using assms(6) by (cases "chans u c") (auto simp: call_recv_def call_end_def)
qed

definition disconnect_run :: "event list" where
  "disconnect_run = [EvReaderEof, EvReaderCancel]"

lemma drain_wakes_registered_witness:
  "\<exists>(s :: string client) t u v. client_run (submit_run 0 ''a'' [10] @ disconnect_run) from_stream = Some s
     \<and> client_step EvReaderDrain s = Some t \<and> client_run [EvReaderExit] t = Some u
     \<and> reader u = RGone \<and> client_step (EvRecv 0) u = Some v \<and> calls v 0 = Finished (Inl Closed)"
proof -
  have "\<exists>(s :: string client) t u. client_run (submit_run 0 ''a'' [10] @ disconnect_run) from_stream = Some s
     \<and> client_step EvReaderDrain s = Some t \<and> slot (calls s 0) = Some (0, guard_new 0)
     \<and> client_run [EvReaderExit] t = Some u \<and> reader u = RGone
     \<and> calls u 0 = Awaiting 0 (guard_new 0) \<and> chans u 0 = TxDropped"
    by (simp add: submit_run_def disconnect_run_def client_eval)
  then show ?thesis using drain_wakes_registered by blast
qed

text \<open>Runs that strand a call: it registers after the drain and sends before the writer ends.\<close>

definition stranding_run :: "chan \<Rightarrow> string \<Rightarrow> bytes \<Rightarrow> event list" where
  "stranding_run c m p =
     [EvCall c m p, EvReaderEof, EvReaderCancel, EvReaderDrain, EvReaderExit,
      EvFetchAdd c, EvInsert c, EvSend c, EvWriterCancelled, EvWriterCancel, EvWriterExit]"

definition stranded :: "chan \<Rightarrow> 'x client \<Rightarrow> bool" where
  "stranded c s \<longleftrightarrow> writer s = WGone \<and> reader s = RGone \<and> token s \<and> chans s c = Empty
     \<and> (\<exists>i. calls s c = Awaiting i (guard_new i) \<and> pending s = [(i, c)])
     \<and> (\<forall>d. d \<noteq> c \<longrightarrow> call_over (calls s d))"

fun event_chan :: "event \<Rightarrow> chan option" where
  "event_chan (EvCall c m p) = Some c"
| "event_chan (EvFetchAdd c) = Some c"
| "event_chan (EvInsert c) = Some c"
| "event_chan (EvSend c) = Some c"
| "event_chan (EvRecv c) = Some c"
| "event_chan (EvDrop c) = Some c"
| "event_chan _ = None"

lemma step_stranded_own:
  assumes "stranded c s" "client_step e s = Some t" "event_chan e = Some c" "e \<noteq> EvDrop c"
  shows False
  using assms by (cases e) (auto simp: stranded_def call_op_defs)

lemma step_stranded_other:
  assumes st: "stranded c s" and step: "client_step e s = Some t" and d: "event_chan e = Some d" "d \<noteq> c"
  shows "stranded c t"
proof -
  from st d(2) have over: "call_over (calls s d)" by (simp add: stranded_def)
  show ?thesis
    using st step d over
    by (cases e; cases "calls s d") (auto simp: stranded_def call_op_defs split: if_splits)
qed

lemma step_stranded:
  assumes "stranded c s" "client_step e s = Some t" "e \<noteq> EvDrop c"
  shows "stranded c t"
proof (cases "event_chan e")
  case None
  with assms(1,2) show ?thesis
    by (cases e) (auto simp: stranded_def client_drop_def writer_op_defs reader_op_defs split: if_splits)
next
  case (Some d)
  with assms show ?thesis
    using step_stranded_own [of c s e t] step_stranded_other [of c s e t d] by (cases "d = c") auto
qed

lemma run_stranded:
  "stranded c s \<Longrightarrow> client_run es s = Some t \<Longrightarrow> EvDrop c \<notin> set es \<Longrightarrow> stranded c t"
proof (induction es arbitrary: s)
  case (Cons e es)
  then show ?case using step_stranded [of c s e] by (auto split: option.splits)
qed simp

lemma stranding_run_result:
  "\<exists>s. client_run (stranding_run c m p) from_stream = Some s \<and> stranded c s"
  by (simp add: stranding_run_def client_eval stranded_def)

text \<open>
  C13. The stranded call. If a call passes the \<open>is_cancelled\<close> test, the reader then sees the end of the
  stream and drains the map, and only then the call registers and its send is accepted because the
  writer has not yet dropped its receiver, the call waits forever: both tasks are gone, the client
  reports itself closed, and no continuation in which the caller does not give up ever wakes it.
\<close>

theorem late_registration_strands_call:
  "\<exists>s. client_run (stranding_run c m p) from_stream = Some s \<and> is_closed s
     \<and> writer s = WGone \<and> reader s = RGone
     \<and> (\<forall>es t. client_run es s = Some t \<and> EvDrop c \<notin> set es \<longrightarrow> (\<exists>i g. calls t c = Awaiting i g))"
  using stranding_run_result [of c m p] run_stranded [of c]
  unfolding stranded_def is_closed_def by blast

theorem late_registration_strands_call_witness:
  "\<exists>(s :: string client) t. client_run (stranding_run 0 ''a'' []) from_stream = Some s
     \<and> client_run [EvCall 1 ''b'' []] s = Some t \<and> (\<exists>i g. calls t 0 = Awaiting i g)"
proof -
  obtain s :: "string client" where s: "client_run (stranding_run 0 ''a'' []) from_stream = Some s"
    and hang: "\<And>es t. client_run es s = Some t \<and> EvDrop 0 \<notin> set es \<longrightarrow> (\<exists>i g. calls t 0 = Awaiting i g)"
    using late_registration_strands_call [of 0 "''a''" "[]"] by blast
  from s have "\<exists>t. client_run [EvCall 1 ''b'' []] s = Some t"
    by (auto simp: stranding_run_def client_eval)
  then obtain t where t: "client_run [EvCall 1 ''b'' []] s = Some t" by blast
  have "EvDrop 0 \<notin> set [EvCall 1 ''b'' []]" by simp
  with hang [of "[EvCall 1 ''b'' []]" t] s t show ?thesis by blast
qed



text \<open>
  A closed client stays closed and rejects new calls: the call finishes with \<open>Closed\<close> at its first
  step, and takes no id, no entry and no place in the channel.
\<close>

lemma closed_client_rejects:
  assumes "is_closed s" and "client_run es s = Some t" and "client_step (EvCall c m p) t = Some u"
  shows "is_closed t \<and> calls u c = Finished (Inl Closed) \<and> next_id u = next_id t
    \<and> pending u = pending t \<and> outbound u = outbound t"
proof -
  have "token t" using run_token assms(1,2) unfolding is_closed_def by blast
  with assms(3) show ?thesis
    by (auto simp: is_closed_def call_enter_def split: call_state.splits if_splits)
qed

section \<open>Cancellation\<close>



text \<open>
  Disarming is sound. When a call's \<open>rx.await\<close> resolves and ids have not wrapped, the map has no
  entry under its id any more, so dropping the guard armed would change nothing: skipping the lock
  loses nothing.
\<close>

lemma disarm_is_sound:
  assumes "client_run es from_stream = Some s" and "length (numbered es) \<le> 2 ^ 64"
    and "calls s c = Awaiting i g" and "chans s c \<noteq> Empty"
  shows "map_of (pending s) i = None \<and> guard_drop g (pending s) = guard_drop (guard_disarm g) (pending s)"
proof -
  note inv = client_run_inv [OF assms(1)]
  have slot: "slot (calls s c) = Some (i, g)" by (simp add: assms(3))
  from client_invD(3) [OF inv slot] have g: "g = guard_new i" by simp
  have none: "map_of (pending s) i = None"
  proof (rule ccontr)
    assume "map_of (pending s) i \<noteq> None"
    then obtain d where d: "map_of (pending s) i = Some d" by auto
    note entry = client_invD(2) [OF inv d]
    from run_slots_built [OF assms(1)] slot entry obtain q r where
      "built s c = Some q" "rq_id q = i" "built s d = Some r" "rq_id r = i"
      unfolding slots_built_def by blast
    with built_ids_unique [OF assms(1,2), of c q d r] have "c = d" by simp
    with entry assms(4) show False by simp
  qed
  then show ?thesis
    by (simp add: g guard_drop_armed pm_remove_def map_of_eq_None_iff)
qed

section \<open>The socket and the channel\<close>

text \<open>
  C36. What reaches the socket. The envelopes the writer has sent are the requests built by pairwise
  different calls: no request is sent twice, and nothing but requests is ever sent, in particular no
  heartbeat.
\<close>

theorem only_requests_sent:
  assumes "client_run es from_stream = Some s"
  shows "\<exists>cs. distinct cs \<and> map Some (sent s) = map (\<lambda>c. map_option Request (built s c)) cs"
proof -
  from run_flow_ok [OF assms] obtain cs where cs: "distinct cs"
    "map Some (flow s) = map (\<lambda>c. map_option Request (built s c)) cs"
    unfolding flow_ok_def by blast
  let ?n = "length (sent s)"
  have "map Some (sent s) = take ?n (map Some (flow s))" by (simp add: flow_def)
  also have "\<dots> = map (\<lambda>c. map_option Request (built s c)) (take ?n cs)" by (simp add: cs(2) take_map)
  finally show ?thesis using cs(1) distinct_take by blast
qed

theorem only_requests_sent_witness:
  "\<exists>(s :: string client) cs. client_run crossed_run from_stream = Some s
     \<and> distinct cs \<and> map Some (sent s) = map (\<lambda>c. map_option Request (built s c)) cs"
proof -
  obtain s :: "string client" where s: "client_run crossed_run from_stream = Some s"
    using crossed_run_result by blast
  from only_requests_sent [OF s] s show ?thesis by blast
qed

text \<open>
  C37. Backpressure. The writer's channel never holds more than 128 envelopes; while it is full and the
  writer has not gone, a sending call is blocked, and once the writer has gone the same call ends
  with \<open>Closed\<close> and no entry is left under its id.
\<close>

theorem writer_channel_bounded:
  assumes "client_run es from_stream = Some s" and "calls s c = Sending i m p g"
  shows "length (outbound s) \<le> 128
    \<and> (length (outbound s) = 128 \<and> writer s \<noteq> WGone \<longrightarrow> client_step (EvSend c) s = None)
    \<and> (writer s = WGone \<longrightarrow> (\<exists>t. client_step (EvSend c) s = Some t
          \<and> calls t c = Finished (Inl Closed) \<and> map_of (pending t) i = None))"
proof -
  have slot: "slot (calls s c) = Some (i, g)" by (simp add: assms(2))
  with client_invD(3) [OF client_run_inv [OF assms(1)]] have g: "g = guard_new i" by blast
  from run_tasks_ok [OF assms(1)] have "length (outbound s) \<le> 128"
    by (simp add: tasks_ok_def CLIENT_WRITER_CHANNEL_CAPACITY_def)
  then show ?thesis
    by (auto simp: call_send_def assms(2) CLIENT_WRITER_CHANNEL_CAPACITY_def g call_end_def
        guard_drop_armed pm_remove_def map_of_delete)
qed

theorem writer_channel_bounded_witness:
  "\<exists>s :: string client. client_run [EvCall 0 ''a'' [], EvFetchAdd 0, EvInsert 0] from_stream = Some s
     \<and> calls s 0 = Sending 0 ''a'' [] (guard_new 0) \<and> length (outbound s) \<le> 128"
proof -
  obtain s :: "string client" where
    s: "client_run [EvCall 0 ''a'' [], EvFetchAdd 0, EvInsert 0] from_stream = Some s"
    "calls s 0 = Sending 0 ''a'' [] (guard_new 0)"
    by (simp add: client_eval)
  from writer_channel_bounded [OF s] s show ?thesis by blast
qed

section \<open>The answered call\<close>

text \<open>
  An answer completes its call. In a reachable state in which the reader is idle and a call waits
  with its entry in the map, the arrival of a reply with its id takes the entry, wakes the call, and
  the call returns the payload of a response, or the code and message of an error.
\<close>

lemma answer_completes_call:
  assumes "client_run es from_stream = Some s" and "reader s = RIdle"
    and "calls s c = Awaiting i g" and "map_of (pending s) i = Some c" and "reply_id e = Some i"
  shows "\<exists>t. client_run (answer_run c e) s = Some t \<and> reader t = RIdle
    \<and> calls t c = Finished (case e of Response r \<Rightarrow> Inr (rs_payload r)
        | Error d \<Rightarrow> Inl (Remote (er_code d) (er_message d)))
    \<and> map_of (pending t) = (map_of (pending s))(i := None)"
proof -
  from client_invD(2) [OF client_run_inv [OF assms(1)] assms(4)] have "chans s c = Empty" by simp
  moreover obtain pm where "pm_take i (pending s) = (Some c, pm)" "map_of pm = (map_of (pending s))(i := None)"
    by (simp add: pm_take_def assms(4) map_of_delete)
  ultimately show ?thesis
    using assms(2,3,5)
    by (cases e) (auto simp: answer_run_def reader_frame_def reader_deliver_def call_recv_def call_end_def
        send_tx_def patina_from_error_data_def)
qed

lemma answer_completes_call_witness:
  "\<exists>(s :: string client) t. client_run (submit_run 0 ''a'' [10]) from_stream = Some s
     \<and> client_run (answer_run 0 (Error \<lparr>er_id = 0, er_code = 404, er_message = ''no''\<rparr>)) s = Some t
     \<and> calls t 0 = Finished (Inl (Remote 404 ''no''))"
proof -
  obtain s :: "string client" where s: "client_run (submit_run 0 ''a'' [10]) from_stream = Some s"
    "reader s = RIdle" "calls s 0 = Awaiting 0 (guard_new 0)" "pending s = [(0, 0)]"
    using submit_run_result by blast
  have "map_of (pending s) 0 = Some 0" by (simp add: s(4))
  from answer_completes_call [OF s(1-3) this, of "Error \<lparr>er_id = 0, er_code = 404, er_message = ''no''\<rparr>"] s(1)
  show ?thesis by auto
qed

end
