(* ===== verification/Client_Live.thy ===== *)
theory Client_Live
  imports Client_Props
begin

text \<open>
  What a client whose tasks both run guarantees: nothing it has queued is lost, and no waiting call
  finds its channel closed. The network proofs build on these.
\<close>

section \<open>Channels close only at the end of the reader\<close>

text \<open>The calls that end in a step, with the guard they drop.\<close>

lemma step_ends:
  assumes "client_step e s = Some t" "e = EvSend d \<or> e = EvRecv d \<or> e = EvDrop d"
  shows "chans t = chans s \<or>
    (\<exists>j g h st. slot (calls s d) = Some (j, g) \<and> (h = g \<or> h = guard_disarm g) \<and> slot st = None \<and> t = call_end d h st s)"
proof -
  consider "calls s d = NotStarted" | i m p g where "calls s d = Sending i m p g"
    | i g where "calls s d = Awaiting i g" | "slot (calls s d) = None" "calls s d \<noteq> NotStarted"
    by (cases "calls s d") auto
  then show ?thesis
  proof cases
    case 1
    with assms show ?thesis by (auto simp: call_send_def call_recv_def call_drop_def)
  next
    case (2 i m p g)
    have "t = call_end d g (Finished (Inl Closed)) s \<or> t = call_end d g Dropped s \<or> chans t = chans s"
      using assms 2 by (auto simp: call_send_def call_recv_def call_drop_def split: if_splits)
    with 2 show ?thesis by (metis slot.simps(1,6,7))
  next
    case (3 i g)
    have "(\<exists>r. t = call_end d (guard_disarm g) (Finished r) s) \<or> t = call_end d g Dropped s"
      using assms 3 by (auto simp: call_send_def call_recv_def call_drop_def split: oneshot.splits)
    with 3 show ?thesis by (metis slot.simps(2,6,7))
  next
    case 4
    with assms show ?thesis by (auto simp: call_send_def call_recv_def call_drop_def split: call_state.splits)
  qed
qed

lemma step_closes:
  assumes "client_step e s = Some t" "chans t c = TxDropped" "chans s c \<noteq> TxDropped"
  shows "reader t = RGone \<or> (\<exists>d. e = EvSend d \<or> e = EvRecv d \<or> e = EvDrop d)
    \<or> (\<exists>d j m p. e = EvInsert d \<and> calls s d = Numbered j m p \<and> map_of (pending s) j = Some c)"
proof (cases e)
  case (EvInsert d)
  with assms show ?thesis
    by (auto simp: call_insert_def drop_tx_apply pm_insert_def split: call_state.splits if_splits)
qed (use assms in \<open>auto simp: call_enter_def call_fetch_add_def client_drop_def writer_op_defs reader_op_defs oneshot_apply
      split: client_op_splits\<close>)

definition unclosed :: "event list \<Rightarrow> 'x client \<Rightarrow> bool" where
  "unclosed es s \<longleftrightarrow> length (numbered es) \<le> 2 ^ 64 \<and> reader s \<noteq> RGone \<longrightarrow>
     (\<forall>c i g. slot (calls s c) = Some (i, g) \<longrightarrow> chans s c \<noteq> TxDropped)"

lemma step_unclosed:
  assumes run: "client_run es from_stream = Some s" and old: "unclosed es s" and step: "client_step e s = Some t"
  shows "unclosed (es @ [e]) t"
  unfolding unclosed_def
proof (intro impI allI notI)
  fix c i g
  assume bound: "length (numbered (es @ [e])) \<le> 2 ^ 64 \<and> reader t \<noteq> RGone"
    and slot: "slot (calls t c) = Some (i, g)" and closed: "chans t c = TxDropped"
  note inv = client_run_inv [OF run]
  note D = client_invD [OF inv]
  have run': "client_run (es @ [e]) from_stream = Some t" by (simp add: run_append run step)
  have gone: "reader s \<noteq> RGone" using step bound by (cases e) (auto simp: client_op_defs split: client_op_splits)
  have open_before: "chans s c \<noteq> TxDropped"
    using step_slot [OF step slot] old bound gone D(4) [of c] by (auto simp: unclosed_def)
  have built: "\<exists>q. built t d = Some q \<and> rq_id q = j" if "slot (calls t d) = Some (j, h)" for d j h
    using run_slots_built [OF run'] that by (auto simp: slots_built_def)
  from built [OF slot] obtain q where q: "built t c = Some q" "rq_id q = i" by blast
  from step_closes [OF step closed open_before] bound
  consider d where "e = EvSend d \<or> e = EvRecv d \<or> e = EvDrop d"
    | d j m p where "e = EvInsert d" "calls s d = Numbered j m p" "map_of (pending s) j = Some c"
    by blast
  then show False
  proof cases
    case ev: (1 d)
    with step_ends [OF step] closed open_before obtain j g' h st where
      d: "slot (calls s d) = Some (j, g')" "h = g' \<or> h = guard_disarm g'" "slot st = None" "t = call_end d h st s"
      by metis
    then have h: "h = guard_new j \<or> h = guard_disarm (guard_new j)" using D(3) [OF d(1)] by simp
    have "map_of (pending s) j = Some c"
      using closed open_before h
      by (auto simp: d(4) call_end_def guard_drop_armed pm_remove_def drop_tx_apply split: if_splits)
    then have "slot (calls s c) = Some (j, guard_new j)" using D(2) by blast
    then obtain q where "built s c = Some q" "rq_id q = j" using run_slots_built [OF run] by (auto simp: slots_built_def)
    moreover from d(1) obtain r where "built s d = Some r" "rq_id r = j"
      using run_slots_built [OF run] by (auto simp: slots_built_def)
    ultimately have "c = d" using built_ids_unique [OF run _ _ _ , of c q d r] bound by simp
    with slot d(3,4) show False by (auto simp: call_end_def split: prod.splits)
  next
    case d: (2 d j m p)
    have "slot (calls s c) = Some (j, guard_new j)" using D(2) [OF d(3)] by blast
    moreover have "d \<noteq> c" using calculation d(2) by auto
    ultimately have "slot (calls t c) = Some (j, guard_new j)"
      using step d(1,2) by (auto simp: call_insert_def pm_insert_def)
    with built obtain r where r: "built t c = Some r" "rq_id r = j" by blast
    have "built t d = Some \<lparr>rq_id = j, rq_method = m, rq_payload = p\<rparr>"
      using step d(1,2) by (auto simp: call_insert_def pm_insert_def)
    from built_ids_unique [OF run' _ r(1) this] r(2) bound \<open>d \<noteq> c\<close> show False by simp
  qed
qed

lemma run_unclosed: "client_run es from_stream = Some s \<Longrightarrow> unclosed es s"
proof (rule run_trace_invariant [where P = unclosed and f = client_step and ?s0.0 = from_stream])
  show "unclosed [] from_stream" by (simp add: unclosed_def from_stream_def)
qed (rule step_unclosed)

section \<open>Nothing queued is lost\<close>

fun writer_stopped :: "writer_state \<Rightarrow> bool" where
  "writer_stopped WIdle = False"
| "writer_stopped (WSending e) = False"
| "writer_stopped _ = True"

lemma step_flow_kept:
  "client_step e s = Some t \<Longrightarrow> \<not> writer_stopped (writer t) \<Longrightarrow>
   \<not> writer_stopped (writer s) \<and> set (flow s) \<subseteq> set (flow t)"
  by (cases e) (auto simp: client_op_defs flow_def split: client_op_splits)

lemma step_awaiting:
  "client_step e s = Some t \<Longrightarrow> calls t c = Awaiting i g \<Longrightarrow>
   calls s c = Awaiting i g \<or> (\<exists>m p. calls s c = Sending i m p g \<and>
      Request \<lparr>rq_id = i, rq_method = m, rq_payload = p\<rparr> \<in> set (outbound t) \<and> built t c = built s c)"
  by (cases e) (auto simp: client_op_defs split: client_op_splits)

definition submitted_flow :: "'x client \<Rightarrow> bool" where
  "submitted_flow s \<longleftrightarrow> \<not> writer_stopped (writer s) \<longrightarrow>
     (\<forall>c i g. calls s c = Awaiting i g \<longrightarrow> (\<exists>q. built s c = Some q \<and> Request q \<in> set (flow s)))"

lemma step_submitted_flow:
  assumes "built_ok s" "submitted_flow s" "client_step e s = Some t"
  shows "submitted_flow t"
  unfolding submitted_flow_def
proof (intro impI allI)
  fix c i g assume run: "\<not> writer_stopped (writer t)" and c: "calls t c = Awaiting i g"
  note kept = step_flow_kept [OF assms(3) run]
  from step_awaiting [OF assms(3) c] show "\<exists>q. built t c = Some q \<and> Request q \<in> set (flow t)"
  proof (elim disjE exE conjE)
    assume "calls s c = Awaiting i g"
    with assms(2) kept obtain q where "built s c = Some q" "Request q \<in> set (flow s)"
      by (auto simp: submitted_flow_def)
    with kept built_stable [OF assms(1,3)] show ?thesis by blast
  next
    fix m p assume "calls s c = Sending i m p g" "built t c = built s c"
      "Request \<lparr>rq_id = i, rq_method = m, rq_payload = p\<rparr> \<in> set (outbound t)"
    with assms(1) show ?thesis by (auto simp: built_ok_def flow_def)
  qed
qed

lemma run_submitted_flow: "client_run es from_stream = Some s \<Longrightarrow> built_ok s \<and> submitted_flow s"
proof (rule run_invariant [where I = "\<lambda>s. built_ok s \<and> submitted_flow s" and f = client_step])
  show "built_ok from_stream \<and> submitted_flow from_stream"
    by (simp add: built_ok_def submitted_flow_def from_stream_def)
qed (blast intro: step_built_ok step_submitted_flow)+

end
