(* ===== verification/Server.thy ===== *)
theory Server
  imports Errors
begin

text \<open>
  The handler registry and the dispatch of one request: \<^verbatim>\<open>crates/patina-rpc/src/server.rs\<close>
  without the connection tasks. A handler is the function its future computes: from the state the
  service keeps behind \<open>&self\<close> (the type \<open>'w\<close>, one world shared by all handlers) and the payload to
  its result and the new state. What a handler computes is the user's code, so it is a parameter.
\<close>

section \<open>Handlers and services\<close>

type_synonym 'w handler = "'w \<Rightarrow> bytes \<Rightarrow> (handler_error + bytes) \<times> 'w"

definition UNKNOWN_METHOD_CODE :: u16 where
  "UNKNOWN_METHOD_CODE = 404"

datatype 'w fn_handler = FnHandler "'w handler"

definition handler_fn :: "'w handler \<Rightarrow> 'w fn_handler" where
  "handler_fn f = FnHandler f"

fun fn_handler_handle :: "'w fn_handler \<Rightarrow> 'w handler" where
  "fn_handler_handle (FnHandler f) w payload = f w payload"

record 'w patina_service =
  method_names :: "string list"
  service_dispatch :: "'w \<Rightarrow> string \<Rightarrow> bytes \<Rightarrow> (handler_error + bytes) \<times> 'w"

record 'w service_method_handler =
  svc :: "'w patina_service"
  smh_method :: string

definition service_method_handle :: "'w service_method_handler \<Rightarrow> 'w handler" where
  "service_method_handle h w payload = service_dispatch (svc h) w (smh_method h) payload"

section \<open>Builder and server\<close>

record 'w server_builder =
  sb_handlers :: "string \<rightharpoonup> 'w handler"

record 'w server =
  handlers :: "string \<rightharpoonup> 'w handler"

definition builder :: "'w server_builder" where
  "builder = \<lparr>sb_handlers = Map.empty\<rparr>"

definition register :: "string \<Rightarrow> 'w handler \<Rightarrow> 'w server_builder \<Rightarrow> 'w server_builder" where
  "register method h b = b\<lparr>sb_handlers := (sb_handlers b)(method \<mapsto> h)\<rparr>"

fun add_methods :: "'w patina_service \<Rightarrow> string list \<Rightarrow> 'w server_builder \<Rightarrow> 'w server_builder" where
  "add_methods s [] b = b"
| "add_methods s (name # names) b =
     add_methods s names
       (b\<lparr>sb_handlers := (sb_handlers b)
          (name \<mapsto> service_method_handle \<lparr>svc = s, smh_method = name\<rparr>)\<rparr>)"

definition add_service :: "'w patina_service \<Rightarrow> 'w server_builder \<Rightarrow> 'w server_builder" where
  "add_service s b = add_methods s (method_names s) b"

definition build :: "'w server_builder \<Rightarrow> 'w server" where
  "build b = \<lparr>handlers = sb_handlers b\<rparr>"

text \<open>
  \<open>serve\<close> accepts until \<open>accept\<close> fails: the sockets it spawned a connection task for, in order, and
  the error it returned, or \<open>None\<close> if it is still waiting.
\<close>

fun serve :: "('x + 'tcp) list \<Rightarrow> 'tcp list \<times> 'x patina_error option" where
  "serve [] = ([], None)"
| "serve (Inl e # rest) = ([], Some (patina_from_io e))"
| "serve (Inr stream # rest) = (case serve rest of (ss, r) \<Rightarrow> (stream # ss, r))"

section \<open>Dispatch\<close>

definition dispatch :: "(string \<rightharpoonup> 'w handler) \<Rightarrow> request_data \<Rightarrow> 'w \<Rightarrow> envelope \<times> 'w" where
  "dispatch hs req w =
     (case hs (rq_method req) of
        Some handler \<Rightarrow>
          (case handler w (rq_payload req) of
             (Inr bs, w') \<Rightarrow> (Response \<lparr>rs_id = rq_id req, rs_payload = bs\<rparr>, w')
           | (Inl err, w') \<Rightarrow>
               (Error \<lparr>er_id = rq_id req, er_code = he_code err, er_message = he_message err\<rparr>, w'))
      | None \<Rightarrow>
          (Error \<lparr>er_id = rq_id req, er_code = UNKNOWN_METHOD_CODE,
                  er_message = ''unknown method: '' @ rq_method req\<rparr>, w))"

section \<open>Lemmas\<close>

lemma dispatch_reply_id: "dispatch hs q w = (e, w') \<Longrightarrow> reply_id e = Some (rq_id q)"
  by (auto simp: dispatch_def split: option.splits prod.splits sum.splits)

lemma dispatch_is_reply: "dispatch hs q w = (e, w') \<Longrightarrow> is_reply e"
  by (auto simp: dispatch_def split: option.splits prod.splits sum.splits)

lemma handlers_register [simp]:
  "handlers (build (register m h b)) = (handlers (build b))(m \<mapsto> h)"
  by (simp add: build_def register_def)

lemma handlers_builder [simp]: "handlers (build builder) = Map.empty"
  by (simp add: build_def builder_def)

lemma add_methods_lookup:
  "sb_handlers (add_methods s names b) m =
     (if m \<in> set names then Some (service_method_handle \<lparr>svc = s, smh_method = m\<rparr>)
      else sb_handlers b m)"
  by (induction names arbitrary: b) auto

lemma add_service_lookup:
  "handlers (build (add_service s b)) m =
     (if m \<in> set (method_names s) then Some (service_method_handle \<lparr>svc = s, smh_method = m\<rparr>)
      else handlers (build b) m)"
  by (simp add: build_def add_service_def add_methods_lookup)

section \<open>The contract of a service\<close>

text \<open>
  What \<open>PatinaService\<close> documents: \<open>dispatch\<close> routes each listed name to the implementation, and the
  answer to any other name is the 404 error and leaves the state alone.
\<close>

locale service_contract =
  fixes srv :: "'w patina_service"
    and impl :: "string \<Rightarrow> 'w handler"
  assumes routes: "m \<in> set (method_names srv) \<Longrightarrow> service_dispatch srv w m p = impl m w p"
    and rejects: "m \<notin> set (method_names srv) \<Longrightarrow>
      service_dispatch srv w m p = (Inl (handler_error_new 404 (''unknown method: '' @ m)), w)"
begin

lemma registered_handler:
  "m \<in> set (method_names srv) \<Longrightarrow> handlers (build (add_service srv b)) m = Some (impl m)"
  by (auto simp: add_service_lookup service_method_handle_def routes fun_eq_iff)

text \<open>Dispatching through the registry gives what the service's own dispatch gives, for every name.\<close>

lemma registry_agrees:
  "dispatch (handlers (build (add_service srv builder))) q w =
     (case service_dispatch srv w (rq_method q) (rq_payload q) of
        (Inr bs, w') \<Rightarrow> (Response \<lparr>rs_id = rq_id q, rs_payload = bs\<rparr>, w')
      | (Inl err, w') \<Rightarrow>
          (Error \<lparr>er_id = rq_id q, er_code = he_code err, er_message = he_message err\<rparr>, w'))"
  by (auto simp: dispatch_def add_service_lookup service_method_handle_def rejects
      handler_error_new_def UNKNOWN_METHOD_CODE_def)

end

end
