(* ===== verification/Server_Conn.thy ===== *)
theory Server_Conn
  imports Server
begin

text \<open>
  One server connection: the dispatch loop \<open>serve_connection_inner\<close>, the worker tasks it spawns and
  the \<open>writer_loop\<close> of \<^verbatim>\<open>crates/patina-rpc/src/server.rs\<close>, as a labelled step relation. A
  connection stays open for as long as its dispatch loop reads. A handler is executed in one step, at
  any time after its request was read; which frames arrive, whether a send succeeds, whether a worker
  panics and whether the connection future is dropped is up to the environment.

  \<open>received\<close>, \<open>answered\<close>, \<open>discarded\<close> and \<open>panicked\<close> are history: the requests read, each answer
  with its request, the answers that were thrown away, the requests whose worker panicked.
\<close>

section \<open>State\<close>

definition WRITER_CHANNEL_CAPACITY :: nat where
  "WRITER_CHANNEL_CAPACITY = 128"

datatype dispatcher = Reading | Draining | Returned | Aborted

datatype worker = Running request_data | Replying envelope

datatype conn_writer = SIdle | SSending envelope | SGone

record 'w conn =
  dispatcher :: dispatcher
  workers :: "worker multiset"
  queue :: "envelope list"
  conn_writer :: conn_writer
  written :: "envelope list"
  world :: 'w
  received :: "request_data multiset"
  answered :: "(request_data \<times> envelope) multiset"
  discarded :: "envelope multiset"
  panicked :: "request_data multiset"

definition open_conn :: "'w \<Rightarrow> 'w conn" where
  "open_conn w =
     \<lparr>dispatcher = Reading, workers = {#}, queue = [], conn_writer = SIdle, written = [], world = w,
      received = {#}, answered = {#}, discarded = {#}, panicked = {#}\<rparr>"

fun in_flight :: "conn_writer \<Rightarrow> envelope list" where
  "in_flight (SSending e) = [e]"
| "in_flight _ = []"

section \<open>Steps\<close>

datatype conn_event =
    Frame envelope
  | FrameError
  | Eof
  | Work
  | Panic
  | Enqueue
  | Discard
  | WriterRecv
  | WriterSent
  | WriterFailed
  | WriterDone
  | Return
  | Abort

text \<open>The receiver is dropped: what was buffered or being sent is gone.\<close>

definition close_writer :: "'w conn \<Rightarrow> 'w conn" where
  "close_writer s =
     s\<lparr>conn_writer := SGone, queue := [],
       discarded := discarded s + mset (in_flight (conn_writer s) @ queue s)\<rparr>"

inductive conn_step :: "(string \<rightharpoonup> 'w handler) \<Rightarrow> 'w conn \<Rightarrow> conn_event \<Rightarrow> 'w conn \<Rightarrow> bool"
  for hs where
  read_request: "dispatcher s = Reading \<Longrightarrow>
    conn_step hs s (Frame (Request q))
      (s\<lparr>workers := add_mset (Running q) (workers s), received := add_mset q (received s)\<rparr>)"
| read_other: "dispatcher s = Reading \<Longrightarrow> \<not> is_request e \<Longrightarrow> conn_step hs s (Frame e) s"
| read_error: "dispatcher s = Reading \<Longrightarrow> conn_step hs s FrameError (s\<lparr>dispatcher := Draining\<rparr>)"
| read_eof: "dispatcher s = Reading \<Longrightarrow> conn_step hs s Eof (s\<lparr>dispatcher := Draining\<rparr>)"
| work: "workers s = add_mset (Running q) W \<Longrightarrow> dispatch hs q (world s) = (e, w') \<Longrightarrow>
    conn_step hs s Work
      (s\<lparr>workers := add_mset (Replying e) W, world := w', answered := add_mset (q, e) (answered s)\<rparr>)"
| panic: "workers s = add_mset (Running q) W \<Longrightarrow>
    conn_step hs s Panic (s\<lparr>workers := W, panicked := add_mset q (panicked s)\<rparr>)"
| enqueue: "workers s = add_mset (Replying e) W \<Longrightarrow> conn_writer s \<noteq> SGone \<Longrightarrow>
    length (queue s) < WRITER_CHANNEL_CAPACITY \<Longrightarrow>
    conn_step hs s Enqueue (s\<lparr>workers := W, queue := queue s @ [e]\<rparr>)"
| discard: "workers s = add_mset (Replying e) W \<Longrightarrow> conn_writer s = SGone \<Longrightarrow>
    conn_step hs s Discard (s\<lparr>workers := W, discarded := add_mset e (discarded s)\<rparr>)"
| writer_recv: "conn_writer s = SIdle \<Longrightarrow> queue s = e # es \<Longrightarrow>
    conn_step hs s WriterRecv (s\<lparr>queue := es, conn_writer := SSending e\<rparr>)"
| writer_sent: "conn_writer s = SSending e \<Longrightarrow>
    conn_step hs s WriterSent (s\<lparr>conn_writer := SIdle, written := written s @ [e]\<rparr>)"
| writer_failed: "conn_writer s = SSending e \<Longrightarrow> conn_step hs s WriterFailed (close_writer s)"
| writer_done: "conn_writer s = SIdle \<Longrightarrow> queue s = [] \<Longrightarrow> workers s = {#} \<Longrightarrow>
    dispatcher s \<noteq> Reading \<Longrightarrow> conn_step hs s WriterDone (s\<lparr>conn_writer := SGone\<rparr>)"
| conn_return: "dispatcher s = Draining \<Longrightarrow> conn_writer s = SGone \<Longrightarrow>
    conn_step hs s Return (s\<lparr>dispatcher := Returned\<rparr>)"
| abort: "dispatcher s \<in> {Reading, Draining} \<Longrightarrow>
    conn_step hs s Abort (close_writer s\<lparr>dispatcher := Aborted\<rparr>)"

inductive_cases frame_stepE: "conn_step hs s (Frame e) t"

text \<open>What \<open>serve_connection\<close> returns: the loop breaks on every failure, so it is always \<open>Ok(())\<close>.\<close>

fun conn_result :: "'w conn \<Rightarrow> ('x patina_error + unit) option" where
  "conn_result s = (if dispatcher s = Returned then Some (Inr ()) else None)"

inductive conn_exec :: "(string \<rightharpoonup> 'w handler) \<Rightarrow> 'w conn \<Rightarrow> conn_event list \<Rightarrow> 'w conn \<Rightarrow> bool"
  for hs where
  exec_nil: "conn_exec hs s [] s"
| exec_snoc: "conn_exec hs s ls t \<Longrightarrow> conn_step hs t l u \<Longrightarrow> conn_exec hs s (ls @ [l]) u"

lemma exec_one: "conn_step hs s l t \<Longrightarrow> conn_exec hs s [l] t"
  using exec_snoc [OF exec_nil, of hs s l t] by simp

lemma exec_append: "conn_exec hs t ms u \<Longrightarrow> conn_exec hs s ls t \<Longrightarrow> conn_exec hs s (ls @ ms) u"
proof (induction rule: conn_exec.induct)
  case (exec_snoc s' ms t' l u)
  then show ?case using conn_exec.exec_snoc [of hs s "ls @ ms" t' l u] by simp
qed simp

lemma exec_cons: "conn_step hs s l t \<Longrightarrow> conn_exec hs t ls u \<Longrightarrow> conn_exec hs s (l # ls) u"
  using exec_append [OF _ exec_one, of hs t ls u s l] by simp

lemma exec_invariant:
  assumes "conn_exec hs s ls t" "I s" "\<And>s l t. I s \<Longrightarrow> conn_step hs s l t \<Longrightarrow> I t"
  shows "I t"
  using assms by (induction rule: conn_exec.induct) blast+

section \<open>Accounting\<close>

fun running_request :: "worker \<Rightarrow> request_data option" where
  "running_request (Running q) = Some q"
| "running_request (Replying e) = None"

fun reply_of :: "worker \<Rightarrow> envelope option" where
  "reply_of (Running q) = None"
| "reply_of (Replying e) = Some e"

definition running :: "'w conn \<Rightarrow> request_data multiset" where
  "running s = {#the (running_request x). x \<in># filter_mset (\<lambda>x. running_request x \<noteq> None) (workers s)#}"

definition replying :: "'w conn \<Rightarrow> envelope multiset" where
  "replying s = {#the (reply_of x). x \<in># filter_mset (\<lambda>x. reply_of x \<noteq> None) (workers s)#}"

text \<open>
  Every request read is running, panicked or answered; every answer is on its way, written or
  thrown away; and an answer is what \<open>dispatch\<close> gives for its request.
\<close>

definition conn_inv :: "(string \<rightharpoonup> 'w handler) \<Rightarrow> 'w conn \<Rightarrow> bool" where
  "conn_inv hs s \<longleftrightarrow>
     received s = running s + panicked s + image_mset fst (answered s) \<and>
     image_mset snd (answered s)
       = replying s + mset (queue s) + mset (in_flight (conn_writer s)) + mset (written s) + discarded s \<and>
     (\<forall>(q, e) \<in># answered s. \<exists>w w'. dispatch hs q w = (e, w')) \<and>
     length (queue s) \<le> WRITER_CHANNEL_CAPACITY \<and>
     (conn_writer s = SGone \<longrightarrow> queue s = []) \<and>
     (dispatcher s = Returned \<longrightarrow> conn_writer s = SGone)"

lemma conn_inv_init: "conn_inv hs (open_conn w)"
  by (simp add: conn_inv_def open_conn_def running_def replying_def)

lemma conn_step_inv:
  assumes "conn_step hs s l t" "conn_inv hs s"
  shows "conn_inv hs t"
  using assms
  by (cases rule: conn_step.cases)
    (auto simp: conn_inv_def running_def replying_def close_writer_def)

lemma conn_exec_inv: "conn_exec hs (open_conn w) ls s \<Longrightarrow> conn_inv hs s"
  by (erule exec_invariant [where I = "conn_inv hs"]) (rule conn_inv_init, erule (1) conn_step_inv [rotated])

lemma conn_inv_answered: "conn_inv hs s \<Longrightarrow> (q, e) \<in># answered s \<Longrightarrow> \<exists>w w'. dispatch hs q w = (e, w')"
  unfolding conn_inv_def by blast

lemma conn_inv_written:
  assumes "conn_inv hs s" "e \<in> set (written s)"
  shows "\<exists>q. (q, e) \<in># answered s \<and> reply_id e = Some (rq_id q)"
proof -
  have "mset (written s) \<subseteq># image_mset snd (answered s)" using assms(1) by (auto simp: conn_inv_def)
  with assms(2) obtain q where q: "(q, e) \<in># answered s" by (auto dest!: mset_subset_eqD [of _ _ e])
  from conn_inv_answered [OF assms(1) q] obtain w w' where "dispatch hs q w = (e, w')" by blast
  from dispatch_reply_id [OF this] q show ?thesis by blast
qed

lemma conn_inv_ids:
  assumes "conn_inv hs s"
  shows "image_mset reply_id (image_mset snd (answered s))
    = image_mset (\<lambda>q. Some (rq_id q)) (image_mset fst (answered s))"
proof -
  have "reply_id (snd x) = Some (rq_id (fst x))" if "x \<in># answered s" for x
    using conn_inv_answered [OF assms, of "fst x" "snd x"] that dispatch_reply_id by fastforce
  then show ?thesis by (simp add: multiset.map_comp comp_def cong: image_mset_cong)
qed

end
