(* ===== verification/Server_Props.thy ===== *)
theory Server_Props
  imports Server_Conn
begin

text \<open>
  The properties of the server: how registrations combine, and of a
  connection: answers match requests one to one, a drained connection has answered everything,
  draining ends, and what is left of a connection whose writer failed.
\<close>

section \<open>The registry\<close>

lemma fold_register:
  "handlers (build (fold (\<lambda>(m, h). register m h) rs b)) m =
     (case map_of (rev rs) m of Some h \<Rightarrow> Some h | None \<Rightarrow> handlers (build b) m)"
  by (induction rs arbitrary: b) (auto simp: map_add_def split: option.splits)

text \<open>
  Registration. After any sequence of \<open>register\<close> calls on a new builder, the handler of a method is
  the one registered last under its name; a service added afterwards takes over exactly the names it
  lists, routed through its own \<open>dispatch\<close> under that name.
\<close>

lemma last_registration_wins:
  "handlers (build (add_service s (fold (\<lambda>(m, h). register m h) rs builder))) m =
     (if m \<in> set (method_names s) then Some (\<lambda>w p. service_dispatch s w m p) else map_of (rev rs) m)"
  by (auto simp: add_service_lookup fold_register service_method_handle_def fun_eq_iff split: option.splits)

section \<open>Answers and requests\<close>

text \<open>
  C19. Answers match requests. In every execution of a connection the ids of the frames written are,
  with multiplicity, among the ids of the requests read: no request is answered twice, and nothing
  is written that does not answer a request read on this connection. Every frame written is a
  response or an error.
\<close>

theorem answers_match_requests:
  assumes "conn_exec hs (open_conn w) ls s"
  shows "image_mset reply_id (mset (written s)) \<subseteq># image_mset (\<lambda>q. Some (rq_id q)) (received s)
    \<and> (\<forall>e \<in> set (written s). is_reply e)"
proof -
  from conn_exec_inv [OF assms] have inv: "conn_inv hs s" .
  note ids = conn_inv_ids [OF inv]
  have sub: "mset (written s) \<subseteq># image_mset snd (answered s)"
    using inv by (auto simp: conn_inv_def)
  have "image_mset reply_id (mset (written s)) \<subseteq># image_mset (\<lambda>q. Some (rq_id q)) (image_mset fst (answered s))"
    using image_mset_subseteq_mono [OF sub, of reply_id] by (simp only: ids)
  also have "\<dots> \<subseteq># image_mset (\<lambda>q. Some (rq_id q)) (received s)"
    using inv by (auto simp: conn_inv_def)
  finally have "image_mset reply_id (mset (written s)) \<subseteq># image_mset (\<lambda>q. Some (rq_id q)) (received s)" .
  moreover have "is_reply e" if "e \<in> set (written s)" for e
  proof -
    from that have "e \<in># mset (written s)" by simp
    with sub have "e \<in># image_mset snd (answered s)" by (rule mset_subset_eqD)
    then obtain q where "(q, e) \<in># answered s" by auto
    from conn_inv_answered [OF inv this] obtain v v' where "dispatch hs q v = (e, v')" by blast
    then show ?thesis by (rule dispatch_is_reply)
  qed
  ultimately show ?thesis by blast
qed

theorem answers_match_requests_witness:
  "\<exists>s. conn_exec Map.empty (open_conn ()) [Frame (Request \<lparr>rq_id = 7, rq_method = ''x'', rq_payload = []\<rparr>)] s
     \<and> image_mset reply_id (mset (written s)) \<subseteq># image_mset (\<lambda>q. Some (rq_id q)) (received s)"
proof -
  have "dispatcher (open_conn ()) = Reading" by (simp add: open_conn_def)
  from exec_one [OF read_request [OF this]]
  obtain s where e: "conn_exec Map.empty (open_conn ()) [Frame (Request \<lparr>rq_id = 7, rq_method = ''x'', rq_payload = []\<rparr>)] s"
    by blast
  from answers_match_requests [OF e] have
    "image_mset reply_id (mset (written s)) \<subseteq># image_mset (\<lambda>q. Some (rq_id q)) (received s)" ..
  with e show ?thesis by blast
qed

section \<open>Draining\<close>

fun disturbing :: "conn_event \<Rightarrow> bool" where
  "disturbing Panic = True"
| "disturbing WriterFailed = True"
| "disturbing Abort = True"
| "disturbing _ = False"

definition undisturbed :: "'w conn \<Rightarrow> bool" where
  "undisturbed s \<longleftrightarrow> panicked s = {#} \<and> discarded s = {#} \<and> dispatcher s \<noteq> Aborted \<and>
     (conn_writer s = SGone \<longrightarrow> workers s = {#} \<and> queue s = [] \<and> dispatcher s \<noteq> Reading)"

lemma step_undisturbed: "conn_step hs s l t \<Longrightarrow> undisturbed s \<Longrightarrow> \<not> disturbing l \<Longrightarrow> undisturbed t"
  by (erule conn_step.cases) (auto simp: undisturbed_def)

lemma exec_undisturbed:
  "conn_exec hs s ls t \<Longrightarrow> undisturbed s \<Longrightarrow> \<forall>l \<in> set ls. \<not> disturbing l \<Longrightarrow> undisturbed t"
  by (induction rule: conn_exec.induct) (auto intro: step_undisturbed)

text \<open>What is left to do, so that every step of a connection that no longer reads does some of it.\<close>

fun writer_weight :: "conn_writer \<Rightarrow> nat" where
  "writer_weight SIdle = 1"
| "writer_weight (SSending e) = 3"
| "writer_weight SGone = 0"

fun dispatcher_weight :: "dispatcher \<Rightarrow> nat" where
  "dispatcher_weight Draining = 1"
| "dispatcher_weight _ = 0"

definition work_left :: "'w conn \<Rightarrow> nat" where
  "work_left s = 5 * size (running s) + 4 * size (replying s) + 3 * length (queue s)
     + writer_weight (conn_writer s) + dispatcher_weight (dispatcher s)"

lemma writer_weight_pos: "w \<noteq> SGone \<Longrightarrow> 0 < writer_weight w"
  by (cases w) simp_all

lemma step_work_left:
  "conn_step hs s l t \<Longrightarrow> dispatcher s \<noteq> Reading \<Longrightarrow>
   work_left t < work_left s \<and> dispatcher t \<noteq> Reading"
  by (erule conn_step.cases) (auto simp: work_left_def running_def replying_def close_writer_def)

lemma exec_work_left:
  "conn_exec hs s ls t \<Longrightarrow> dispatcher s \<noteq> Reading \<Longrightarrow>
   length ls + work_left t \<le> work_left s \<and> dispatcher t \<noteq> Reading"
  by (induction rule: conn_exec.induct) (auto dest!: step_work_left)

lemma draining_progress:
  assumes "dispatcher s = Draining" "conn_inv hs s"
  shows "\<exists>l t. conn_step hs s l t \<and> \<not> disturbing l"
proof (cases "workers s")
  case empty
  show ?thesis
  proof (cases "conn_writer s")
    case SIdle
    show ?thesis
    proof (cases "queue s")
      case Nil
      with writer_done [of s hs] empty SIdle assms(1) show ?thesis
        by (intro exI [of _ WriterDone]) auto
    next
      case (Cons e es)
      with writer_recv [of s e es hs] SIdle show ?thesis by (intro exI [of _ WriterRecv]) auto
    qed
  next
    case (SSending e)
    with writer_sent [of s e hs] show ?thesis by (intro exI [of _ WriterSent]) auto
  next
    case SGone
    with conn_return [of s hs] assms(1) show ?thesis by (intro exI [of _ Return]) auto
  qed
next
  case (add x W)
  show ?thesis
  proof (cases x)
    case (Running q)
    with work [of s q W hs] add show ?thesis
      by (intro exI [of _ Work]) (cases "dispatch hs q (world s)"; auto)
  next
    case (Replying e)
    show ?thesis
    proof (cases "conn_writer s")
      case SGone
      with discard [of s e W hs] add Replying show ?thesis by (intro exI [of _ Discard]) auto
    next
      case (SSending e')
      with writer_sent [of s e' hs] show ?thesis by (intro exI [of _ WriterSent]) auto
    next
      case SIdle
      show ?thesis
      proof (cases "queue s")
        case Nil
        with enqueue [of s e W hs] add Replying SIdle show ?thesis
          by (intro exI [of _ Enqueue]) (auto simp: WRITER_CHANNEL_CAPACITY_def)
      next
        case (Cons e' es)
        with writer_recv [of s e' es hs] SIdle show ?thesis by (intro exI [of _ WriterRecv]) auto
      qed
    qed
  qed
qed

lemma draining_completes:
  assumes "conn_inv hs s" "dispatcher s = Draining"
  shows "\<exists>ls t. conn_exec hs s ls t \<and> (\<forall>l \<in> set ls. \<not> disturbing l) \<and> dispatcher t = Returned"
  using assms
proof (induction "work_left s" arbitrary: s rule: less_induct)
  case less
  from draining_progress [OF less.prems(2,1)] obtain l u where
    step: "conn_step hs s l u" "\<not> disturbing l" by blast
  have u: "work_left u < work_left s" "conn_inv hs u"
    using step_work_left [OF step(1)] conn_step_inv [OF step(1)] less.prems by simp_all
  from step less.prems(2) have "dispatcher u = Draining \<or> dispatcher u = Returned"
    by (cases rule: conn_step.cases) auto
  then show ?case
  proof
    assume "dispatcher u = Draining"
    from less.hyps [OF u this] obtain ls t where
      "conn_exec hs u ls t" "\<forall>l \<in> set ls. \<not> disturbing l" "dispatcher t = Returned" by blast
    then show ?thesis
      using exec_cons [OF step(1)] step(2) by (intro exI [of _ "l # ls"] exI [of _ t]) auto
  next
    assume "dispatcher u = Returned"
    then show ?thesis
      using exec_one [OF step(1)] step(2) by (intro exI [of _ "[l]"] exI [of _ u]) auto
  qed
qed

lemma workers_empty_sums [simp]: "workers s = {#} \<Longrightarrow> running s = {#}" "workers s = {#} \<Longrightarrow> replying s = {#}"
  by (simp_all add: running_def replying_def)

text \<open>
  C21. Draining ends. Once the loop has stopped reading, every execution is finite: its length is at
  most the work left. And the connection is never stuck before it returns: with no send failure, no
  panic and no abort there is an execution that returns.
\<close>

theorem draining_terminates:
  assumes "conn_exec hs (open_conn w) ls s" and "dispatcher s = Draining"
  shows "(\<forall>ms t. conn_exec hs s ms t \<longrightarrow> length ms \<le> work_left s)
    \<and> (\<exists>ms t. conn_exec hs s ms t \<and> (\<forall>l \<in> set ms. \<not> disturbing l) \<and> dispatcher t = Returned)"
proof -
  have "length ms \<le> work_left s" if "conn_exec hs s ms t" for ms t
    using exec_work_left [OF that] assms(2) by simp
  with draining_completes [OF conn_exec_inv [OF assms(1)] assms(2)] show ?thesis by blast
qed

theorem draining_terminates_witness:
  "\<exists>s ms t. conn_exec Map.empty (open_conn ()) [Eof] s \<and> dispatcher s = Draining
     \<and> conn_exec Map.empty s ms t \<and> dispatcher t = Returned"
proof -
  have "dispatcher (open_conn ()) = Reading" by (simp add: open_conn_def)
  from exec_one [OF read_eof [OF this]]
  have e: "conn_exec Map.empty (open_conn ()) [Eof] (open_conn ()\<lparr>dispatcher := Draining\<rparr>)" .
  from draining_terminates [OF e] obtain ms t where
    "conn_exec Map.empty (open_conn ()\<lparr>dispatcher := Draining\<rparr>) ms t" "dispatcher t = Returned" by auto
  with e show ?thesis by (intro exI conjI) (assumption | simp)+
qed

text \<open>
  C20. A drained connection has answered everything. If a connection returns and no send failed, no
  worker panicked and nobody aborted it, then the frames written are exactly one answer for each
  request read, each the result of dispatching that request.
\<close>

theorem returned_connection_answered_all:
  assumes "conn_exec hs (open_conn w) ls s" and "\<forall>l \<in> set ls. \<not> disturbing l"
    and "dispatcher s = Returned"
  shows "\<exists>ans. received s = image_mset fst ans \<and> mset (written s) = image_mset snd ans
    \<and> (\<forall>(q, e) \<in># ans. reply_id e = Some (rq_id q) \<and> (\<exists>v v'. dispatch hs q v = (e, v')))"
proof -
  have "undisturbed (open_conn w)" by (simp add: undisturbed_def open_conn_def)
  from exec_undisturbed [OF assms(1) this assms(2)] have und: "undisturbed s" .
  from conn_exec_inv [OF assms(1)] have inv: "conn_inv hs s" .
  with assms(3) have gone: "conn_writer s = SGone" by (simp add: conn_inv_def)
  with und have empty: "workers s = {#}" "queue s = []" "panicked s = {#}" "discarded s = {#}"
    by (simp_all add: undisturbed_def)
  have "received s = image_mset fst (answered s)" "mset (written s) = image_mset snd (answered s)"
    using inv by (simp_all add: conn_inv_def empty gone)
  moreover have "\<forall>(q, e) \<in># answered s. reply_id e = Some (rq_id q) \<and> (\<exists>v v'. dispatch hs q v = (e, v'))"
    by (auto dest!: conn_inv_answered [OF inv] intro: dispatch_reply_id)
  ultimately show ?thesis by blast
qed

theorem returned_connection_answered_all_witness:
  "\<exists>ls s ans. conn_exec Map.empty (open_conn ()) ls s \<and> dispatcher s = Returned
     \<and> received s = image_mset fst ans \<and> mset (written s) = image_mset snd ans"
proof -
  have "dispatcher (open_conn ()) = Reading" by (simp add: open_conn_def)
  from exec_one [OF read_eof [OF this]]
  have e: "conn_exec Map.empty (open_conn ()) [Eof] (open_conn ()\<lparr>dispatcher := Draining\<rparr>)" .
  from draining_completes [OF conn_exec_inv [OF e]] obtain ms t where
    "conn_exec Map.empty (open_conn ()\<lparr>dispatcher := Draining\<rparr>) ms t"
    "\<forall>l \<in> set ms. \<not> disturbing l" "dispatcher t = Returned" by auto
  with exec_append [OF this(1) e] returned_connection_answered_all [of Map.empty "()" "[Eof] @ ms" t]
  show ?thesis by fastforce
qed

section \<open>Failures\<close>

lemma step_writer_gone:
  "conn_step hs s l t \<Longrightarrow> conn_writer s = SGone \<Longrightarrow> conn_writer t = SGone \<and> written t = written s"
  by (erule conn_step.cases) (auto simp: close_writer_def)

lemma exec_writer_gone:
  "conn_exec hs s ls t \<Longrightarrow> conn_writer s = SGone \<Longrightarrow> conn_writer t = SGone \<and> written t = written s"
  by (induction rule: conn_exec.induct) (auto dest: step_writer_gone)

lemma step_keeps_reading:
  "conn_step hs s l t \<Longrightarrow> dispatcher s = Reading \<Longrightarrow> l \<notin> {FrameError, Eof, Abort} \<Longrightarrow> dispatcher t = Reading"
  by (erule conn_step.cases) (auto simp: close_writer_def)

lemma exec_keeps_reading:
  "conn_exec hs s ls t \<Longrightarrow> dispatcher s = Reading \<Longrightarrow> set ls \<inter> {FrameError, Eof, Abort} = {}
   \<Longrightarrow> dispatcher t = Reading"
  by (induction rule: conn_exec.induct) (auto dest: step_keeps_reading)

text \<open>
  C22. Half-open connection. After a failed send the writer task is gone, but the dispatch loop is not
  told: until the peer closes or an abort comes it keeps reading, runs the handler of every further
  request with its side effects, throws the answer away, and never writes a frame again.
\<close>

theorem failed_writer_leaves_half_open:
  assumes "conn_exec hs (open_conn w) ls s" and "dispatcher s = Reading" and "conn_writer s = SGone"
  shows "(\<forall>ms t. conn_exec hs s ms t \<and> set ms \<inter> {FrameError, Eof, Abort} = {} \<longrightarrow>
        dispatcher t = Reading \<and> written t = written s)
    \<and> (\<exists>t. conn_exec hs s [Frame (Request q), Work, Discard] t \<and> dispatcher t = Reading
        \<and> world t = snd (dispatch hs q (world s))
        \<and> discarded t = add_mset (fst (dispatch hs q (world s))) (discarded s))"
proof -
  let ?e = "fst (dispatch hs q (world s))" and ?w = "snd (dispatch hs q (world s))"
  let ?s1 = "s\<lparr>workers := add_mset (Running q) (workers s), received := add_mset q (received s)\<rparr>"
  let ?s2 = "?s1\<lparr>workers := add_mset (Replying ?e) (workers s), world := ?w,
      answered := add_mset (q, ?e) (answered s)\<rparr>"
  let ?s3 = "?s2\<lparr>workers := workers s, discarded := add_mset ?e (discarded s)\<rparr>"
  have 1: "conn_step hs s (Frame (Request q)) ?s1" using assms(2) by (rule read_request)
  have 2: "conn_step hs ?s1 Work ?s2"
    using work [of ?s1 q "workers s" hs ?e ?w] by simp
  have 3: "conn_step hs ?s2 Discard ?s3"
    using discard [of ?s2 ?e "workers s" hs] assms(3) by simp
  from exec_cons [OF 1 exec_cons [OF 2 exec_one [OF 3]]]
  have "conn_exec hs s [Frame (Request q), Work, Discard] ?s3" .
  moreover have "dispatcher t = Reading \<and> written t = written s"
    if "conn_exec hs s ms t" "set ms \<inter> {FrameError, Eof, Abort} = {}" for ms t
    using exec_keeps_reading [OF that(1) assms(2) that(2)] exec_writer_gone [OF that(1) assms(3)] by simp
  ultimately show ?thesis using assms(2) by (intro conjI exI [of _ ?s3]) auto
qed

text \<open>One request whose answer cannot be sent, for example because it is above the frame cap.\<close>

definition oversized_answer_run :: "conn_event list" where
  "oversized_answer_run =
     [Frame (Request \<lparr>rq_id = 0, rq_method = ''big'', rq_payload = []\<rparr>), Work, Enqueue, WriterRecv, WriterFailed]"

lemma failed_send_exec:
  assumes "dispatch hs q w = (e, w')"
  shows "\<exists>s. conn_exec hs (open_conn w) [Frame (Request q), Work, Enqueue, WriterRecv, WriterFailed] s
     \<and> dispatcher s = Reading \<and> conn_writer s = SGone \<and> written s = []"
proof -
  let ?s1 = "open_conn w\<lparr>workers := {#Running q#}, received := {#q#}\<rparr>"
  let ?s2 = "?s1\<lparr>workers := {#Replying e#}, world := w', answered := {#(q, e)#}\<rparr>"
  let ?s3 = "?s2\<lparr>workers := {#}, queue := [e]\<rparr>"
  let ?s4 = "?s3\<lparr>queue := [], conn_writer := SSending e\<rparr>"
  have 1: "conn_step hs (open_conn w) (Frame (Request q)) ?s1"
    using read_request [of "open_conn w" hs q] by (simp add: open_conn_def)
  have 2: "conn_step hs ?s1 Work ?s2"
    using work [of ?s1 q "{#}" hs e w'] assms by (simp add: open_conn_def)
  have 3: "conn_step hs ?s2 Enqueue ?s3"
    using enqueue [of ?s2 e "{#}" hs] by (simp add: open_conn_def WRITER_CHANNEL_CAPACITY_def)
  have 4: "conn_step hs ?s3 WriterRecv ?s4"
    using writer_recv [of ?s3 e "[]" hs] by (simp add: open_conn_def)
  have 5: "conn_step hs ?s4 WriterFailed (close_writer ?s4)"
    by (rule writer_failed [of ?s4 e]) simp
  note exec = exec_cons [OF 1 exec_cons [OF 2 exec_cons [OF 3 exec_cons [OF 4 exec_one [OF 5]]]]]
  show ?thesis
    by (intro exI [of _ "close_writer ?s4"] conjI exec) (simp_all add: close_writer_def open_conn_def)
qed

lemma oversized_answer_result:
  "\<exists>s. conn_exec Map.empty (open_conn ()) oversized_answer_run s
     \<and> dispatcher s = Reading \<and> conn_writer s = SGone \<and> written s = []"
  unfolding oversized_answer_run_def by (rule failed_send_exec [OF prod.collapse [symmetric]])

theorem failed_writer_leaves_half_open_witness:
  "\<exists>s t. conn_exec Map.empty (open_conn ()) oversized_answer_run s
     \<and> dispatcher s = Reading \<and> conn_writer s = SGone
     \<and> conn_exec Map.empty s [Frame (Request \<lparr>rq_id = 1, rq_method = ''m'', rq_payload = []\<rparr>), Work, Discard] t
     \<and> dispatcher t = Reading"
proof -
  let ?q = "\<lparr>rq_id = 1, rq_method = ''m'', rq_payload = []\<rparr>"
  obtain s where s: "conn_exec Map.empty (open_conn ()) oversized_answer_run s"
    "dispatcher s = Reading" "conn_writer s = SGone"
    using oversized_answer_result by blast
  from failed_writer_leaves_half_open [OF s, of ?q]
  obtain t where "conn_exec Map.empty s [Frame (Request ?q), Work, Discard] t" "dispatcher t = Reading"
    by (elim conjE exE)
  with s show ?thesis by (intro exI [of _ s] exI [of _ t] conjI)
qed

text \<open>
  What the loop does with a frame. A request starts exactly one worker, whatever else is going on;
  heartbeats and stray responses or errors change nothing; and the writer's channel never holds more
  than 128 answers.
\<close>

lemma frame_handling:
  assumes "conn_exec hs (open_conn w) ls s" and "conn_step hs s (Frame e) t"
  shows "(case e of
        Request q \<Rightarrow> workers t = add_mset (Running q) (workers s) \<and> received t = add_mset q (received s)
          \<and> queue t = queue s \<and> written t = written s \<and> world t = world s \<and> dispatcher t = Reading
      | _ \<Rightarrow> t = s)
    \<and> length (queue t) \<le> 128"
proof -
  have "length (queue t) \<le> 128"
    using conn_step_inv [OF assms(2) conn_exec_inv [OF assms(1)]]
    by (simp add: conn_inv_def WRITER_CHANNEL_CAPACITY_def)
  with assms(2) show ?thesis by (elim frame_stepE) (auto split: envelope.splits)
qed

end
