(* ===== verification/Wire_Lib.thy ===== *)
theory Wire_Lib
  imports Errors
begin

text \<open>
  The two libraries under the codec, as the program sees them: \<open>bincode\<close> (values to bytes and back)
  and \<open>tokio_util\<close>'s \<open>LengthDelimitedCodec\<close> (frames on a byte stream). Neither is under
  \<^verbatim>\<open>src/\<close>, so their functions are parameters; the locales name what their documentation promises
  and what \<^verbatim>\<open>codec.rs\<close> and \<^verbatim>\<open>DESIGN.md\<close> section 4.1 rely on.
\<close>

section \<open>bincode\<close>

text \<open>
  \<open>decode_from_slice\<close> reads a value of the expected type from the front of the slice and reports how
  many bytes it used, so it does not look at what follows an encoding. \<open>has_type v t\<close> says that the
  value \<open>v\<close> belongs to the Rust type \<open>t\<close> the decoder is instantiated with.
\<close>

locale bincode =
  fixes has_type :: "'v \<Rightarrow> 'ty \<Rightarrow> bool"
    and encode_to_vec :: "'v \<Rightarrow> 'x + bytes"
    and decode_from_slice :: "'ty \<Rightarrow> bytes \<Rightarrow> 'x + ('v \<times> nat)"
  assumes decode_encode:
    "has_type v t \<Longrightarrow> encode_to_vec v = Inr bs \<Longrightarrow>
     decode_from_slice t (bs @ rest) = Inr (v, length bs)"
begin

lemma decode_encode_exact:
  "has_type v t \<Longrightarrow> encode_to_vec v = Inr bs \<Longrightarrow> decode_from_slice t bs = Inr (v, length bs)"
  using decode_encode [of v t bs "[]"] by simp

lemma encode_inject:
  assumes "has_type v t" "has_type w t" "encode_to_vec v = Inr bs" "encode_to_vec w = Inr bs"
  shows "v = w"
  using decode_encode_exact [OF assms(1,3)] decode_encode_exact [OF assms(2,4)] by simp

text \<open>No encoding of a type is a proper prefix of another one of the same type.\<close>

lemma encode_prefix_free:
  assumes "has_type v t" "has_type w t"
    and "encode_to_vec v = Inr bs" "encode_to_vec w = Inr (bs @ cs)"
  shows "v = w \<and> cs = []"
  using decode_encode [OF assms(1,3), of cs] decode_encode_exact [OF assms(2,4)] by simp

end

section \<open>Length-delimited framing\<close>

definition frame_of :: "bytes \<Rightarrow> bytes" where
  "frame_of p = be32 (length p) @ p"

lemma length_frame_of [simp]: "length (frame_of p) = 4 + length p"
  by (simp add: frame_of_def)

text \<open>
  The decoder may move the length prefix out of the buffer into its own state before the body has
  arrived. \<open>held s\<close> is that part, so \<open>held s @ src\<close> is the stream still to be decoded. The three
  decoder laws cover a complete frame, an incomplete one, and a prefix above the frame cap.
\<close>

locale length_delimited =
  fixes new_codec :: "nat \<Rightarrow> 's"
    and frame_decode :: "'s \<Rightarrow> bytes \<Rightarrow> ('x + bytes option) \<times> 's \<times> bytes"
    and frame_encode :: "'s \<Rightarrow> bytes \<Rightarrow> bytes \<Rightarrow> ('x + unit) \<times> 's \<times> bytes"
    and max_frame :: "'s \<Rightarrow> nat"
    and held :: "'s \<Rightarrow> bytes"
  assumes new_codec: "m < 2 ^ 32 \<Longrightarrow> max_frame (new_codec m) = m \<and> held (new_codec m) = []"
    and encode_ok: "length p \<le> max_frame s \<Longrightarrow>
      \<exists>s'. frame_encode s p dst = (Inr (), s', dst @ frame_of p)
        \<and> max_frame s' = max_frame s \<and> held s' = held s"
    and encode_too_big: "max_frame s < length p \<Longrightarrow>
      \<exists>x s'. frame_encode s p dst = (Inl x, s', dst) \<and> max_frame s' = max_frame s \<and> held s' = held s"
    and decode_complete: "held s @ src = frame_of p @ rest \<Longrightarrow> length p \<le> max_frame s \<Longrightarrow>
      max_frame s < 2 ^ 32 \<Longrightarrow>
      \<exists>s' src'. frame_decode s src = (Inr (Some p), s', src')
        \<and> max_frame s' = max_frame s \<and> held s' @ src' = rest"
    and decode_partial: "strict_prefix (held s @ src) (frame_of p) \<Longrightarrow> length p \<le> max_frame s \<Longrightarrow>
      max_frame s < 2 ^ 32 \<Longrightarrow>
      \<exists>s' src'. frame_decode s src = (Inr None, s', src')
        \<and> max_frame s' = max_frame s \<and> held s' @ src' = held s @ src"
    and decode_too_big: "held s = [] \<Longrightarrow> src = be32 n @ rest \<Longrightarrow> max_frame s < n \<Longrightarrow> n < 2 ^ 32 \<Longrightarrow>
      \<exists>x s' src'. frame_decode s src = (Inl x, s', src')"

end
