(* ===== verification/Codec.thy ===== *)
theory Codec
  imports Wire_Lib
begin

text \<open>
  The \<open>WireCodec\<close> of \<^verbatim>\<open>crates/patina-rpc/src/codec.rs\<close>: a thin composition of the framing codec
  and \<open>bincode\<close>. \<open>wire_decode\<close> and \<open>wire_encode\<close> are the two trait methods; \<open>decode_all\<close> and
  \<open>feed\<close> call \<open>wire_decode\<close> the way a reader of a byte stream does, so that fragmentation of the
  stream can be stated.
\<close>

section \<open>The codec\<close>

record 's wire_codec =
  inner :: 's

definition DEFAULT_MAX_FRAME_LEN :: nat where
  "DEFAULT_MAX_FRAME_LEN = 64 * 1024 * 1024"

definition with_max_frame_length :: "(nat \<Rightarrow> 's) \<Rightarrow> nat \<Rightarrow> 's wire_codec" where
  "with_max_frame_length new_codec mx = \<lparr>inner = new_codec mx\<rparr>"

definition wire_new :: "(nat \<Rightarrow> 's) \<Rightarrow> 's wire_codec" where
  "wire_new new_codec = with_max_frame_length new_codec DEFAULT_MAX_FRAME_LEN"

definition wire_default :: "(nat \<Rightarrow> 's) \<Rightarrow> 's wire_codec" where
  "wire_default new_codec = wire_new new_codec"

definition wire_decode ::
  "(bytes \<Rightarrow> 'x + (envelope \<times> nat)) \<Rightarrow> ('s \<Rightarrow> bytes \<Rightarrow> ('x + bytes option) \<times> 's \<times> bytes) \<Rightarrow>
   's wire_codec \<Rightarrow> bytes \<Rightarrow> ('x wire_error + envelope option) \<times> 's wire_codec \<times> bytes" where
  "wire_decode decode_from_slice frame_decode c src =
     (case frame_decode (inner c) src of
        (Inl e, s, src') \<Rightarrow> (Inl (Io e), c\<lparr>inner := s\<rparr>, src')
      | (Inr None, s, src') \<Rightarrow> (Inr None, c\<lparr>inner := s\<rparr>, src')
      | (Inr (Some frame), s, src') \<Rightarrow>
          (case decode_from_slice frame of
             Inl e \<Rightarrow> (Inl (Decode e), c\<lparr>inner := s\<rparr>, src')
           | Inr (envelope, _) \<Rightarrow> (Inr (Some envelope), c\<lparr>inner := s\<rparr>, src')))"

definition wire_encode ::
  "(envelope \<Rightarrow> 'x + bytes) \<Rightarrow> ('s \<Rightarrow> bytes \<Rightarrow> bytes \<Rightarrow> ('x + unit) \<times> 's \<times> bytes) \<Rightarrow>
   's wire_codec \<Rightarrow> envelope \<Rightarrow> bytes \<Rightarrow> ('x wire_error + unit) \<times> 's wire_codec \<times> bytes" where
  "wire_encode encode_to_vec frame_encode c item dst =
     (case encode_to_vec item of
        Inl e \<Rightarrow> (Inl (Encode e), c, dst)
      | Inr bs \<Rightarrow>
          (case frame_encode (inner c) bs dst of
             (Inl e, s, dst') \<Rightarrow> (Inl (Io e), c\<lparr>inner := s\<rparr>, dst')
           | (Inr _, s, dst') \<Rightarrow> (Inr (), c\<lparr>inner := s\<rparr>, dst')))"

section \<open>Reading a stream\<close>

text \<open>
  Decode until the codec asks for more bytes or fails; the result holds the envelopes, the error if
  there was one, and the codec and buffer left. The loop has no bound of its own, so a codec that
  never asks for more bytes gives \<open>None\<close>.
\<close>

partial_function (option) decode_all ::
  "('s wire_codec \<Rightarrow> bytes \<Rightarrow> ('x wire_error + envelope option) \<times> 's wire_codec \<times> bytes) \<Rightarrow>
   's wire_codec \<Rightarrow> bytes \<Rightarrow> (envelope list \<times> 'x wire_error option \<times> 's wire_codec \<times> bytes) option"
where
  "decode_all dec c buf =
     (case dec c buf of
        (Inl e, c', buf') \<Rightarrow> Some ([], Some e, c', buf')
      | (Inr None, c', buf') \<Rightarrow> Some ([], None, c', buf')
      | (Inr (Some envelope), c', buf') \<Rightarrow>
          Option.bind (decode_all dec c' buf')
            (\<lambda>(es, r). Some (envelope # es, r)))"

text \<open>The stream arrives in chunks; after each one everything that is complete is decoded.\<close>

fun feed ::
  "('s wire_codec \<Rightarrow> bytes \<Rightarrow> ('x wire_error + envelope option) \<times> 's wire_codec \<times> bytes) \<Rightarrow>
   's wire_codec \<Rightarrow> bytes \<Rightarrow> bytes list \<Rightarrow>
   (envelope list \<times> 'x wire_error option \<times> 's wire_codec \<times> bytes) option" where
  "feed dec c buf [] = Some ([], None, c, buf)"
| "feed dec c buf (chunk # chunks) =
     (case decode_all dec c (buf @ chunk) of
        None \<Rightarrow> None
      | Some (es, Some e, c', buf') \<Rightarrow> Some (es, Some e, c', buf')
      | Some (es, None, c', buf') \<Rightarrow>
          map_option (\<lambda>(es', r). (es @ es', r)) (feed dec c' buf' chunks))"

text \<open>Encode a list of envelopes into one buffer, stopping at the first error.\<close>

fun encode_all ::
  "('s wire_codec \<Rightarrow> envelope \<Rightarrow> bytes \<Rightarrow> ('x wire_error + unit) \<times> 's wire_codec \<times> bytes) \<Rightarrow>
   's wire_codec \<Rightarrow> envelope list \<Rightarrow> bytes \<Rightarrow> ('x wire_error + unit) \<times> 's wire_codec \<times> bytes" where
  "encode_all enc c [] dst = (Inr (), c, dst)"
| "encode_all enc c (e # es) dst =
     (case enc c e dst of
        (Inl x, c', dst') \<Rightarrow> (Inl x, c', dst')
      | (Inr _, c', dst') \<Rightarrow> encode_all enc c' es dst')"

section \<open>Splitting a stream at frame boundaries\<close>

lemma prefix_frames_split:
  assumes "prefix xs (concat (map frame_of ps))"
  shows "\<exists>qs rs part. ps = qs @ rs \<and> xs = concat (map frame_of qs) @ part
    \<and> (case rs of [] \<Rightarrow> part = [] | p # _ \<Rightarrow> strict_prefix part (frame_of p))"
  using assms
proof (induction ps arbitrary: xs)
  case Nil
  then show ?case by simp
next
  case (Cons p ps)
  show ?case
  proof (cases "strict_prefix xs (frame_of p)")
    case True
    then have "p # ps = [] @ (p # ps) \<and> xs = concat (map frame_of []) @ xs
      \<and> (case p # ps of [] \<Rightarrow> xs = [] | p # _ \<Rightarrow> strict_prefix xs (frame_of p))" by simp
    then show ?thesis by blast
  next
    case False
    then obtain ys where ys: "xs = frame_of p @ ys" "prefix ys (concat (map frame_of ps))"
      using Cons.prems by (auto simp: prefix_append strict_prefix_def)
    from Cons.IH [OF ys(2)] obtain qs rs part where
      "ps = qs @ rs" "ys = concat (map frame_of qs) @ part"
      "case rs of [] \<Rightarrow> part = [] | p # _ \<Rightarrow> strict_prefix part (frame_of p)"
      by blast
    then have "p # ps = (p # qs) @ rs \<and> xs = concat (map frame_of (p # qs)) @ part
      \<and> (case rs of [] \<Rightarrow> part = [] | p # _ \<Rightarrow> strict_prefix part (frame_of p))"
      using ys(1) by simp
    then show ?thesis by blast
  qed
qed

lemma strict_prefix_Nil_frame: "strict_prefix [] (frame_of p)"
  by (simp add: frame_of_def be32_def)

text \<open>The default cap is one the framing laws allow.\<close>

lemma default_cap_less: "DEFAULT_MAX_FRAME_LEN < 2 ^ 32"
  by (simp add: DEFAULT_MAX_FRAME_LEN_def)

section \<open>The laws of the codec from the laws of its two libraries\<close>

locale envelope_codec =
  bincode "\<lambda>_ (_ :: unit). True" encode_to_vec "\<lambda>_. decode_from_slice" +
  length_delimited new_codec frame_decode frame_encode max_frame held
  for encode_to_vec :: "envelope \<Rightarrow> 'x + bytes"
    and decode_from_slice :: "bytes \<Rightarrow> 'x + (envelope \<times> nat)"
    and new_codec :: "nat \<Rightarrow> 's"
    and frame_decode :: "'s \<Rightarrow> bytes \<Rightarrow> ('x + bytes option) \<times> 's \<times> bytes"
    and frame_encode :: "'s \<Rightarrow> bytes \<Rightarrow> bytes \<Rightarrow> ('x + unit) \<times> 's \<times> bytes"
    and max_frame :: "'s \<Rightarrow> nat"
    and held :: "'s \<Rightarrow> bytes"
begin

abbreviation "wdec \<equiv> wire_decode decode_from_slice frame_decode"
abbreviation "wenc \<equiv> wire_encode encode_to_vec frame_encode"

text \<open>The bytes still to be decoded, and the cap, of a codec with its buffer.\<close>

abbreviation "cap c \<equiv> max_frame (inner c)"
abbreviation "rest_of c buf \<equiv> held (inner c) @ buf"

text \<open>\<open>sends mx e p\<close>: the envelope \<open>e\<close> serialises to the body \<open>p\<close>, and the body is within the cap.\<close>

definition sends :: "nat \<Rightarrow> envelope \<Rightarrow> bytes \<Rightarrow> bool" where
  "sends mx e p \<longleftrightarrow> encode_to_vec e = Inr p \<and> length p \<le> mx"

lemma wire_new_codec:
  assumes "mx < 2 ^ 32"
  shows "cap (with_max_frame_length new_codec mx) = mx"
    and "held (inner (with_max_frame_length new_codec mx)) = []"
  using new_codec [OF assms] by (simp_all add: with_max_frame_length_def)

text \<open>A new codec with the default cap.\<close>

lemma wire_new_fresh:
  "cap (wire_new new_codec) = DEFAULT_MAX_FRAME_LEN" "held (inner (wire_new new_codec)) = []"
  using wire_new_codec [OF default_cap_less] by (simp_all add: wire_new_def)

lemma wire_new_cap: "cap (wire_new new_codec) < 2 ^ 32"
  unfolding wire_new_fresh by (rule default_cap_less)

lemma fresh_start:
  "case ps of [] \<Rightarrow> True | p # _ \<Rightarrow> strict_prefix (rest_of (wire_new new_codec) []) (frame_of p)"
  by (simp add: wire_new_fresh strict_prefix_Nil_frame split: list.split)

lemma wire_encode_ok:
  assumes "sends (cap c) e p"
  shows "\<exists>c'. wenc c e dst = (Inr (), c', dst @ frame_of p)
    \<and> cap c' = cap c \<and> held (inner c') = held (inner c)"
proof -
  from assms have enc: "encode_to_vec e = Inr p" and len: "length p \<le> cap c"
    by (simp_all add: sends_def)
  from encode_ok [OF len] obtain s' where "frame_encode (inner c) p dst = (Inr (), s', dst @ frame_of p)"
    "max_frame s' = cap c" "held s' = held (inner c)" by blast
  then show ?thesis by (intro exI [of _ "c\<lparr>inner := s'\<rparr>"]) (simp add: wire_encode_def enc)
qed

lemma wire_encode_too_big:
  assumes "encode_to_vec e = Inr p" and "cap c < length p"
  shows "\<exists>x c'. wenc c e dst = (Inl (Io x), c', dst)"
  using encode_too_big [OF assms(2), of dst] assms(1) by (auto simp: wire_encode_def)

lemma wire_decode_frame:
  assumes "rest_of c buf = frame_of p @ rest" "length p \<le> cap c" "cap c < 2 ^ 32"
    and "decode_from_slice p = Inr (e, n)"
  shows "\<exists>c' buf'. wdec c buf = (Inr (Some e), c', buf') \<and> cap c' = cap c \<and> rest_of c' buf' = rest"
proof -
  from decode_complete [OF assms(1-3)] obtain s' src' where
    "frame_decode (inner c) buf = (Inr (Some p), s', src')" "max_frame s' = cap c" "held s' @ src' = rest"
    by blast
  with assms(4) show ?thesis
    by (intro exI [of _ "c\<lparr>inner := s'\<rparr>"] exI [of _ src']) (simp add: wire_decode_def)
qed

lemma wire_decode_corrupt:
  assumes "rest_of c buf = frame_of p @ rest" "length p \<le> cap c" "cap c < 2 ^ 32"
    and "decode_from_slice p = Inl x"
  shows "\<exists>c' buf'. wdec c buf = (Inl (Decode x), c', buf')"
  using decode_complete [OF assms(1-3)] assms(4) by (auto simp: wire_decode_def)

lemma wire_decode_envelope:
  assumes "rest_of c buf = frame_of p @ rest" "sends (cap c) e p" "cap c < 2 ^ 32"
  shows "\<exists>c' buf'. wdec c buf = (Inr (Some e), c', buf') \<and> cap c' = cap c \<and> rest_of c' buf' = rest"
  using assms decode_encode_exact [where v = e and bs = p] by (intro wire_decode_frame) (auto simp: sends_def)

lemma wire_decode_incomplete:
  assumes "strict_prefix (rest_of c buf) (frame_of p)" "length p \<le> cap c" "cap c < 2 ^ 32"
  shows "\<exists>c' buf'. wdec c buf = (Inr None, c', buf') \<and> cap c' = cap c \<and> rest_of c' buf' = rest_of c buf"
proof -
  from decode_partial [OF assms] obtain s' src' where
    "frame_decode (inner c) buf = (Inr None, s', src')" "max_frame s' = cap c"
    "held s' @ src' = rest_of c buf" by blast
  then show ?thesis
    by (intro exI [of _ "c\<lparr>inner := s'\<rparr>"] exI [of _ src']) (simp add: wire_decode_def)
qed

lemma wire_decode_too_big:
  assumes "held (inner c) = []" "cap c < n" "n < 2 ^ 32"
  shows "\<exists>x c' buf'. wdec c (be32 n @ rest) = (Inl (Io x), c', buf')"
  using decode_too_big [OF assms(1) refl assms(2,3), of rest] by (auto simp: wire_decode_def)

text \<open>
  A buffer that starts with complete frames gives exactly their envelopes, then the codec asks for
  more and keeps the incomplete tail.
\<close>

lemma decode_all_frames:
  assumes "rest_of c buf = concat (map frame_of ps) @ part" "list_all2 (sends (cap c)) es ps"
    and "strict_prefix part (frame_of p)" "length p \<le> cap c" "cap c < 2 ^ 32"
  shows "\<exists>c' buf'. decode_all wdec c buf = Some (es, None, c', buf')
    \<and> cap c' = cap c \<and> rest_of c' buf' = part"
  using assms
proof (induction ps arbitrary: es c buf)
  case Nil
  then have "es = []" and "strict_prefix (rest_of c buf) (frame_of p)" by simp_all
  from wire_decode_incomplete [OF this(2) Nil.prems(4,5)] this(1) Nil.prems(1) show ?case
    by (subst decode_all.simps) force
next
  case (Cons q ps)
  then obtain e es' where es: "es = e # es'" "sends (cap c) e q" "list_all2 (sends (cap c)) es' ps"
    by (auto simp: list_all2_Cons2)
  from Cons.prems(1) have "rest_of c buf = frame_of q @ (concat (map frame_of ps) @ part)" by simp
  from wire_decode_envelope [OF this es(2) Cons.prems(5)] obtain c1 buf1 where
    step: "wdec c buf = (Inr (Some e), c1, buf1)" "cap c1 = cap c"
      "rest_of c1 buf1 = concat (map frame_of ps) @ part" by blast
  then obtain c' buf' where "decode_all wdec c1 buf1 = Some (es', None, c', buf')"
    "cap c' = cap c1" "rest_of c' buf' = part"
    using Cons.IH [of c1 buf1 es'] es(3) Cons.prems(3-5) by auto
  then show ?case using step by (subst decode_all.simps) (simp add: es(1))
qed

text \<open>
  Any fragmentation of a prefix of a stream of frames yields the envelopes whose frames are complete,
  in order, and keeps the rest of the bytes.
\<close>

lemma feed_prefix:
  assumes "prefix (rest_of c buf @ concat chunks) (concat (map frame_of ps))"
    and "list_all2 (sends (cap c)) es ps" "cap c < 2 ^ 32"
    and "case ps of [] \<Rightarrow> True | p # _ \<Rightarrow> strict_prefix (rest_of c buf) (frame_of p)"
  shows "\<exists>qs rs es1 c' buf'. ps = qs @ rs \<and> list_all2 (sends (cap c)) es1 qs \<and> prefix es1 es
    \<and> feed wdec c buf chunks = Some (es1, None, c', buf')
    \<and> concat (map frame_of qs) @ rest_of c' buf' = rest_of c buf @ concat chunks
    \<and> (case rs of [] \<Rightarrow> rest_of c' buf' = [] | p # _ \<Rightarrow> strict_prefix (rest_of c' buf') (frame_of p))"
  using assms
proof (induction chunks arbitrary: es ps c buf)
  case Nil
  then show ?case
    by (intro exI [of _ "[]"] exI [of _ ps] exI [of _ c] exI [of _ buf]) (auto split: list.splits)
next
  case (Cons chunk chunks)
  have "prefix (rest_of c (buf @ chunk)) (concat (map frame_of ps))"
    using Cons.prems(1) by (auto intro: prefix_order.trans [of _ "rest_of c buf @ concat (chunk # chunks)"])
  from prefix_frames_split [OF this] obtain qs rs part where split:
    "ps = qs @ rs" "rest_of c (buf @ chunk) = concat (map frame_of qs) @ part"
    "case rs of [] \<Rightarrow> part = [] | p # _ \<Rightarrow> strict_prefix part (frame_of p)" by blast
  from Cons.prems(2) split(1) obtain es1 es2 where es:
    "es = es1 @ es2" "list_all2 (sends (cap c)) es1 qs" "list_all2 (sends (cap c)) es2 rs"
    by (auto simp: list_all2_append2)
  obtain p where p: "strict_prefix part (frame_of p)" "length p \<le> cap c"
  proof (cases rs)
    case Nil
    then show ?thesis using that [of "[]"] split(3) strict_prefix_Nil_frame by simp
  next
    case (Cons p rs')
    then show ?thesis using that [of p] split(3) es(3) by (auto simp: list_all2_Cons2 sends_def)
  qed
  from decode_all_frames [OF split(2) es(2) p Cons.prems(3)] obtain c1 buf1 where step:
    "decode_all wdec c (buf @ chunk) = Some (es1, None, c1, buf1)" "cap c1 = cap c" "rest_of c1 buf1 = part"
    by blast
  have stream: "rest_of c buf @ concat (chunk # chunks) = concat (map frame_of qs) @ part @ concat chunks"
    using split(2) by simp
  have "prefix (rest_of c1 buf1 @ concat chunks) (concat (map frame_of rs))"
    using Cons.prems(1) unfolding stream by (simp add: step(3) split(1))
  moreover have "case rs of [] \<Rightarrow> True | p # _ \<Rightarrow> strict_prefix (rest_of c1 buf1) (frame_of p)"
    using split(3) by (simp add: step(3) split: list.splits)
  ultimately obtain qs' rs' es1' c' buf' where rec: "rs = qs' @ rs'" "list_all2 (sends (cap c)) es1' qs'"
    "prefix es1' es2" "feed wdec c1 buf1 chunks = Some (es1', None, c', buf')"
    "concat (map frame_of qs') @ rest_of c' buf' = part @ concat chunks"
    "case rs' of [] \<Rightarrow> rest_of c' buf' = [] | p # _ \<Rightarrow> strict_prefix (rest_of c' buf') (frame_of p)"
    using Cons.IH [of c1 buf1 rs es2] es(3) Cons.prems(3) unfolding step(2,3) by blast
  show ?case
  proof (intro exI conjI)
    show "ps = (qs @ qs') @ rs'" by (simp add: split(1) rec(1))
    show "list_all2 (sends (cap c)) (es1 @ es1') (qs @ qs')" using es(2) rec(2) by (rule list_all2_appendI)
    show "feed wdec c buf (chunk # chunks) = Some (es1 @ es1', None, c', buf')"
      by (simp add: step(1) rec(4))
    show "concat (map frame_of (qs @ qs')) @ rest_of c' buf' = rest_of c buf @ concat (chunk # chunks)"
      unfolding stream by (simp add: rec(5) [symmetric])
  qed (use es(1) rec(3,6) in simp_all)
qed

text \<open>When the whole stream has arrived, nothing is left.\<close>

lemma feed_frames:
  assumes "rest_of c buf @ concat chunks = concat (map frame_of ps)"
    and "list_all2 (sends (cap c)) es ps" "cap c < 2 ^ 32"
    and "case ps of [] \<Rightarrow> True | p # _ \<Rightarrow> strict_prefix (rest_of c buf) (frame_of p)"
  shows "\<exists>c' buf'. feed wdec c buf chunks = Some (es, None, c', buf') \<and> rest_of c' buf' = []"
proof -
  have "prefix (rest_of c buf @ concat chunks) (concat (map frame_of ps))" unfolding assms(1) ..
  from feed_prefix [OF this assms(2-4)] obtain qs rs es1 c' buf' where *:
    "ps = qs @ rs" "list_all2 (sends (cap c)) es1 qs" "prefix es1 es"
    "feed wdec c buf chunks = Some (es1, None, c', buf')"
    "concat (map frame_of qs) @ rest_of c' buf' = concat (map frame_of ps)"
    "case rs of [] \<Rightarrow> rest_of c' buf' = [] | p # _ \<Rightarrow> strict_prefix (rest_of c' buf') (frame_of p)"
    unfolding assms(1) by blast
  from *(1,5) have tail: "rest_of c' buf' = concat (map frame_of rs)" by simp
  have "rs = []"
  proof (cases rs)
    case (Cons p rs')
    with *(6) tail show ?thesis
      by (auto simp: strict_prefix_def prefix_def)
  qed
  moreover from this *(1-3) assms(2) have "es1 = es"
    by (auto dest!: list_all2_lengthD simp: prefix_def)
  ultimately show ?thesis using *(4) tail by simp
qed

lemma wire_encode_InrD:
  assumes "wenc c e dst = (Inr (), c', dst')"
  shows "\<exists>p. sends (cap c) e p \<and> dst' = dst @ frame_of p \<and> cap c' = cap c"
proof -
  from assms obtain p where p: "encode_to_vec e = Inr p"
    by (auto simp: wire_encode_def split: sum.splits)
  have "length p \<le> cap c"
    using assms wire_encode_too_big [OF p, of c dst] by (cases "length p \<le> cap c") auto
  with p have "sends (cap c) e p" by (simp add: sends_def)
  with wire_encode_ok [OF this, of dst] assms show ?thesis by auto
qed

lemma encode_all_InrD:
  "encode_all wenc c es dst = (Inr (), c', bytes) \<Longrightarrow>
   \<exists>ps. list_all2 (sends (cap c)) es ps \<and> bytes = dst @ concat (map frame_of ps)"
proof (induction es arbitrary: c dst)
  case Nil
  then show ?case by simp
next
  case (Cons e es)
  from Cons.prems obtain c1 dst1 where step: "wenc c e dst = (Inr (), c1, dst1)"
    "encode_all wenc c1 es dst1 = (Inr (), c', bytes)"
    by (auto split: prod.splits sum.splits)
  from wire_encode_InrD [OF step(1)] obtain p where p: "sends (cap c) e p" "dst1 = dst @ frame_of p" "cap c1 = cap c"
    by blast
  from Cons.IH [OF step(2)] obtain ps where "list_all2 (sends (cap c)) es ps" "bytes = dst1 @ concat (map frame_of ps)"
    unfolding p(3) by blast
  with p show ?case by (intro exI [of _ "p # ps"]) simp
qed

lemma encode_all_frames:
  assumes "list_all2 (sends (cap c)) es ps"
  shows "\<exists>c'. encode_all wenc c es dst = (Inr (), c', dst @ concat (map frame_of ps))"
  using assms
proof (induction es arbitrary: c dst ps)
  case Nil
  then show ?case by simp
next
  case (Cons e es)
  then obtain p ps' where ps: "ps = p # ps'" "sends (cap c) e p" "list_all2 (sends (cap c)) es ps'"
    by (auto simp: list_all2_Cons1)
  from wire_encode_ok [OF ps(2), of dst] obtain c1 where
    "wenc c e dst = (Inr (), c1, dst @ frame_of p)" "cap c1 = cap c" by blast
  moreover from this Cons.IH [of c1 ps' "dst @ frame_of p"] ps(3) obtain c' where
    "encode_all wenc c1 es (dst @ frame_of p) = (Inr (), c', (dst @ frame_of p) @ concat (map frame_of ps'))"
    by auto
  ultimately show ?case by (simp add: ps(1))
qed

end

end
