(* ===== verification/Wire_Layout.thy ===== *)
theory Wire_Layout
  imports Codec
begin

text \<open>
  A concrete instance of the two library interfaces that follows the documented byte layout
  (\<^verbatim>\<open>DESIGN.md\<close> section 4.1 and the head of \<^verbatim>\<open>codec.rs\<close>): a 4-byte big-endian length prefix,
  and little-endian variable-length integers in the body, with the enum tag first. It shows that the
  laws of the codec can hold together, and lets the unit tests of \<^verbatim>\<open>codec.rs\<close> be evaluated. It is
  not a model of the libraries' code: strings are byte strings here and are not checked for UTF-8.
\<close>

section \<open>Framing\<close>

datatype decode_state = Head | Data "32 word"

record framing =
  fr_state :: decode_state
  fr_max :: nat

definition ref_new_codec :: "nat \<Rightarrow> framing" where
  "ref_new_codec mx = \<lparr>fr_state = Head, fr_max = mx\<rparr>"

definition ref_body :: "32 word \<Rightarrow> framing \<Rightarrow> bytes \<Rightarrow> (string + bytes option) \<times> framing \<times> bytes" where
  "ref_body n s src =
     (if length src < unat n then (Inr None, s\<lparr>fr_state := Data n\<rparr>, src)
      else (Inr (Some (take (unat n) src)), s\<lparr>fr_state := Head\<rparr>, drop (unat n) src))"

definition ref_frame_decode :: "framing \<Rightarrow> bytes \<Rightarrow> (string + bytes option) \<times> framing \<times> bytes" where
  "ref_frame_decode s src =
     (case fr_state s of
        Data n \<Rightarrow> ref_body n s src
      | Head \<Rightarrow>
          if length src < 4 then (Inr None, s, src)
          else if fr_max s < be32_value (take 4 src) then (Inl ''frame size too big'', s, src)
          else ref_body (word_of_nat (be32_value (take 4 src))) s (drop 4 src))"

definition ref_frame_encode :: "framing \<Rightarrow> bytes \<Rightarrow> bytes \<Rightarrow> (string + unit) \<times> framing \<times> bytes" where
  "ref_frame_encode s p dst =
     (if fr_max s < length p then (Inl ''frame size too big'', s, dst)
      else (Inr (), s, dst @ frame_of p))"

definition ref_held :: "framing \<Rightarrow> bytes" where
  "ref_held s = (case fr_state s of Head \<Rightarrow> [] | Data n \<Rightarrow> be32 (unat n))"

lemma be32_unat_inject: "be32 (unat (m :: 32 word)) = be32 n \<Longrightarrow> n < 2 ^ 32 \<Longrightarrow> n = unat m"
  using be32_inject [of "unat m" n] unat_u32_less [of m] by simp

lemma ref_body_complete: "length p = unat n \<Longrightarrow>
    ref_body n s (p @ rest) = (Inr (Some p), s\<lparr>fr_state := Head\<rparr>, rest)"
  by (simp add: ref_body_def)

lemma unat_of_nat32: "n < 2 ^ 32 \<Longrightarrow> unat (word_of_nat n :: 32 word) = n"
  by (simp add: unat_of_nat)

lemma ref_decode_complete:
  assumes "ref_held s @ src = frame_of p @ rest" "length p \<le> fr_max s" "fr_max s < 2 ^ 32"
  shows "ref_frame_decode s src = (Inr (Some p), s\<lparr>fr_state := Head\<rparr>, rest)"
proof (cases "fr_state s")
  case Head
  with assms show ?thesis
    by (simp add: ref_held_def frame_of_def ref_frame_decode_def be32_value_be32 unat_of_nat32
        ref_body_complete)
next
  case (Data n)
  with assms(1) have "be32 (unat n) = be32 (length p)" and "src = p @ rest"
    by (simp_all add: ref_held_def frame_of_def)
  then show ?thesis
    using be32_unat_inject [of n "length p"] assms(2,3) Data
    by (simp add: ref_frame_decode_def ref_body_complete)
qed

lemma strict_prefix_length: "strict_prefix xs ys \<Longrightarrow> length xs < length ys"
  by (auto simp: strict_prefix_def prefix_def)

lemma ref_body_partial:
  "length src < unat n \<Longrightarrow> ref_body n s src = (Inr None, s\<lparr>fr_state := Data n\<rparr>, src)"
  by (simp add: ref_body_def)

lemma ref_decode_partial:
  assumes "strict_prefix (ref_held s @ src) (frame_of p)" "length p \<le> fr_max s" "fr_max s < 2 ^ 32"
  shows "\<exists>s' src'. ref_frame_decode s src = (Inr None, s', src')
    \<and> fr_max s' = fr_max s \<and> ref_held s' @ src' = ref_held s @ src"
proof (cases "fr_state s")
  case Head
  show ?thesis
  proof (cases "length src < 4")
    case True
    with Head show ?thesis by (simp add: ref_frame_decode_def ref_held_def)
  next
    case False
    with Head assms(1) obtain us where us: "src = be32 (length p) @ us" "strict_prefix us p"
      using strict_prefix_append_cases [of src "be32 (length p)" p]
        strict_prefix_length [of src "be32 (length p)"]
      by (auto simp: ref_held_def frame_of_def)
    with Head assms(2,3) strict_prefix_length [OF us(2)] show ?thesis
      by (simp add: ref_frame_decode_def be32_value_be32 unat_of_nat32 ref_body_partial ref_held_def)
  qed
next
  case (Data n)
  with assms(1) have hd4: "be32 (unat n) = be32 (length p)" "strict_prefix src p"
    by (auto simp: ref_held_def frame_of_def strict_prefix_def prefix_def)
  with be32_unat_inject [of n "length p"] assms(2,3) Data strict_prefix_length [OF hd4(2)]
  show ?thesis by (simp add: ref_frame_decode_def ref_body_partial ref_held_def)
qed

lemma ref_length_delimited:
  "length_delimited ref_new_codec ref_frame_decode ref_frame_encode fr_max ref_held"
proof
  fix m :: nat assume "m < 2 ^ 32"
  then show "fr_max (ref_new_codec m) = m \<and> ref_held (ref_new_codec m) = []"
    by (simp add: ref_new_codec_def ref_held_def)
next
  fix s :: framing and p dst :: bytes assume "length p \<le> fr_max s"
  then show "\<exists>s'. ref_frame_encode s p dst = (Inr (), s', dst @ frame_of p)
      \<and> fr_max s' = fr_max s \<and> ref_held s' = ref_held s"
    by (simp add: ref_frame_encode_def)
next
  fix s :: framing and p dst :: bytes assume "fr_max s < length p"
  then show "\<exists>x s'. ref_frame_encode s p dst = (Inl x, s', dst)
      \<and> fr_max s' = fr_max s \<and> ref_held s' = ref_held s"
    by (simp add: ref_frame_encode_def)
next
  fix s src p rest
  assume "ref_held s @ src = frame_of p @ rest" "length p \<le> fr_max s" "fr_max s < 2 ^ 32"
  from ref_decode_complete [OF this]
  show "\<exists>s' src'. ref_frame_decode s src = (Inr (Some p), s', src')
      \<and> fr_max s' = fr_max s \<and> ref_held s' @ src' = rest"
    by (simp add: ref_held_def)
next
  fix s src n rest
  assume "ref_held s = []" "src = be32 n @ rest" "fr_max s < n" "n < 2 ^ 32"
  then show "\<exists>x s' src'. ref_frame_decode s src = (Inl x, s', src')"
    by (auto simp: ref_frame_decode_def ref_held_def be32_value_be32 split: decode_state.splits)
qed (rule ref_decode_partial)

section \<open>Integers, strings and byte vectors\<close>

fun le_bytes :: "nat \<Rightarrow> nat \<Rightarrow> bytes" where
  "le_bytes 0 n = []"
| "le_bytes (Suc k) n = word_of_nat n # le_bytes k (n div 256)"

fun le_value :: "bytes \<Rightarrow> nat" where
  "le_value [] = 0"
| "le_value (b # bs) = unat b + 256 * le_value bs"

lemma length_le_bytes [simp]: "length (le_bytes k n) = k"
  by (induction k arbitrary: n) simp_all

lemma le_value_le_bytes: "n < 256 ^ k \<Longrightarrow> le_value (le_bytes k n) = n"
  by (induction k arbitrary: n) (simp_all add: unat_u8_of_nat less_mult_imp_div_less mult.commute)

type_synonym 'a parser = "bytes \<Rightarrow> string + ('a \<times> bytes)"

definition take_bytes :: "nat \<Rightarrow> bytes parser" where
  "take_bytes n bs =
     (if length bs < n then Inl ''unexpected end'' else Inr (take n bs, drop n bs))"

definition put_varint :: "nat \<Rightarrow> bytes" where
  "put_varint n =
     (if n < 251 then [word_of_nat n] else if n < 256 ^ 2 then 251 # le_bytes 2 n
      else if n < 256 ^ 4 then 252 # le_bytes 4 n else 253 # le_bytes 8 n)"

lemma length_put_varint: "length (put_varint n) \<le> 9"
  by (simp add: put_varint_def)

text \<open>\<open>width\<close> is the size of the integer type being read; a wider tag is an error.\<close>

fun get_varint :: "nat \<Rightarrow> nat parser" where
  "get_varint width [] = Inl ''unexpected end''"
| "get_varint width (b # bs) =
     (let read = (\<lambda>k. if width < k then Inl ''integer too wide''
                      else and_then (take_bytes k bs) (\<lambda>(v, r). Inr (le_value v, r)))
      in if b < 251 then Inr (unat b, bs)
         else if b = 251 then read 2 else if b = 252 then read 4 else if b = 253 then read 8
         else Inl ''invalid integer tag'')"

lemma take_bytes_append [simp]: "length xs = n \<Longrightarrow> take_bytes n (xs @ rest) = Inr (xs, rest)"
  by (simp add: take_bytes_def)

lemma word_of_nat_less_251: "n < 251 \<Longrightarrow> (word_of_nat n :: u8) < 251"
  by (simp add: word_less_nat_alt unat_u8_of_nat)

lemma get_put_varint:
  assumes "n < 256 ^ width" "width = 2 \<or> width = 4 \<or> width = 8"
  shows "get_varint width (put_varint n @ rest) = Inr (n, rest)"
proof -
  consider "n < 251" | "251 \<le> n" "n < 256 ^ 2" | "256 ^ 2 \<le> n" "n < 256 ^ 4" | "256 ^ 4 \<le> n" "n < 256 ^ 8"
    using assms by fastforce
  then show ?thesis
  proof cases
    case 1
    then show ?thesis by (simp add: put_varint_def word_of_nat_less_251 unat_u8_of_nat)
  next
    case 2
    then show ?thesis using assms(2) le_value_le_bytes [of n 2] by (auto simp: put_varint_def)
  next
    case 3
    then have "width \<noteq> 2" using assms(1) by auto
    with 3 show ?thesis using assms(2) le_value_le_bytes [of n 4] by (auto simp: put_varint_def)
  next
    case 4
    then have "width = 8" using assms by auto
    with 4 show ?thesis using le_value_le_bytes [of n 8] by (auto simp: put_varint_def)
  qed
qed

definition byte_of_char :: "char \<Rightarrow> u8" where
  "byte_of_char c = word_of_nat (of_char c)"

definition char_of_byte :: "u8 \<Rightarrow> char" where
  "char_of_byte b = char_of (unat b)"

lemma char_of_byte_of_char [simp]: "char_of_byte (byte_of_char c) = c"
  by (simp add: char_of_byte_def byte_of_char_def unat_u8_of_nat)

definition put_vec :: "bytes \<Rightarrow> bytes" where
  "put_vec v = put_varint (length v) @ v"

definition get_vec :: "bytes parser" where
  "get_vec bs = and_then (get_varint 8 bs) (\<lambda>(n, r). take_bytes n r)"

lemma get_put_vec: "length v < 256 ^ 8 \<Longrightarrow> get_vec (put_vec v @ rest) = Inr (v, rest)"
  by (simp add: get_vec_def put_vec_def get_put_varint)

section \<open>Envelopes\<close>

fun put_envelope :: "envelope \<Rightarrow> bytes" where
  "put_envelope (Request q) =
     0 # put_varint (unat (rq_id q)) @ put_vec (map byte_of_char (rq_method q)) @ put_vec (rq_payload q)"
| "put_envelope (Response r) = 1 # put_varint (unat (rs_id r)) @ put_vec (rs_payload r)"
| "put_envelope (Error e) =
     2 # put_varint (unat (er_id e)) @ put_varint (unat (er_code e)) @ put_vec (map byte_of_char (er_message e))"
| "put_envelope Heartbeat = [3]"

definition get_u64 :: "u64 parser" where
  "get_u64 bs = and_then (get_varint 8 bs) (\<lambda>(n, r). Inr (word_of_nat n, r))"

definition get_u16 :: "u16 parser" where
  "get_u16 bs = and_then (get_varint 2 bs) (\<lambda>(n, r). Inr (word_of_nat n, r))"

definition get_string :: "string parser" where
  "get_string bs = and_then (get_vec bs) (\<lambda>(v, r). Inr (map char_of_byte v, r))"

definition get_envelope :: "envelope parser" where
  "get_envelope bs = and_then (get_varint 4 bs) (\<lambda>(tag, r).
     if tag = 0 then and_then (get_u64 r) (\<lambda>(i, r). and_then (get_string r) (\<lambda>(m, r).
       and_then (get_vec r) (\<lambda>(p, r). Inr (Request \<lparr>rq_id = i, rq_method = m, rq_payload = p\<rparr>, r))))
     else if tag = 1 then and_then (get_u64 r) (\<lambda>(i, r).
       and_then (get_vec r) (\<lambda>(p, r). Inr (Response \<lparr>rs_id = i, rs_payload = p\<rparr>, r)))
     else if tag = 2 then and_then (get_u64 r) (\<lambda>(i, r). and_then (get_u16 r) (\<lambda>(c, r).
       and_then (get_string r) (\<lambda>(m, r). Inr (Error \<lparr>er_id = i, er_code = c, er_message = m\<rparr>, r))))
     else if tag = 3 then Inr (Heartbeat, r)
     else Inl ''invalid variant'')"

fun fits :: "envelope \<Rightarrow> bool" where
  "fits (Request q) = (length (rq_method q) < 256 ^ 8 \<and> length (rq_payload q) < 256 ^ 8)"
| "fits (Response r) = (length (rs_payload r) < 256 ^ 8)"
| "fits (Error e) = (length (er_message e) < 256 ^ 8)"
| "fits Heartbeat = True"

lemma get_u64_put: "get_u64 (put_varint (unat (i :: u64)) @ rest) = Inr (i, rest)"
  using unat_u64_less [of i] by (simp add: get_u64_def get_put_varint)

lemma get_u16_put: "get_u16 (put_varint (unat (c :: u16)) @ rest) = Inr (c, rest)"
  using unat_u16_less [of c] by (simp add: get_u16_def get_put_varint)

lemma get_string_put:
  "length s < 256 ^ 8 \<Longrightarrow> get_string (put_vec (map byte_of_char s) @ rest) = Inr (s, rest)"
  by (simp add: get_string_def get_put_vec comp_def)

lemma get_put_envelope: "fits e \<Longrightarrow> get_envelope (put_envelope e @ rest) = Inr (e, rest)"
  by (cases e) (simp_all add: get_envelope_def get_u64_put get_u16_put get_string_put get_put_vec)

definition ref_encode :: "envelope \<Rightarrow> string + bytes" where
  "ref_encode e = (if fits e then Inr (put_envelope e) else Inl ''length overflow'')"

definition ref_decode :: "bytes \<Rightarrow> string + (envelope \<times> nat)" where
  "ref_decode bs = and_then (get_envelope bs) (\<lambda>(e, r). Inr (e, length bs - length r))"

lemma ref_bincode: "bincode (\<lambda>_ (_ :: unit). True) ref_encode (\<lambda>_. ref_decode)"
  by unfold_locales (auto simp: ref_encode_def ref_decode_def get_put_envelope split: if_splits)

interpretation ref: envelope_codec
  ref_encode ref_decode ref_new_codec ref_frame_decode ref_frame_encode fr_max ref_held
  by (intro envelope_codec.intro ref_bincode ref_length_delimited)

lemma ref_envelope_codec:
  "envelope_codec ref_encode ref_decode ref_new_codec ref_frame_decode ref_frame_encode fr_max ref_held"
  by (rule ref.envelope_codec_axioms)

end
