(* ===== verification/Codec_Props.thy ===== *)
theory Codec_Props
  imports Wire_Layout
begin

text \<open>
  The properties of the wire codec, for every \<open>bincode\<close> and every framing codec that keep the laws of
  the locale \<open>envelope_codec\<close>. The witnesses evaluate them on the reference instance of the theory
  \<open>Wire_Layout\<close>, which interprets that locale.
\<close>

section \<open>Round trip\<close>

text \<open>
  C18. Round trip under any fragmentation. Envelopes that serialise within the frame cap are encoded
  without an error, and however the resulting bytes are cut into chunks on their way, a decoder that
  reads after each chunk yields exactly these envelopes in order, without an error and with nothing
  left over.
\<close>

theorem stream_roundtrip:
  assumes "envelope_codec enc dec new_codec fdec fenc max_frame held"
    and "mx < 2 ^ 32" and "list_all2 (\<lambda>e p. enc e = Inr p \<and> length p \<le> mx) es ps"
  shows "\<exists>c bytes. encode_all (wire_encode enc fenc) (with_max_frame_length new_codec mx) es [] = (Inr (), c, bytes)
    \<and> (\<forall>chunks. concat chunks = bytes \<longrightarrow>
        (\<exists>c' buf. feed (wire_decode dec fdec) (with_max_frame_length new_codec mx) [] chunks = Some (es, None, c', buf)
          \<and> held (inner c') @ buf = []))"
proof -
  let ?c = "with_max_frame_length new_codec mx"
  note fresh = envelope_codec.wire_new_codec [OF assms(1,2)]
  have sends: "list_all2 (envelope_codec.sends enc (max_frame (inner ?c))) es ps"
    using assms(3) by (rule list_all2_mono) (simp add: envelope_codec.sends_def [OF assms(1)] fresh)
  from envelope_codec.encode_all_frames [OF assms(1) sends, of "[]"] obtain c where
    "encode_all (wire_encode enc fenc) ?c es [] = (Inr (), c, concat (map frame_of ps))" by auto
  moreover have "\<exists>c' buf. feed (wire_decode dec fdec) ?c [] chunks = Some (es, None, c', buf)
      \<and> held (inner c') @ buf = []"
    if "concat chunks = concat (map frame_of ps)" for chunks
    using that assms(2) sends
    by (intro envelope_codec.feed_frames [OF assms(1)])
      (auto simp: fresh strict_prefix_Nil_frame split: list.splits)
  ultimately show ?thesis by blast
qed

theorem stream_roundtrip_witness:
  "\<exists>c bytes. encode_all (wire_encode ref_encode ref_frame_encode) (with_max_frame_length ref_new_codec 8)
       [Heartbeat, Response \<lparr>rs_id = 300, rs_payload = [5]\<rparr>] [] = (Inr (), c, bytes)"
  using stream_roundtrip [OF ref_envelope_codec, of 8 "[Heartbeat, Response \<lparr>rs_id = 300, rs_payload = [5]\<rparr>]"
      "[put_envelope Heartbeat, put_envelope (Response \<lparr>rs_id = 300, rs_payload = [5]\<rparr>)]"]
  by (auto simp: ref_encode_def put_varint_def put_vec_def)

section \<open>Encoding\<close>

text \<open>
  Encoding is all or nothing. A serialisation failure is an encode error, a body above the cap is
  an I/O error, and both leave the output buffer as it was; otherwise the big-endian length prefix and
  the body are appended.
\<close>

lemma encode_all_or_nothing:
  assumes "envelope_codec enc dec new_codec fdec fenc max_frame held"
  shows "case enc e of
      Inl x \<Rightarrow> wire_encode enc fenc c e dst = (Inl (Encode x), c, dst)
    | Inr p \<Rightarrow> \<exists>c'.
        if length p \<le> max_frame (inner c)
        then wire_encode enc fenc c e dst = (Inr (), c', dst @ be32 (length p) @ p)
        else \<exists>x. wire_encode enc fenc c e dst = (Inl (Io x), c', dst)"
proof (cases "enc e")
  case (Inl x)
  then show ?thesis by (simp add: wire_encode_def)
next
  case (Inr p)
  show ?thesis
  proof (cases "length p \<le> max_frame (inner c)")
    case True
    with Inr envelope_codec.wire_encode_ok [OF assms, of c e p dst] show ?thesis
      by (auto simp: envelope_codec.sends_def [OF assms] frame_of_def)
  next
    case False
    with Inr envelope_codec.wire_encode_too_big [OF assms, of e p c dst] show ?thesis by auto
  qed
qed

section \<open>Decoding\<close>

text \<open>
  A partial frame is not an error. Whatever proper part of a frame has arrived, even less than
  the length prefix, decoding asks for more bytes and the stream still to be decoded is unchanged.
\<close>

lemma partial_frame_waits:
  assumes "envelope_codec enc dec new_codec fdec fenc max_frame held"
    and "strict_prefix (held (inner c) @ buf) (be32 (length p) @ p)"
    and "length p \<le> max_frame (inner c)" and "max_frame (inner c) < 2 ^ 32"
  shows "\<exists>c' buf'. wire_decode dec fdec c buf = (Inr None, c', buf')
    \<and> held (inner c') @ buf' = held (inner c) @ buf"
  using envelope_codec.wire_decode_incomplete [OF assms(1), of c buf p] assms(2-4)
  by (auto simp: frame_of_def)

text \<open>
  C29. Rejections. A length prefix above the decoder's cap is an I/O error before any of the body is
  looked at, so a sender with a larger cap is cut off by its receiver; a complete frame whose body does not
  decode is a decode error with the library's error.
\<close>

theorem decode_rejects:
  assumes "envelope_codec enc dec new_codec fdec fenc max_frame held"
    and "mx < n" and "n < 2 ^ 32" and "dec p = Inl x" and "length p \<le> mx"
  shows "(\<exists>y c' buf'. wire_decode dec fdec (with_max_frame_length new_codec mx) (be32 n @ rest) = (Inl (Io y), c', buf'))
    \<and> (\<exists>c' buf'. wire_decode dec fdec (with_max_frame_length new_codec mx) (be32 (length p) @ p @ rest)
        = (Inl (Decode x), c', buf'))"
proof -
  let ?c = "with_max_frame_length new_codec mx"
  have mx: "mx < 2 ^ 32" using assms(2,3) by simp
  note fresh = envelope_codec.wire_new_codec [OF assms(1) mx]
  have "\<exists>y c' buf'. wire_decode dec fdec ?c (be32 n @ rest) = (Inl (Io y), c', buf')"
    using assms(2,3) by (intro envelope_codec.wire_decode_too_big [OF assms(1)]) (simp_all add: fresh)
  moreover have "\<exists>c' buf'. wire_decode dec fdec ?c (be32 (length p) @ p @ rest) = (Inl (Decode x), c', buf')"
    using assms(4,5) mx
    by (intro envelope_codec.wire_decode_corrupt [OF assms(1), of _ _ p rest]) (simp_all add: fresh frame_of_def)
  ultimately show ?thesis ..
qed

theorem decode_rejects_witness:
  "(\<exists>y c' buf'. wire_decode ref_decode ref_frame_decode (with_max_frame_length ref_new_codec 16) (be32 17 @ [])
      = (Inl (Io y), c', buf'))
   \<and> (\<exists>c' buf'. wire_decode ref_decode ref_frame_decode (with_max_frame_length ref_new_codec 16)
        (be32 (length [7 :: u8]) @ [7] @ []) = (Inl (Decode ''invalid variant''), c', buf'))"
  by (rule decode_rejects [OF ref_envelope_codec])
    (simp_all add: ref_decode_def get_envelope_def)

text \<open>
  Bytes behind an envelope inside its frame are dropped without a word: the count of bytes
  \<open>bincode\<close> consumed is not compared with the length of the frame, so the frame decodes to the
  envelope and decoding goes on behind the frame.
\<close>

lemma trailing_bytes_ignored:
  assumes "envelope_codec enc dec new_codec fdec fenc max_frame held"
    and "enc e = Inr p" and "length (p @ junk) \<le> mx" and "mx < 2 ^ 32"
  shows "\<exists>c' buf'. wire_decode dec fdec (with_max_frame_length new_codec mx)
      (be32 (length (p @ junk)) @ (p @ junk) @ rest) = (Inr (Some e), c', buf') \<and> held (inner c') @ buf' = rest"
proof -
  note fresh = envelope_codec.wire_new_codec [OF assms(1,4)]
  have "bincode (\<lambda>_ (_ :: unit). True) enc (\<lambda>_. dec)"
    using assms(1) by (simp add: envelope_codec_def)
  from bincode.decode_encode [OF this, where v = e and bs = p and rest = junk] assms(2)
  have "dec (p @ junk) = Inr (e, length p)" by simp
  from envelope_codec.wire_decode_frame [OF assms(1) _ _ _ this, of "with_max_frame_length new_codec mx" _ rest]
  show ?thesis using assms(3,4) by (auto simp: fresh frame_of_def)
qed

lemma trailing_bytes_ignored_witness:
  "\<exists>c' buf'. wire_decode ref_decode ref_frame_decode (with_max_frame_length ref_new_codec 8)
      (be32 (length ([3] @ [255, 255 :: u8])) @ ([3] @ [255, 255]) @ []) = (Inr (Some Heartbeat), c', buf')
    \<and> ref_held (inner c') @ buf' = []"
  by (rule trailing_bytes_ignored [OF ref_envelope_codec]) (simp_all add: ref_encode_def)

end
