(* ===== verification/Macro_Model.thy ===== *)
theory Macro_Model
  imports Patina_Prelude
begin

text \<open>
  Parsing and validation of the annotated trait: \<^verbatim>\<open>crates/patina-macros/src/model.rs\<close>. The syntax
  trees are those of \<open>syn\<close> as far as the macro reads, copies or drops a part of them; a part it
  only copies is its token text. \<open>parse2\<close>, which turns tokens into an item or fails at a span, is
  \<open>syn\<close>'s and a parameter. A diagnostic is the syntax node it underlines and its message.
\<close>

section \<open>Syntax trees\<close>

type_synonym ident = string
type_synonym tokens = string

datatype ty =
    Type_Path "ty option" "path_segment list"
  | Type_Reference ty
  | Type_Tuple "ty list"
  | Type_Other tokens
and path_segment = Path_Segment (seg_ident: ident) (seg_args: path_arguments)
and path_arguments =
    Args_None
  | Angle_Bracketed "generic_argument list"
  | Parenthesized "ty list" "ty option"
and generic_argument =
    Arg_Type ty
  | Arg_Lifetime ident
  | Arg_Other tokens

datatype return_type = Return_Default | Return_Type ty

record receiver =
  rv_reference :: "ident option option"
  rv_mutability :: bool
  rv_type :: "tokens option"

record pat_ident =
  pi_by_ref :: bool
  pi_mutability :: bool
  pi_ident :: ident
  pi_subpat :: "tokens option"

datatype pat = Pat_Ident pat_ident | Pat_Other tokens

datatype fn_arg = Receiver receiver | Typed pat ty

record generics =
  gn_params :: "tokens list"
  gn_where :: "tokens option"

record signature =
  sig_asyncness :: bool
  sig_ident :: ident
  sig_generics :: generics
  sig_inputs :: "fn_arg list"
  sig_output :: return_type

record trait_item_fn =
  tf_attrs :: "tokens list"
  tf_sig :: signature
  tf_default :: "tokens option"

datatype trait_item = Item_Fn trait_item_fn | Item_Other tokens

record item_trait =
  it_attrs :: "tokens list"
  it_vis :: tokens
  it_ident :: ident
  it_generics :: generics
  it_supertraits :: "tokens list"
  it_items :: "trait_item list"

section \<open>Diagnostics\<close>

datatype 'sp node =
    At_Span 'sp
  | At_Generics generics
  | At_Trait_Item tokens
  | At_Fn_Token ident
  | At_Method trait_item_fn
  | At_Receiver receiver
  | At_Signature signature
  | At_Pattern pat
  | At_Output return_type
  | At_Type ty
  | At_Ident ident
  | At_Segment path_segment
  | At_Generic_Args "generic_argument list"

record 'sp syn_error =
  se_node :: "'sp node"
  se_message :: string

definition new_spanned :: "'sp node \<Rightarrow> string \<Rightarrow> 'sp syn_error" where
  "new_spanned n msg = \<lparr>se_node = n, se_message = msg\<rparr>"

section \<open>The validated model\<close>

record method_arg =
  arg_name :: ident
  arg_ty :: ty

record rpc_method =
  m_ident :: ident
  m_args :: "method_arg list"
  m_ok_type :: ty

record service_trait =
  st_vis :: tokens
  st_attrs :: "tokens list"
  st_supertraits :: "tokens list"
  st_ident :: ident
  st_methods :: "rpc_method list"

section \<open>Validation\<close>

definition MUST_RETURN :: string where
  "MUST_RETURN = ''service methods must return `Result<T, PatinaError>`''"

fun type_args :: "generic_argument list \<Rightarrow> ty list" where
  "type_args [] = []"
| "type_args (Arg_Type t # rest) = t # type_args rest"
| "type_args (_ # rest) = type_args rest"

fun is_patina_error :: "ty \<Rightarrow> bool" where
  "is_patina_error (Type_Path _ segs) = (segs \<noteq> [] \<and> seg_ident (last segs) = ''PatinaError'')"
| "is_patina_error _ = False"

fun parse_result_ok :: "return_type \<Rightarrow> 'sp syn_error + ty" where
  "parse_result_ok Return_Default = Inl (new_spanned (At_Output Return_Default) MUST_RETURN)"
| "parse_result_ok (Return_Type ty) =
     (case ty of
        Type_Path q segs \<Rightarrow>
          if segs = [] then Inl (new_spanned (At_Type ty) MUST_RETURN)
          else if seg_ident (last segs) \<noteq> ''Result''
          then Inl (new_spanned (At_Ident (seg_ident (last segs))) MUST_RETURN)
          else (case seg_args (last segs) of
              Angle_Bracketed generics \<Rightarrow>
                (case type_args generics of
                   [t0, t1] \<Rightarrow>
                     if is_patina_error t1 then Inr t0
                     else Inl (new_spanned (At_Type t1) MUST_RETURN)
                 | _ \<Rightarrow> Inl (new_spanned (At_Generic_Args generics) MUST_RETURN))
            | _ \<Rightarrow> Inl (new_spanned (At_Segment (last segs)) MUST_RETURN))
      | _ \<Rightarrow> Inl (new_spanned (At_Type ty) MUST_RETURN))"

fun parse_args :: "fn_arg list \<Rightarrow> 'sp syn_error + method_arg list" where
  "parse_args [] = Inr []"
| "parse_args (Typed (Pat_Ident p) t # rest) =
     and_then (parse_args rest) (\<lambda>args. Inr (\<lparr>arg_name = pi_ident p, arg_ty = t\<rparr> # args))"
| "parse_args (Typed other t # rest) =
     Inl (new_spanned (At_Pattern other) ''service method arguments must be simple identifiers'')"
| "parse_args (Receiver r # rest) =
     Inl (new_spanned (At_Receiver r) ''unexpected `self` after the first argument'')"

definition method_parse :: "trait_item_fn \<Rightarrow> 'sp syn_error + rpc_method" where
  "method_parse m =
     (let sg = tf_sig m in
      if \<not> sig_asyncness sg
      then Inl (new_spanned (At_Fn_Token (sig_ident sg)) ''service methods must be `async`'')
      else if tf_default m \<noteq> None
      then Inl (new_spanned (At_Method m) ''service methods cannot have a default body'')
      else if gn_params (sig_generics sg) \<noteq> []
      then Inl (new_spanned (At_Generics (sig_generics sg)) ''service methods cannot be generic'')
      else (case sig_inputs sg of
          Receiver r # inputs \<Rightarrow>
            if rv_reference r \<noteq> None \<and> \<not> rv_mutability r
            then and_then (parse_args inputs) (\<lambda>args.
                 and_then (parse_result_ok (sig_output sg)) (\<lambda>ok_type.
                   Inr \<lparr>m_ident = sig_ident sg, m_args = args, m_ok_type = ok_type\<rparr>))
            else Inl (new_spanned (At_Receiver r)
              ''service methods must take `&self` (not `&mut self` or `self`)'')
        | _ \<Rightarrow> Inl (new_spanned (At_Signature sg)
              ''service methods must take `&self` as the first argument'')))"

fun parse_items :: "trait_item list \<Rightarrow> 'sp syn_error + rpc_method list" where
  "parse_items [] = Inr []"
| "parse_items (Item_Fn m # items) =
     and_then (method_parse m) (\<lambda>p. and_then (parse_items items) (\<lambda>ps. Inr (p # ps)))"
| "parse_items (Item_Other other # items) =
     Inl (new_spanned (At_Trait_Item other) ''#[patina::service] traits may only contain methods'')"

definition service_parse ::
  "('tokens \<Rightarrow> 'sp + item_trait) \<Rightarrow> 'tokens \<Rightarrow> 'sp syn_error + service_trait" where
  "service_parse parse2 input =
     (case parse2 input of
        Inl sp \<Rightarrow> Inl \<lparr>se_node = At_Span sp,
          se_message = ''#[patina::service] may only be applied to a trait''\<rparr>
      | Inr item \<Rightarrow>
          if gn_params (it_generics item) \<noteq> []
          then Inl (new_spanned (At_Generics (it_generics item)) ''#[patina::service] traits cannot be generic'')
          else and_then (parse_items (it_items item)) (\<lambda>methods.
            Inr \<lparr>st_vis = it_vis item, st_attrs = it_attrs item, st_supertraits = it_supertraits item,
                 st_ident = it_ident item, st_methods = methods\<rparr>))"

section \<open>What is accepted\<close>

text \<open>The shapes \<^verbatim>\<open>DESIGN.md\<close> Phase 3, section 2.1 allows, stated as relations and not as checks.\<close>

inductive result_shape :: "return_type \<Rightarrow> ty \<Rightarrow> bool" where
  "type_args gs = [t, Type_Path p (esegs @ [Path_Segment ''PatinaError'' eargs])] \<Longrightarrow>
   result_shape (Return_Type (Type_Path q (segs @ [Path_Segment ''Result'' (Angle_Bracketed gs)]))) t"

inductive args_shape :: "fn_arg list \<Rightarrow> method_arg list \<Rightarrow> bool" where
  "args_shape [] []"
| "args_shape inputs args \<Longrightarrow>
   args_shape (Typed (Pat_Ident p) t # inputs) (\<lparr>arg_name = pi_ident p, arg_ty = t\<rparr> # args)"

inductive method_shape :: "trait_item_fn \<Rightarrow> rpc_method \<Rightarrow> bool" where
  "sig_asyncness (tf_sig m) \<Longrightarrow> tf_default m = None \<Longrightarrow> gn_params (sig_generics (tf_sig m)) = [] \<Longrightarrow>
   sig_inputs (tf_sig m) = Receiver r # inputs \<Longrightarrow> rv_reference r = Some lt \<Longrightarrow> \<not> rv_mutability r \<Longrightarrow>
   args_shape inputs (m_args p) \<Longrightarrow> result_shape (sig_output (tf_sig m)) (m_ok_type p) \<Longrightarrow>
   sig_ident (tf_sig m) = m_ident p \<Longrightarrow> method_shape m p"

inductive_simps args_shape_Nil [simp]: "args_shape [] args"
inductive_simps args_shape_Cons: "args_shape (i # inputs) args"
inductive_simps method_shape_iff: "method_shape m p"
inductive_simps result_shape_iff: "result_shape out t"

lemma path_segment_eq_iff: "s = Path_Segment i a \<longleftrightarrow> seg_ident s = i \<and> seg_args s = a"
  by (cases s) auto

lemma is_patina_error_iff:
  "is_patina_error t \<longleftrightarrow> (\<exists>p segs args. t = Type_Path p (segs @ [Path_Segment ''PatinaError'' args]))"
proof (cases t)
  case (Type_Path p segs)
  then show ?thesis by (cases segs rule: rev_cases) (auto simp: path_segment_eq_iff)
qed auto

lemma parse_result_ok_iff: "parse_result_ok out = Inr t \<longleftrightarrow> result_shape out t"
proof (cases out)
  case Return_Default
  then show ?thesis by (simp add: result_shape_iff)
next
  case (Return_Type r)
  show ?thesis
  proof (cases r)
    case (Type_Path q segs)
    then show ?thesis
      using Return_Type
      by (cases segs rule: rev_cases)
        (auto simp: result_shape_iff is_patina_error_iff path_segment_eq_iff
          split: path_arguments.splits list.splits)
  qed (use Return_Type in \<open>auto simp: result_shape_iff\<close>)
qed

lemma parse_args_iff: "parse_args inputs = Inr args \<longleftrightarrow> args_shape inputs args"
  by (induction inputs arbitrary: args rule: parse_args.induct)
    (auto simp: args_shape_Cons and_then_Inr_iff)

lemma method_parse_iff: "method_parse m = Inr p \<longleftrightarrow> method_shape m p"
  by (cases p)
    (auto simp: method_parse_def method_shape_iff Let_def and_then_Inr_iff parse_args_iff
      parse_result_ok_iff split: list.splits fn_arg.splits)

lemma map_Item_Fn_eq [simp]: "map Item_Fn ms = map Item_Fn ns \<longleftrightarrow> ms = ns"
  by (simp add: inj_map_eq_map inj_def)

lemma parse_items_iff:
  "parse_items items = Inr ps \<longleftrightarrow> (\<exists>ms. items = map Item_Fn ms \<and> list_all2 method_shape ms ps)"
proof (induction items arbitrary: ps)
  case Nil
  then show ?case by auto
next
  case (Cons it items)
  then show ?case
    by (cases it)
      (auto simp: and_then_Inr_iff method_parse_iff Cons_eq_map_conv list_all2_Cons1)
qed

end
