(* ===== verification/Macro_Expand.thy ===== *)
theory Macro_Expand
  imports Macro_Model
begin

text \<open>
  Code generation: \<^verbatim>\<open>crates/patina-macros/src/expand.rs\<close> and the macro's entry point in
  \<^verbatim>\<open>crates/patina-macros/src/lib.rs\<close>. The generated items are data: each record lists the
  fragments the \<open>quote!\<close> template splices in, the fixed text of the template is the record itself
  (its meaning is given by the theory \<open>Service\<close>).
\<close>

section \<open>Generated items\<close>

text \<open>One \<open>fn name(&self, params) -> impl Future<Output = Result<ok, PatinaError>> + Send;\<close>\<close>

record trait_fn =
  tfn_name :: ident
  tfn_params :: "method_arg list"
  tfn_ok :: ty

record trait_def =
  td_attrs :: "tokens list"
  td_vis :: tokens
  td_ident :: ident
  td_supertraits :: "tokens list option"
  td_sigs :: "trait_fn list"

text \<open>One proxy method; \<open>cf_encoded\<close> are the variables in the tuple it serialises.\<close>

record client_fn =
  cf_name :: ident
  cf_params :: "method_arg list"
  cf_ok :: ty
  cf_encoded :: "ident list"
  cf_wire_name :: string

record client_def =
  cd_vis :: tokens
  cd_ident :: ident
  cd_trait :: ident
  cd_methods :: "client_fn list"

text \<open>
  One arm of the dispatch match: the pattern \<open>da_bound\<close> and the tuple type \<open>da_types\<close> of the \<open>let\<close>,
  and the call \<open>self.inner.da_method(da_passed)\<close>.
\<close>

record dispatch_arm =
  da_wire_name :: string
  da_bound :: "ident list"
  da_types :: "ty list"
  da_method :: ident
  da_passed :: "ident list"

record server_def =
  sd_vis :: tokens
  sd_ident :: ident
  sd_trait :: ident
  sd_wire_names :: "string list"
  sd_arms :: "dispatch_arm list"

record expansion =
  ex_trait :: trait_def
  ex_client :: client_def
  ex_server :: server_def

section \<open>Generation\<close>

definition wire_method_name :: "service_trait \<Rightarrow> rpc_method \<Rightarrow> string" where
  "wire_method_name service m = st_ident service @ ''::'' @ m_ident m"

definition expand_trait :: "service_trait \<Rightarrow> trait_def" where
  "expand_trait service =
     \<lparr>td_attrs = st_attrs service,
      td_vis = st_vis service,
      td_ident = st_ident service,
      td_supertraits = (if st_supertraits service = [] then None else Some (st_supertraits service)),
      td_sigs = map (\<lambda>m. \<lparr>tfn_name = m_ident m, tfn_params = m_args m, tfn_ok = m_ok_type m\<rparr>)
        (st_methods service)\<rparr>"

definition expand_client_fn :: "service_trait \<Rightarrow> rpc_method \<Rightarrow> client_fn" where
  "expand_client_fn service m =
     \<lparr>cf_name = m_ident m, cf_params = m_args m, cf_ok = m_ok_type m,
      cf_encoded = map arg_name (m_args m), cf_wire_name = wire_method_name service m\<rparr>"

definition expand_client :: "service_trait \<Rightarrow> client_def" where
  "expand_client service =
     \<lparr>cd_vis = st_vis service, cd_ident = st_ident service @ ''Client'', cd_trait = st_ident service,
      cd_methods = map (expand_client_fn service) (st_methods service)\<rparr>"

definition expand_arm :: "service_trait \<Rightarrow> rpc_method \<Rightarrow> dispatch_arm" where
  "expand_arm service m =
     \<lparr>da_wire_name = wire_method_name service m, da_bound = map arg_name (m_args m),
      da_types = map arg_ty (m_args m), da_method = m_ident m, da_passed = map arg_name (m_args m)\<rparr>"

definition expand_server :: "service_trait \<Rightarrow> server_def" where
  "expand_server service =
     \<lparr>sd_vis = st_vis service, sd_ident = st_ident service @ ''Server'', sd_trait = st_ident service,
      sd_wire_names = map (wire_method_name service) (st_methods service),
      sd_arms = map (expand_arm service) (st_methods service)\<rparr>"

definition expand :: "service_trait \<Rightarrow> expansion" where
  "expand service =
     \<lparr>ex_trait = expand_trait service, ex_client = expand_client service, ex_server = expand_server service\<rparr>"

text \<open>The attribute macro: the expansion, or the diagnostic as a compile error.\<close>

definition service_macro ::
  "('tokens \<Rightarrow> 'sp + item_trait) \<Rightarrow> tokens \<Rightarrow> 'tokens \<Rightarrow> 'sp syn_error + expansion" where
  "service_macro parse2 attr item =
     (case service_parse parse2 item of Inl e \<Rightarrow> Inl e | Inr service \<Rightarrow> Inr (expand service))"

section \<open>Wire names\<close>

text \<open>A Rust identifier has no colon, so the separator can be found again.\<close>

lemma append_colon_inject:
  "CHR '':'' \<notin> set t \<Longrightarrow> CHR '':'' \<notin> set t' \<Longrightarrow> t @ CHR '':'' # m = t' @ CHR '':'' # m' \<Longrightarrow> t = t' \<and> m = m'"
  by (simp add: append_eq_Cons_conv append_eq_append_conv2) (auto simp: append_eq_Cons_conv Cons_eq_append_conv)

lemma wire_method_name_inject:
  assumes "CHR '':'' \<notin> set (st_ident s)" "CHR '':'' \<notin> set (st_ident s')"
    and "wire_method_name s m = wire_method_name s' m'"
  shows "st_ident s = st_ident s' \<and> m_ident m = m_ident m'"
  using append_colon_inject [OF assms(1,2)] assms(3) by (force simp: wire_method_name_def)

lemma wire_method_name_same [simp]:
  "wire_method_name s m = wire_method_name s m' \<longleftrightarrow> m_ident m = m_ident m'"
  by (simp add: wire_method_name_def)

end
