(* ===== verification/Payload.thy ===== *)
theory Payload
  imports Wire_Lib Macro_Expand
begin

text \<open>
  The values of arguments and results and their serialisation: the module \<open>__private\<close> of
  \<^verbatim>\<open>crates/patina-rpc/src/lib.rs\<close>. A Rust value is a tuple of values or a value of some other type,
  which stays opaque; \<open>typed base v t\<close> says that \<open>v\<close> belongs to the type \<open>t\<close>, given it for the opaque
  ones. The serialiser is \<open>bincode\<close>'s and a parameter.
\<close>

section \<open>Values\<close>

datatype 'b rust_val = Val 'b | Tuple (tuple_fields: "'b rust_val list")

fun typed :: "('b \<Rightarrow> ty \<Rightarrow> bool) \<Rightarrow> 'b rust_val \<Rightarrow> ty \<Rightarrow> bool"
  and typed_list :: "('b \<Rightarrow> ty \<Rightarrow> bool) \<Rightarrow> 'b rust_val list \<Rightarrow> ty list \<Rightarrow> bool" where
  "typed base (Val b) t = base b t"
| "typed base (Tuple vs) t = (case t of Type_Tuple ts \<Rightarrow> typed_list base vs ts | _ \<Rightarrow> False)"
| "typed_list base [] ts = (ts = [])"
| "typed_list base (v # vs) ts = (case ts of [] \<Rightarrow> False | t # ts' \<Rightarrow> typed base v t \<and> typed_list base vs ts')"

lemma typed_list_length: "typed_list base vs ts \<Longrightarrow> length vs = length ts"
  by (induction vs arbitrary: ts) (auto split: list.splits)

section \<open>Encoding and decoding\<close>

text \<open>What the program uses of \<open>bincode::serde\<close>, with the \<open>Display\<close> of its errors.\<close>

record ('b, 'e) serde_lib =
  to_vec :: "'b rust_val \<Rightarrow> 'e + bytes"
  from_slice :: "ty \<Rightarrow> bytes \<Rightarrow> 'e + ('b rust_val \<times> nat)"
  display :: "'e \<Rightarrow> string"

definition encode :: "('b, 'e) serde_lib \<Rightarrow> 'b rust_val \<Rightarrow> 'x patina_error + bytes" where
  "encode L v = map_err (\<lambda>e. Remote 500 (''encode: '' @ display L e)) (to_vec L v)"

definition decode :: "('b, 'e) serde_lib \<Rightarrow> ty \<Rightarrow> bytes \<Rightarrow> 'x patina_error + 'b rust_val" where
  "decode L t bs =
     map_err (\<lambda>e. Remote 400 (''decode: '' @ display L e))
       (case from_slice L t bs of Inl e \<Rightarrow> Inl e | Inr (v, n) \<Rightarrow> Inr v)"

section \<open>The laws of payloads\<close>

text \<open>
  A payload codec is a \<open>bincode\<close> whose values are typed Rust values; a decoder for a type returns
  values of that type, and an opaque value is not of a tuple type.
\<close>

locale payload_codec = bincode "typed base" "to_vec L" "from_slice L"
  for base :: "'b \<Rightarrow> ty \<Rightarrow> bool"
    and L :: "('b, 'e) serde_lib" +
  assumes decode_typed: "from_slice L t bs = Inr (v, n) \<Longrightarrow> typed base v t"
    and base_not_tuple: "\<not> base b (Type_Tuple ts)"
begin

lemma payload_roundtrip: "typed base v t \<Longrightarrow> to_vec L v = Inr bs \<Longrightarrow> decode L t bs = Inr v"
  by (simp add: decode_def decode_encode_exact)

lemma tuple_roundtrip:
  "typed_list base vs ts \<Longrightarrow> to_vec L (Tuple vs) = Inr bs \<Longrightarrow> decode L (Type_Tuple ts) bs = Inr (Tuple vs)"
  by (rule payload_roundtrip) simp_all

lemma decoded_typed: "decode L t bs = Inr v \<Longrightarrow> typed base v t"
  by (auto simp: decode_def dest: decode_typed split: sum.splits)

lemma decoded_tuple:
  assumes "decode L (Type_Tuple ts) bs = Inr v"
  shows "\<exists>vs. v = Tuple vs \<and> length vs = length ts"
proof -
  from assms obtain n where "from_slice L (Type_Tuple ts) bs = Inr (v, n)"
    by (auto simp: decode_def split: sum.splits)
  from decode_typed [OF this] show ?thesis
    by (cases v) (auto simp: base_not_tuple dest: typed_list_length)
qed

end

section \<open>A reference instance\<close>

text \<open>
  A serialiser of nested tuples of \<open>u8\<close> in the layout \<open>bincode\<close> documents: a \<open>u8\<close> is its byte and a
  tuple the concatenation of its fields. It shows that the laws can hold and lets properties be
  evaluated.
\<close>

definition u8_type :: ty where
  "u8_type = Type_Path None [Path_Segment ''u8'' Args_None]"

definition ref_base :: "u8 \<Rightarrow> ty \<Rightarrow> bool" where
  "ref_base b t \<longleftrightarrow> t = u8_type"

fun ref_put :: "u8 rust_val \<Rightarrow> bytes" and ref_put_list :: "u8 rust_val list \<Rightarrow> bytes" where
  "ref_put (Val b) = [b]"
| "ref_put (Tuple vs) = ref_put_list vs"
| "ref_put_list [] = []"
| "ref_put_list (v # vs) = ref_put v @ ref_put_list vs"

fun ref_get :: "ty \<Rightarrow> bytes \<Rightarrow> string + (u8 rust_val \<times> bytes)"
  and ref_get_list :: "ty list \<Rightarrow> bytes \<Rightarrow> string + (u8 rust_val list \<times> bytes)" where
  "ref_get (Type_Tuple ts) bs = and_then (ref_get_list ts bs) (\<lambda>(vs, r). Inr (Tuple vs, r))"
| "ref_get t bs =
     (if t \<noteq> u8_type then Inl ''unsupported type''
      else case bs of [] \<Rightarrow> Inl ''unexpected end'' | b # r \<Rightarrow> Inr (Val b, r))"
| "ref_get_list [] bs = Inr ([], bs)"
| "ref_get_list (t # ts) bs =
     and_then (ref_get t bs) (\<lambda>(v, r). and_then (ref_get_list ts r) (\<lambda>(vs, r'). Inr (v # vs, r')))"

definition ref_val_encode :: "u8 rust_val \<Rightarrow> string + bytes" where
  "ref_val_encode v = Inr (ref_put v)"

definition ref_val_decode :: "ty \<Rightarrow> bytes \<Rightarrow> string + (u8 rust_val \<times> nat)" where
  "ref_val_decode t bs = and_then (ref_get t bs) (\<lambda>(v, r). Inr (v, length bs - length r))"

definition ref_lib :: "(u8, string) serde_lib" where
  "ref_lib = \<lparr>to_vec = ref_val_encode, from_slice = ref_val_decode, display = (\<lambda>e. e)\<rparr>"

lemma ref_get_put:
  "typed ref_base v t \<Longrightarrow> ref_get t (ref_put v @ rest) = Inr (v, rest)"
  "typed_list ref_base vs ts \<Longrightarrow> ref_get_list ts (ref_put_list vs @ rest) = Inr (vs, rest)"
proof (induction v and vs arbitrary: t rest and ts rest rule: ref_put_ref_put_list.induct)
  case (1 b)
  then show ?case by (simp add: ref_base_def u8_type_def)
next
  case (2 vs)
  then show ?case by (cases t) simp_all
next
  case (4 v vs)
  then show ?case by (cases ts) simp_all
qed simp

lemma ref_get_typed:
  "ref_get t bs = Inr (v, rest) \<Longrightarrow> typed ref_base v t"
  "ref_get_list ts bs = Inr (vs, rest) \<Longrightarrow> typed_list ref_base vs ts"
  by (induction t bs and ts bs arbitrary: v rest and vs rest rule: ref_get_ref_get_list.induct)
    (auto simp: and_then_Inr_iff ref_base_def split: if_splits list.splits)

interpretation ref_bincode: bincode "typed ref_base" "to_vec ref_lib" "from_slice ref_lib"
  by unfold_locales (auto simp: ref_lib_def ref_val_encode_def ref_val_decode_def ref_get_put)

interpretation ref_payload: payload_codec ref_base ref_lib
  by unfold_locales
    (auto simp: ref_lib_def ref_val_decode_def and_then_Inr_iff ref_base_def u8_type_def dest: ref_get_typed)

lemma ref_payload_codec: "payload_codec ref_base ref_lib"
  by (rule ref_payload.payload_codec_axioms)

end
