(* ===== verification/Service.thy ===== *)
theory Service
  imports Payload Server Client
begin

text \<open>
  What the code generated by \<^verbatim>\<open>crates/patina-macros/src/expand.rs\<close> does when it runs: the proxy
  methods, the dispatch match and the \<open>PatinaService\<close> instance, over the generated items of the
  theory \<open>Macro_Expand\<close>. The user's implementation of the trait is a parameter: from the method,
  its arguments and the state behind \<open>&self\<close> to the result and the new state.
\<close>

section \<open>Variables\<close>

type_synonym ('b, 'x, 'w) trait_impl =
  "ident \<Rightarrow> 'b rust_val list \<Rightarrow> 'w \<Rightarrow> ('x patina_error + 'b rust_val) \<times> 'w"

definition bindings :: "ident list \<Rightarrow> 'v list \<Rightarrow> ident \<Rightarrow> 'v option" where
  "bindings ns vs = map_of (zip ns vs)"

definition read_vars :: "(ident \<Rightarrow> 'v option) \<Rightarrow> ident list \<Rightarrow> 'v list" where
  "read_vars env ns = map (\<lambda>n. the (env n)) ns"

lemma read_bindings: "distinct ns \<Longrightarrow> length ns = length vs \<Longrightarrow> read_vars (bindings ns vs) ns = vs"
  by (auto simp: read_vars_def bindings_def map_of_zip_nth intro!: nth_equalityI)

section \<open>The generated client\<close>

definition proxy_payload :: "('b, 'e) serde_lib \<Rightarrow> client_fn \<Rightarrow> 'b rust_val list \<Rightarrow> 'x patina_error + bytes" where
  "proxy_payload L f args =
     encode L (Tuple (read_vars (bindings (map arg_name (cf_params f)) args) (cf_encoded f)))"

definition proxy_result :: "('b, 'e) serde_lib \<Rightarrow> client_fn \<Rightarrow> 'x patina_error + bytes \<Rightarrow> 'x patina_error + 'b rust_val" where
  "proxy_result L f r = and_then r (\<lambda>response. decode L (cf_ok f) response)"

text \<open>A proxy method over any way \<open>call\<close> to perform \<open>Client::call\<close> in a state.\<close>

definition proxy_call ::
  "('b, 'e) serde_lib \<Rightarrow> client_fn \<Rightarrow> (string \<Rightarrow> bytes \<Rightarrow> 's \<Rightarrow> ('x patina_error + bytes) \<times> 's) \<Rightarrow>
   'b rust_val list \<Rightarrow> 's \<Rightarrow> ('x patina_error + 'b rust_val) \<times> 's" where
  "proxy_call L f call args s =
     (case proxy_payload L f args of
        Inl e \<Rightarrow> (Inl e, s)
      | Inr payload \<Rightarrow> (case call (cf_wire_name f) payload s of (r, s') \<Rightarrow> (proxy_result L f r, s')))"

section \<open>The generated server\<close>

definition run_arm ::
  "('b, 'e) serde_lib \<Rightarrow> ('x \<Rightarrow> string) \<Rightarrow> ('b, 'x, 'w) trait_impl \<Rightarrow> dispatch_arm \<Rightarrow> 'w handler" where
  "run_arm L disp impl arm w payload =
     (case decode L (Type_Tuple (da_types arm)) payload of
        Inl e \<Rightarrow> (Inl (handler_error_from_patina disp e), w)
      | Inr args \<Rightarrow>
          (case impl (da_method arm) (read_vars (bindings (da_bound arm) (tuple_fields args)) (da_passed arm)) w of
             (Inl e, w') \<Rightarrow> (Inl (handler_error_from_patina disp e), w')
           | (Inr ret, w') \<Rightarrow> (map_err (handler_error_from_patina disp) (encode L ret), w')))"

fun match_method ::
  "('b, 'e) serde_lib \<Rightarrow> ('x \<Rightarrow> string) \<Rightarrow> ('b, 'x, 'w) trait_impl \<Rightarrow> dispatch_arm list \<Rightarrow>
   'w \<Rightarrow> string \<Rightarrow> bytes \<Rightarrow> (handler_error + bytes) \<times> 'w" where
  "match_method L disp impl [] w m payload = (Inl (handler_error_new 404 (''unknown method: '' @ m)), w)"
| "match_method L disp impl (arm # arms) w m payload =
     (if m = da_wire_name arm then run_arm L disp impl arm w payload
      else match_method L disp impl arms w m payload)"

definition generated_service ::
  "('b, 'e) serde_lib \<Rightarrow> ('x \<Rightarrow> string) \<Rightarrow> ('b, 'x, 'w) trait_impl \<Rightarrow> server_def \<Rightarrow> 'w patina_service" where
  "generated_service L disp impl sd =
     \<lparr>method_names = sd_wire_names sd, service_dispatch = match_method L disp impl (sd_arms sd)\<rparr>"

section \<open>The generated constructors\<close>

text \<open>Both structs hold an \<open>Arc\<close> of what they wrap; sharing is by value here.\<close>

record 'c client_proxy =
  cp_inner :: 'c

record 'i server_wrapper =
  sw_inner :: 'i

definition proxy_connect :: "'x + 'tcp \<Rightarrow> 'x patina_error + 'x client client_proxy" where
  "proxy_connect stream = and_then (connect stream) (\<lambda>client. Inr \<lparr>cp_inner = client\<rparr>)"

definition proxy_from_client :: "'c \<Rightarrow> 'c client_proxy" where
  "proxy_from_client inner = \<lparr>cp_inner = inner\<rparr>"

definition wrapper_new :: "'i \<Rightarrow> 'i server_wrapper" where
  "wrapper_new inner = \<lparr>sw_inner = inner\<rparr>"

text \<open>A proxy that \<open>connect\<close> returns holds the fresh client of its stream.\<close>

lemma proxy_connect_simps [simp]:
  "proxy_connect (Inl e) = Inl (patina_from_io e)"
  "proxy_connect (Inr stream) = Inr (proxy_from_client from_stream)"
  by (simp_all add: proxy_connect_def connect_def and_then_def proxy_from_client_def)

text \<open>The \<open>PatinaService\<close> of a wrapped implementation.\<close>

definition wrapper_service ::
  "('b, 'e) serde_lib \<Rightarrow> ('x \<Rightarrow> string) \<Rightarrow> server_def \<Rightarrow> ('b, 'x, 'w) trait_impl server_wrapper \<Rightarrow> 'w patina_service" where
  "wrapper_service L disp sd s = generated_service L disp (sw_inner s) sd"

section \<open>Contract\<close>

text \<open>
  What a method is meant to do with a payload, without variables and arms: decode the tuple of its
  argument types, apply the implementation to the fields in order, encode the result.
\<close>

definition serve_method ::
  "('b, 'e) serde_lib \<Rightarrow> ('x \<Rightarrow> string) \<Rightarrow> ('b, 'x, 'w) trait_impl \<Rightarrow> rpc_method \<Rightarrow> 'w handler" where
  "serve_method L disp impl m w payload =
     (case decode L (Type_Tuple (map arg_ty (m_args m))) payload of
        Inl e \<Rightarrow> (Inl (handler_error_from_patina disp e), w)
      | Inr args \<Rightarrow>
          (case impl (m_ident m) (tuple_fields args) w of
             (Inl e, w') \<Rightarrow> (Inl (handler_error_from_patina disp e), w')
           | (Inr ret, w') \<Rightarrow> (map_err (handler_error_from_patina disp) (encode L ret), w')))"

definition method_named :: "service_trait \<Rightarrow> string \<Rightarrow> rpc_method option" where
  "method_named service name = find (\<lambda>m. wire_method_name service m = name) (st_methods service)"

definition serve_name ::
  "('b, 'e) serde_lib \<Rightarrow> ('x \<Rightarrow> string) \<Rightarrow> ('b, 'x, 'w) trait_impl \<Rightarrow> service_trait \<Rightarrow> string \<Rightarrow> 'w handler" where
  "serve_name L disp impl service name w payload =
     (case method_named service name of
        Some m \<Rightarrow> serve_method L disp impl m w payload
      | None \<Rightarrow> (Inl (handler_error_new 404 (''unknown method: '' @ name)), w))"

text \<open>
  The hypotheses are what \<open>rustc\<close> checks of the generated code: no two methods of the trait, and no
  two parameters of a method, have the same name.
\<close>

locale generated_server = payload_codec base L
  for base :: "'b \<Rightarrow> ty \<Rightarrow> bool" and L :: "('b, 'e) serde_lib" +
  fixes disp :: "'x \<Rightarrow> string"
    and impl :: "('b, 'x, 'w) trait_impl"
    and service :: service_trait
  assumes distinct_methods: "distinct (map m_ident (st_methods service))"
    and distinct_args: "m \<in> set (st_methods service) \<Longrightarrow> distinct (map arg_name (m_args m))"
begin

lemma run_expanded_arm:
  assumes "m \<in> set (st_methods service)"
  shows "run_arm L disp impl (expand_arm service m) w p = serve_method L disp impl m w p"
proof (cases "decode L (Type_Tuple (map arg_ty (m_args m))) p :: 'x patina_error + _")
  case (Inl e)
  then show ?thesis by (simp add: run_arm_def serve_method_def expand_arm_def)
next
  case (Inr v)
  from decoded_tuple [OF Inr] obtain vs where "v = Tuple vs" "length vs = length (m_args m)" by auto
  with Inr distinct_args [OF assms] show ?thesis
    by (simp add: run_arm_def serve_method_def expand_arm_def read_bindings)
qed

lemma match_expanded:
  "set ms \<subseteq> set (st_methods service) \<Longrightarrow>
   match_method L disp impl (map (expand_arm service) ms) w name p =
     (case find (\<lambda>m. wire_method_name service m = name) ms of
        Some m \<Rightarrow> serve_method L disp impl m w p
      | None \<Rightarrow> (Inl (handler_error_new 404 (''unknown method: '' @ name)), w))"
proof (induction ms)
  case (Cons m ms)
  have "da_wire_name (expand_arm service m) = wire_method_name service m" by (simp add: expand_arm_def)
  with Cons show ?case by (simp add: run_expanded_arm eq_commute)
qed simp

abbreviation "srv \<equiv> generated_service L disp impl (expand_server service)"

lemma srv_names: "set (method_names srv) = wire_method_name service ` set (st_methods service)"
  by (simp add: generated_service_def expand_server_def)

lemma srv_dispatch: "service_dispatch srv w name p = serve_name L disp impl service name w p"
  by (simp add: generated_service_def expand_server_def serve_name_def method_named_def match_expanded)

lemma method_named_None: "name \<notin> set (method_names srv) \<Longrightarrow> method_named service name = None"
  by (auto simp: srv_names method_named_def find_None_iff)

lemma method_named_wire:
  assumes "m \<in> set (st_methods service)"
  shows "method_named service (wire_method_name service m) = Some m"
  using find_distinct_key [OF distinct_methods assms] by (simp add: method_named_def)

end

sublocale generated_server \<subseteq> generated: service_contract
  "generated_service L disp impl (expand_server service)" "serve_name L disp impl service"
  by unfold_locales (simp_all add: srv_dispatch, simp add: serve_name_def method_named_None)

context generated_server
begin

lemma srv_registered:
  "m \<in> set (st_methods service) \<Longrightarrow>
   handlers (build (add_service srv b)) (wire_method_name service m) = Some (serve_name L disp impl service (wire_method_name service m))"
  by (rule generated.registered_handler) (simp add: srv_names)

lemma srv_rejects:
  "name \<notin> wire_method_name service ` set (st_methods service) \<Longrightarrow>
   service_dispatch srv w name p = (Inl (handler_error_new 404 (''unknown method: '' @ name)), w)"
  by (rule generated.rejects) (simp add: srv_names)

text \<open>Through the registry of a server with only this service, or asked directly: the answer is the same.\<close>

lemmas srv_registry = generated.registry_agrees

end

section \<open>An instance\<close>

text \<open>
  The \<open>Calc\<close> trait of \<^verbatim>\<open>crates/patina-rpc/tests/service_macro.rs\<close>, with \<open>u8\<close> for \<open>i32\<close> and for the
  pong string, parsed and expanded by the macro; the state counts the calls.
\<close>

definition arg :: "ident \<Rightarrow> method_arg" where
  "arg n = \<lparr>arg_name = n, arg_ty = u8_type\<rparr>"

definition calc_trait :: service_trait where
  "calc_trait =
     \<lparr>st_vis = ''pub'', st_attrs = [], st_supertraits = [''Send'', ''Sync'', ''static''], st_ident = ''Calc'',
      st_methods =
        [\<lparr>m_ident = ''add'', m_args = [arg ''a'', arg ''b''], m_ok_type = u8_type\<rparr>,
         \<lparr>m_ident = ''ping'', m_args = [], m_ok_type = u8_type\<rparr>,
         \<lparr>m_ident = ''boom'', m_args = [], m_ok_type = Type_Tuple []\<rparr>]\<rparr>"

fun calc_impl :: "(u8, string, nat) trait_impl" where
  "calc_impl m [Val a, Val b] n = (Inr (Val (a + b)), Suc n)"
| "calc_impl m args n =
     (if m = ''ping'' then (Inr (Val 112), Suc n) else (Inl (application 503 ''service down''), Suc n))"

interpretation calc: generated_server ref_base ref_lib "\<lambda>e. e" calc_impl calc_trait
  by unfold_locales (auto simp: calc_trait_def arg_def)

lemma calc_generated_server: "generated_server ref_base ref_lib calc_trait"
  by (rule calc.generated_server_axioms)

end
