(* ===== verification/Macro_Props.thy ===== *)
theory Macro_Props
  imports Macro_Expand
begin

text \<open>
  The properties of the \<open>service\<close> macro: which traits it accepts, which diagnostic it gives otherwise
  (with the five UI tests of \<^verbatim>\<open>crates/patina-macros/tests/ui\<close>), what it lets through or drops, and
  that the three generated items fit together.
\<close>

section \<open>Acceptance\<close>

lemma service_parse_iff:
  "service_parse parse2 input = Inr service \<longleftrightarrow>
     (\<exists>item ms. parse2 input = Inr item \<and> gn_params (it_generics item) = []
        \<and> it_items item = map Item_Fn ms \<and> list_all2 method_shape ms (st_methods service)
        \<and> st_vis service = it_vis item \<and> st_attrs service = it_attrs item
        \<and> st_supertraits service = it_supertraits item \<and> st_ident service = it_ident item)"
proof (cases "parse2 input")
  case (Inl e)
  then show ?thesis by (simp add: service_parse_def)
next
  case (Inr item)
  then show ?thesis
    by (cases service) (auto simp: service_parse_def and_then_Inr_iff parse_items_iff)
qed


section \<open>Diagnostics\<close>

lemma parse_items_append:
  "parse_items (map Item_Fn ms) = (Inr ps :: 'a syn_error + rpc_method list) \<Longrightarrow>
   parse_items (map Item_Fn ms @ rest)
     = and_then (parse_items rest) (\<lambda>qs. Inr (ps @ qs) :: 'a syn_error + rpc_method list)"
proof (induction ms arbitrary: ps)
  case Nil
  then show ?case by (cases "parse_items rest :: 'a syn_error + _") auto
next
  case (Cons m ms)
  then show ?case by (cases "parse_items rest :: 'a syn_error + _") (auto simp: and_then_Inr_iff)
qed

text \<open>
  The first offending item is reported, whatever follows it: behind well-shaped methods, a
  method that is rejected gives its own diagnostic, and an item that is not a method is underlined.
\<close>

lemma first_error_reported:
  assumes "parse2 input = Inr item" and "gn_params (it_generics item) = []"
    and "it_items item = map Item_Fn ms @ bad # rest" and "list_all2 method_shape ms ps"
    and "case bad of Item_Fn m \<Rightarrow> method_parse m = Inl e
      | Item_Other other \<Rightarrow>
          e = \<lparr>se_node = At_Trait_Item other, se_message = ''#[patina::service] traits may only contain methods''\<rparr>"
  shows "service_parse parse2 input = Inl (e :: 'sp syn_error)"
proof -
  from assms(4) have "parse_items (map Item_Fn ms) = (Inr ps :: 'sp syn_error + _)" by (auto simp: parse_items_iff)
  from parse_items_append [OF this, of "bad # rest"] assms(5)
  have "parse_items (it_items item) = Inl e"
    unfolding assms(3) by (cases bad) (simp_all add: new_spanned_def)
  with assms(1,2) show ?thesis by (simp add: service_parse_def)
qed

text \<open>The syntax trees of the UI tests; \<open>parse2\<close> is the identity on items and fails on the struct.\<close>

definition plain_generics :: generics where
  "plain_generics = \<lparr>gn_params = [], gn_where = None\<rparr>"

definition self_ref :: "bool \<Rightarrow> receiver" where
  "self_ref mt = \<lparr>rv_reference = Some None, rv_mutability = mt, rv_type = None\<rparr>"

definition result_of :: "ty \<Rightarrow> return_type" where
  "result_of t = Return_Type (Type_Path None [Path_Segment ''Result''
     (Angle_Bracketed [Arg_Type t, Arg_Type (Type_Path None [Path_Segment ''PatinaError'' Args_None])])])"

definition ui_method :: "ident \<Rightarrow> bool \<Rightarrow> bool \<Rightarrow> return_type \<Rightarrow> tokens option \<Rightarrow> trait_item_fn" where
  "ui_method name asy mt out body =
     \<lparr>tf_attrs = [],
      tf_sig = \<lparr>sig_asyncness = asy, sig_ident = name, sig_generics = plain_generics,
                sig_inputs = [Receiver (self_ref mt)], sig_output = out\<rparr>,
      tf_default = body\<rparr>"

definition ui_trait :: "trait_item list \<Rightarrow> item_trait" where
  "ui_trait items =
     \<lparr>it_attrs = [], it_vis = [], it_ident = ''Bad'', it_generics = plain_generics,
      it_supertraits = [], it_items = items\<rparr>"

abbreviation "ui_parse items \<equiv> service_parse Inr (ui_trait (map Item_Fn items))"


section \<open>What is let through and what is dropped\<close>

lemma type_args_append [simp]: "type_args (gs @ hs) = type_args gs @ type_args hs"
  by (induction gs rule: type_args.induct) simp_all

lemma type_args_lifetimes [simp]: "type_args (map Arg_Lifetime ls) = []"
  by (induction ls) simp_all

lemma type_args_other [simp]: "type_args (map Arg_Other ls) = []"
  by (induction ls) simp_all

text \<open>
  The return type is matched loosely, against its documentation ("rejecting anything that isn't
  shaped exactly like that"): any path that ends in \<open>Result\<close> is taken, with lifetime, const and
  binding arguments anywhere among its type arguments, and any error type whose path ends in
  \<open>PatinaError\<close>, with arguments of its own.
\<close>

lemma return_type_leniency:
  "parse_result_ok (Return_Type (Type_Path q (segs @ [Path_Segment ''Result''
     (Angle_Bracketed (map Arg_Lifetime ls @ [Arg_Type t] @ map Arg_Other others
        @ [Arg_Type (Type_Path q' (segs' @ [Path_Segment ''PatinaError'' args]))]))]))) = Inr t"
  by simp

text \<open>
  A method with other attributes, another \<open>where\<close> clause, another lifetime or type on the receiver,
  and other binding modes in its argument patterns.
\<close>

fun same_binding :: "fn_arg \<Rightarrow> fn_arg \<Rightarrow> bool" where
  "same_binding (Typed (Pat_Ident p) t) (Typed (Pat_Ident p') t') = (pi_ident p = pi_ident p' \<and> t = t')"
| "same_binding (Receiver r) (Receiver r') =
     ((rv_reference r = None) = (rv_reference r' = None) \<and> rv_mutability r = rv_mutability r')"
| "same_binding a b = (a = b)"

definition same_rpc :: "trait_item_fn \<Rightarrow> trait_item_fn \<Rightarrow> bool" where
  "same_rpc m m' \<longleftrightarrow>
     sig_asyncness (tf_sig m) = sig_asyncness (tf_sig m') \<and> sig_ident (tf_sig m) = sig_ident (tf_sig m') \<and>
     gn_params (sig_generics (tf_sig m)) = gn_params (sig_generics (tf_sig m')) \<and>
     list_all2 same_binding (sig_inputs (tf_sig m)) (sig_inputs (tf_sig m')) \<and>
     sig_output (tf_sig m) = sig_output (tf_sig m') \<and> (tf_default m = None) = (tf_default m' = None)"

lemma parse_args_same:
  "list_all2 same_binding as bs \<Longrightarrow> parse_args as = (Inr args :: 'sp syn_error + _) \<Longrightarrow>
   parse_args bs = (Inr args :: 'sp syn_error + _)"
proof (induction as bs arbitrary: args rule: list_all2_induct)
  case (Cons a as b bs)
  then show ?case
    by (cases "(a, b)" rule: same_binding.cases) (auto simp: and_then_Inr_iff)
qed simp

text \<open>
  Everything else of a method is dropped without a diagnostic: attributes (so also \<open>cfg\<close> and doc
  comments), \<open>where\<close> clauses, and \<open>mut\<close>, \<open>ref\<close> or \<open>@\<close> in an argument pattern do not reach the
  generated code.
\<close>

lemma dropped_silently:
  assumes "same_rpc m m'" and "method_parse m = (Inr p :: 'sp syn_error + rpc_method)"
  shows "method_parse m' = (Inr p :: 'sp syn_error + rpc_method)"
proof -
  from assms obtain r inputs where in1: "sig_inputs (tf_sig m) = Receiver r # inputs"
    by (auto simp: method_parse_def Let_def split: if_splits list.splits fn_arg.splits)
  with assms(1) obtain r' inputs' where in2: "sig_inputs (tf_sig m') = Receiver r' # inputs'"
    and r: "same_binding (Receiver r) (Receiver r')" and args: "list_all2 same_binding inputs inputs'"
    by (auto simp: same_rpc_def list_all2_Cons1 elim: same_binding.elims)
  from assms(2) r parse_args_same [OF args, where 'sp = 'sp] assms(1) show ?thesis
    by (auto simp: method_parse_def Let_def in1 in2 same_rpc_def and_then_Inr_iff split: if_splits)
qed

lemma dropped_silently_witness:
  "method_parse (ui_method ''ok'' True False (result_of (Type_Tuple [])) None\<lparr>tf_attrs := [''cfg(test)'']\<rparr>)
     = (Inr \<lparr>m_ident = ''ok'', m_args = [], m_ok_type = Type_Tuple []\<rparr> :: string syn_error + rpc_method)"
  by (rule dropped_silently [where m = "ui_method ''ok'' True False (result_of (Type_Tuple [])) None"])
    (simp_all add: same_rpc_def ui_method_def plain_generics_def self_ref_def result_of_def
      method_parse_def Let_def)

section \<open>The generated items fit together\<close>

text \<open>What the macro is given of a method, against what an item generated for it has.\<close>

definition fn_matches :: "trait_item_fn \<Rightarrow> ident \<Rightarrow> method_arg list \<Rightarrow> ty \<Rightarrow> bool" where
  "fn_matches m name params ok \<longleftrightarrow>
     sig_asyncness (tf_sig m) \<and> sig_ident (tf_sig m) = name \<and>
     (\<exists>r inputs. sig_inputs (tf_sig m) = Receiver r # inputs \<and> args_shape inputs params) \<and>
     result_shape (sig_output (tf_sig m)) ok"

lemma method_shape_matches: "method_shape m p \<Longrightarrow> fn_matches m (m_ident p) (m_args p) (m_ok_type p)"
  by (auto simp: method_shape_iff fn_matches_def)

text \<open>
  C39. From the trait to the generated items. If the macro succeeds, then every item is a method, and in
  the order of the trait: the emitted trait and the proxy have a function of its name, with its arguments
  and result type, the proxy serialises exactly these arguments in order, the arm of the dispatch match
  decodes their types in order and calls the trait's method with all it bound, and the names that the
  server lists, that the arms match and that the proxy sends are all \<open>Trait::method\<close>. The listed names
  are distinct exactly when the method names are.
\<close>

theorem macro_output_matches_trait:
  assumes "service_macro parse2 attr input = Inr x"
  shows "\<exists>item ms. parse2 input = Inr item \<and> it_items item = map Item_Fn ms
    \<and> td_ident (ex_trait x) = it_ident item
    \<and> list_all2 (\<lambda>m f. fn_matches m (tfn_name f) (tfn_params f) (tfn_ok f)) ms (td_sigs (ex_trait x))
    \<and> list_all2 (\<lambda>m f. fn_matches m (cf_name f) (cf_params f) (cf_ok f) \<and> cf_encoded f = map arg_name (cf_params f))
        ms (cd_methods (ex_client x))
    \<and> list_all2 (\<lambda>f a. da_method a = cf_name f \<and> da_types a = map arg_ty (cf_params f) \<and> da_passed a = da_bound a
          \<and> length (da_bound a) = length (da_types a))
        (cd_methods (ex_client x)) (sd_arms (ex_server x))
    \<and> sd_wire_names (ex_server x) = map (\<lambda>m. it_ident item @ ''::'' @ sig_ident (tf_sig m)) ms
    \<and> map da_wire_name (sd_arms (ex_server x)) = sd_wire_names (ex_server x)
    \<and> map cf_wire_name (cd_methods (ex_client x)) = sd_wire_names (ex_server x)
    \<and> (distinct (sd_wire_names (ex_server x)) \<longleftrightarrow> distinct (map (\<lambda>m. sig_ident (tf_sig m)) ms))"
proof -
  from assms obtain s where s: "service_parse parse2 input = Inr s" and x: "x = expand s"
    by (auto simp: service_macro_def split: sum.splits)
  from s obtain item ms where item: "parse2 input = Inr item" "it_items item = map Item_Fn ms"
    "list_all2 method_shape ms (st_methods s)" "st_ident s = it_ident item"
    unfolding service_parse_iff by blast
  have matches: "list_all2 (\<lambda>m p. fn_matches m (m_ident p) (m_args p) (m_ok_type p)) ms (st_methods s)"
    using item(3) by (rule list_all2_mono) (rule method_shape_matches)
  have "list_all2 (\<lambda>m p. sig_ident (tf_sig m) = m_ident p) ms (st_methods s)"
    using matches by (rule list_all2_mono) (simp add: fn_matches_def)
  then have idents: "map m_ident (st_methods s) = map (\<lambda>m. sig_ident (tf_sig m)) ms"
    by (induction rule: list_all2_induct) auto
  have names: "sd_wire_names (ex_server x) = map (\<lambda>i. it_ident item @ ''::'' @ i) (map m_ident (st_methods s))"
    by (simp add: x expand_def expand_server_def wire_method_name_def item(4))
  show ?thesis
  proof (intro exI conjI)
    show "sd_wire_names (ex_server x) = map (\<lambda>m. it_ident item @ ''::'' @ sig_ident (tf_sig m)) ms"
      unfolding names idents by simp
    show "distinct (sd_wire_names (ex_server x)) \<longleftrightarrow> distinct (map (\<lambda>m. sig_ident (tf_sig m)) ms)"
      unfolding names idents [symmetric] by (simp add: distinct_map inj_on_def)
  qed (use item(1,2,4) matches in \<open>simp_all add: x expand_def expand_trait_def expand_client_def
      expand_server_def expand_client_fn_def expand_arm_def list_all2_map1 list_all2_map2 list_all2_same comp_def\<close>)
qed

theorem macro_output_matches_trait_witness:
  "\<exists>x :: expansion. service_macro Inr [] (ui_trait [Item_Fn (ui_method ''ok'' True False (result_of (Type_Tuple [])) None)])
       = (Inr x :: string syn_error + expansion)
     \<and> sd_wire_names (ex_server x) = [''Bad::ok'']"
proof -
  let ?input = "ui_trait [Item_Fn (ui_method ''ok'' True False (result_of (Type_Tuple [])) None)]"
  have "\<exists>x :: expansion. service_macro Inr [] ?input = (Inr x :: string syn_error + expansion)"
    by (simp add: service_macro_def service_parse_def ui_trait_def ui_method_def plain_generics_def
        self_ref_def result_of_def method_parse_def Let_def)
  then obtain x where x: "service_macro Inr [] ?input = (Inr x :: string syn_error + expansion)" ..
  from macro_output_matches_trait [OF x] have "sd_wire_names (ex_server x) = [''Bad::ok'']"
    by (auto simp: ui_trait_def ui_method_def)
  with x show ?thesis by blast
qed

text \<open>
  Wire names of different traits never clash, because an identifier has no colon: a name
  determines the trait's and the method's identifier.
\<close>

lemma wire_names_determine_method:
  assumes "CHR '':'' \<notin> set (st_ident s)" and "CHR '':'' \<notin> set (st_ident s')"
    and "st_ident s \<noteq> st_ident s'"
  shows "set (sd_wire_names (ex_server (expand s))) \<inter> set (sd_wire_names (ex_server (expand s'))) = {}"
  using assms wire_method_name_inject [OF assms(1,2)] by (auto simp: expand_def expand_server_def)

end
