(* ===== verification/Service_Props.thy ===== *)
theory Service_Props
  imports Service Macro_Props
begin

text \<open>
  The properties of a generated service: registering and dispatching it, calling it through a
  generated proxy, and its error paths. They rest on the laws of payloads (locale
  \<open>payload_codec\<close>) and on what \<open>rustc\<close> checks of the generated code (locale \<open>generated_server\<close>).
\<close>

section \<open>Registration and dispatch\<close>

text \<open>A server with one generated service added to a builder.\<close>

definition served ::
  "('b, 'e) serde_lib \<Rightarrow> ('x \<Rightarrow> string) \<Rightarrow> ('b, 'x, 'w) trait_impl \<Rightarrow> service_trait \<Rightarrow> 'w server_builder \<Rightarrow>
   string \<Rightarrow> 'w handler option" where
  "served L disp impl service b =
     handlers (build (add_service (generated_service L disp impl (ex_server (expand service))) b))"

lemma served_lookup:
  assumes "generated_server base L service"
  shows "served L disp impl service b name =
     (if name \<in> wire_method_name service ` set (st_methods service)
      then Some (serve_name L disp impl service name) else handlers (build b) name)"
  using generated_server.srv_registered [OF assms]
  by (auto simp: served_def expand_def add_service_lookup generated_server.srv_names [OF assms])

lemma served_method:
  assumes "generated_server base L service" "m \<in> set (st_methods service)"
  shows "served L disp impl service b (wire_method_name service m) = Some (serve_method L disp impl m)"
  using assms(2)
  by (simp add: served_lookup [OF assms(1)] serve_name_def fun_eq_iff
      generated_server.method_named_wire [OF assms] split: option.split)

text \<open>
  C24. Routing. A generated service answers each of its wire names by decoding the method's argument
  tuple and calling that method, every other name by 404 with the state untouched, whether it is
  asked directly or through the registry of a server that serves nothing else.
\<close>

theorem generated_service_routes:
  assumes "generated_server base L service"
  shows "(\<forall>m \<in> set (st_methods service).
        served L disp impl service b (wire_method_name service m) = Some (serve_method L disp impl m))
    \<and> (\<forall>name w p. name \<notin> wire_method_name service ` set (st_methods service) \<longrightarrow>
        service_dispatch (generated_service L disp impl (ex_server (expand service))) w name p =
          (Inl \<lparr>he_code = 404, he_message = ''unknown method: '' @ name\<rparr>, w))
    \<and> dispatch (served L disp impl service builder) q w =
        (case service_dispatch (generated_service L disp impl (ex_server (expand service))) w (rq_method q) (rq_payload q) of
           (Inr bs, w') \<Rightarrow> (Response \<lparr>rs_id = rq_id q, rs_payload = bs\<rparr>, w')
         | (Inl err, w') \<Rightarrow>
             (Error \<lparr>er_id = rq_id q, er_code = he_code err, er_message = he_message err\<rparr>, w'))"
proof (intro conjI ballI allI impI)
  fix m assume "m \<in> set (st_methods service)"
  then show "served L disp impl service b (wire_method_name service m) = Some (serve_method L disp impl m)"
    by (rule served_method [OF assms])
next
  fix name w p assume "name \<notin> wire_method_name service ` set (st_methods service)"
  from generated_server.srv_rejects [OF assms this]
  show "service_dispatch (generated_service L disp impl (ex_server (expand service))) w name p =
      (Inl \<lparr>he_code = 404, he_message = ''unknown method: '' @ name\<rparr>, w)"
    by (simp add: expand_def handler_error_new_def)
qed (simp add: served_def expand_def generated_server.srv_registry [OF assms])

theorem generated_service_routes_witness:
  "dispatch (served ref_lib (\<lambda>e. e) calc_impl calc_trait builder)
     \<lparr>rq_id = 4, rq_method = ''Calc::nonexistent'', rq_payload = []\<rparr> 0
   = (Error \<lparr>er_id = 4, er_code = 404, er_message = ''unknown method: Calc::nonexistent''\<rparr>, 0)"
proof -
  have "''Calc::nonexistent'' \<notin> wire_method_name calc_trait ` set (st_methods calc_trait)"
    by (simp add: calc_trait_def wire_method_name_def)
  with generated_service_routes [OF calc_generated_server, where q = "\<lparr>rq_id = 4, rq_method = ''Calc::nonexistent'', rq_payload = []\<rparr>"
      and disp = "\<lambda>e. e" and impl = calc_impl and w = 0 and b = builder]
  show ?thesis by simp
qed

text \<open>
  C27. Services of different traits do not disturb each other: with both added, in either order, each
  wire name of either is answered as if its service were alone.
\<close>

theorem services_coexist:
  assumes "generated_server base L s" and "generated_server base' L' s'"
    and "CHR '':'' \<notin> set (st_ident s)" and "CHR '':'' \<notin> set (st_ident s')" and "st_ident s \<noteq> st_ident s'"
    and "name \<in> set (sd_wire_names (ex_server (expand s)))"
  shows "handlers (build (add_service (generated_service L' disp' impl' (ex_server (expand s')))
        (add_service (generated_service L disp impl (ex_server (expand s))) b))) name
      = served L disp impl s builder name
    \<and> handlers (build (add_service (generated_service L disp impl (ex_server (expand s)))
        (add_service (generated_service L' disp' impl' (ex_server (expand s'))) b))) name
      = served L disp impl s builder name"
proof -
  have name: "name \<in> wire_method_name s ` set (st_methods s)"
    using assms(6) by (simp add: expand_def expand_server_def)
  moreover have "name \<notin> wire_method_name s' ` set (st_methods s')"
    using name wire_method_name_inject [OF assms(3,4)] assms(5) by auto
  ultimately show ?thesis
    using served_lookup [OF assms(1), of disp impl] served_lookup [OF assms(2), of disp' impl']
    by (simp add: served_def)
qed

definition other_trait :: service_trait where
  "other_trait =
     \<lparr>st_vis = [], st_attrs = [], st_supertraits = [], st_ident = ''Other'',
      st_methods = [\<lparr>m_ident = ''ping'', m_args = [], m_ok_type = u8_type\<rparr>]\<rparr>"

lemma other_generated_server: "generated_server ref_base ref_lib other_trait"
  by unfold_locales (simp_all add: other_trait_def)

theorem services_coexist_witness:
  "handlers (build (add_service (generated_service ref_lib (\<lambda>e. e) calc_impl (ex_server (expand other_trait)))
     (add_service (generated_service ref_lib (\<lambda>e. e) calc_impl (ex_server (expand calc_trait))) builder))) ''Calc::ping''
   = served ref_lib (\<lambda>e. e) calc_impl calc_trait builder ''Calc::ping''"
  by (rule services_coexist [OF calc_generated_server other_generated_server, THEN conjunct1])
    (simp_all add: calc_trait_def other_trait_def expand_def expand_server_def wire_method_name_def)

section \<open>Calling through a proxy\<close>

text \<open>\<open>Client::call\<close> as one exchange with a server: the request dispatched, the answer as the caller gets it.\<close>

definition exchange ::
  "(string \<rightharpoonup> 'w handler) \<Rightarrow> u64 \<Rightarrow> string \<Rightarrow> bytes \<Rightarrow> 'w \<Rightarrow> ('x patina_error + bytes) \<times> 'w" where
  "exchange hs i m p w =
     (case dispatch hs \<lparr>rq_id = i, rq_method = m, rq_payload = p\<rparr> w of
        (e, w') \<Rightarrow> (call_result (Some e), w'))"

text \<open>An error of the implementation as the caller sees it: application errors as they are, others as a 500.\<close>

definition remote_error :: "('x \<Rightarrow> string) \<Rightarrow> 'x patina_error \<Rightarrow> 'y patina_error" where
  "remote_error disp e =
     Remote (he_code (handler_error_from_patina disp e)) (he_message (handler_error_from_patina disp e))"

lemma remote_error_application [simp]: "remote_error disp (Remote c msg) = Remote c msg"
  by (simp add: remote_error_def)

lemma exchange_method:
  assumes "hs name = Some h"
  shows "exchange hs i name p w =
     (case h w p of
        (Inr bs, w') \<Rightarrow> (Inr bs, w')
      | (Inl err, w') \<Rightarrow> (Inl (Remote (he_code err) (he_message err)), w'))"
  using assms
  by (simp add: exchange_def dispatch_def patina_from_error_data_def split: prod.splits sum.splits)

lemma exchange_served:
  assumes "generated_server base L service" "m \<in> set (st_methods service)"
  shows "exchange (served L disp impl service b) i (wire_method_name service m) p w =
     (case serve_method L disp impl m w p of
        (Inr bs, w') \<Rightarrow> (Inr bs, w')
      | (Inl err, w') \<Rightarrow> (Inl (Remote (he_code err) (he_message err)), w'))"
  by (rule exchange_method, rule served_method [OF assms])

lemma proxy_payload_expanded:
  assumes "distinct (map arg_name (m_args m))" "length args = length (m_args m)"
  shows "proxy_payload L (expand_client_fn service m) args = encode L (Tuple args)"
  using assms by (simp add: proxy_payload_def expand_client_fn_def read_bindings)

text \<open>A result of the method: if it is a value, it is of the declared type and serialises.\<close>

definition result_encodes ::
  "('b \<Rightarrow> ty \<Rightarrow> bool) \<Rightarrow> ('b, 'e) serde_lib \<Rightarrow> rpc_method \<Rightarrow> 'x patina_error + 'b rust_val \<Rightarrow> bool" where
  "result_encodes base L m r =
     (case r of Inl e \<Rightarrow> True | Inr v \<Rightarrow> typed base v (m_ok_type m) \<and> \<not> isl (to_vec L v))"

lemma result_encodesD:
  "result_encodes base L m (Inr v) \<Longrightarrow> \<exists>bs. typed base v (m_ok_type m) \<and> to_vec L v = Inr bs"
  by (cases "to_vec L v") (auto simp: result_encodes_def)

text \<open>One exchange for a method, from typed arguments to the decoded result.\<close>

lemma typed_exchange:
  assumes "generated_server base L service" "m \<in> set (st_methods service)"
    and "typed_list base args (map arg_ty (m_args m))" "to_vec L (Tuple args) = Inr p"
    and "result_encodes base L m (fst (impl (m_ident m) args w))"
    and "exchange (served L disp impl service b) i (wire_method_name service m) p w = (r, w')"
  shows "and_then r (decode L (m_ok_type m)) =
      (case fst (impl (m_ident m) args w) of Inr v \<Rightarrow> Inr v | Inl e \<Rightarrow> Inl (remote_error disp e))
    \<and> w' = snd (impl (m_ident m) args w)"
proof -
  have codec: "payload_codec base L" using assms(1) by (simp add: generated_server_def)
  have decoded: "decode L (Type_Tuple (map arg_ty (m_args m))) p = Inr (Tuple args)"
    by (rule payload_codec.tuple_roundtrip [OF codec assms(3,4)])
  note call = assms(6) [unfolded exchange_served [OF assms(1,2)] serve_method_def decoded]
  show ?thesis
  proof (cases "impl (m_ident m) args w")
    case (Pair res u)
    show ?thesis
    proof (cases res)
      case (Inl e)
      with call Pair show ?thesis by (auto simp: remote_error_def)
    next
      case (Inr v)
      with assms(5) Pair obtain bs where v: "typed base v (m_ok_type m)" "to_vec L v = Inr bs"
        using result_encodesD by fastforce
      from payload_codec.payload_roundtrip [OF codec v] call show ?thesis
        by (auto simp: Pair Inr encode_def v(2))
    qed
  qed
qed

lemma proxy_call_local:
  assumes "generated_server base L service" and "m \<in> set (st_methods service)"
    and "wire_method_name service' m' = wire_method_name service m"
    and "map arg_ty (m_args m') = map arg_ty (m_args m)" and "m_ok_type m' = m_ok_type m"
    and "distinct (map arg_name (m_args m'))"
    and "typed_list base args (map arg_ty (m_args m))" and "to_vec L (Tuple args) = Inr p"
    and "result_encodes base L m (fst (impl (m_ident m) args w))"
  shows "proxy_call L (expand_client_fn service' m') (exchange (served L disp impl service b) i) args w =
     (case impl (m_ident m) args w of
        (Inr v, w') \<Rightarrow> (Inr v, w')
      | (Inl e, w') \<Rightarrow> (Inl (remote_error disp e :: 'y patina_error), w'))"
proof -
  let ?f = "expand_client_fn service' m'"
  have "length args = length (m_args m')"
    using typed_list_length [OF assms(7)] arg_cong [OF assms(4), of length] by simp
  then have payload: "proxy_payload L ?f args = Inr p"
    by (simp add: proxy_payload_expanded [OF assms(6)] encode_def assms(8))
  have f: "cf_wire_name ?f = wire_method_name service m" "cf_ok ?f = m_ok_type m"
    by (simp_all add: expand_client_fn_def assms(3,5))
  obtain r :: "'y patina_error + bytes" and w' where call: "exchange (served L disp impl service b) i (wire_method_name service m) p w = (r, w')"
    by (rule prod.exhaust)
  from typed_exchange [OF assms(1,2,7,8,9) call] show ?thesis
    by (simp add: proxy_call_def payload f call proxy_result_def split: prod.splits sum.splits)
qed

text \<open>
  C23. A proxy call is the local call. Let the client's and the server's trait give a method the same wire name,
  argument types and result type, as when both compile against one API crate, or when only parameter
  names differ. Then for well-typed arguments that serialise, the proxy calls the implementation once
  with exactly these arguments in order and returns its value, its application error unchanged, and any
  other error as a 500 with its text. So a rename or swap of equally typed parameters goes unnoticed.
\<close>

theorem proxy_call_is_local_call:
  assumes "generated_server base L service" and "m \<in> set (st_methods service)"
    and "wire_method_name service' m' = wire_method_name service m"
    and "map arg_ty (m_args m') = map arg_ty (m_args m)" and "m_ok_type m' = m_ok_type m"
    and "distinct (map arg_name (m_args m'))"
    and "typed_list base args (map arg_ty (m_args m))" and "to_vec L (Tuple args) = Inr p"
    and "result_encodes base L m (fst (impl (m_ident m) args w))"
  shows "proxy_call L (expand_client_fn service' m') (exchange (served L disp impl service b) i) args w =
     (case impl (m_ident m) args w of
        (Inr v, w') \<Rightarrow> (Inr v, w')
      | (Inl e, w') \<Rightarrow> (Inl (remote_error disp e :: 'y patina_error), w'))"
  by (rule proxy_call_local) (fact assms)+

text \<open>The witness: a client whose copy of the trait declares \<open>add(b, a)\<close>, a server with \<open>add(a, b)\<close>.\<close>

theorem proxy_call_is_local_call_witness:
  "proxy_call ref_lib
     (expand_client_fn calc_trait \<lparr>m_ident = ''add'', m_args = [arg ''b'', arg ''a''], m_ok_type = u8_type\<rparr>)
     (exchange (served ref_lib (\<lambda>e. e) calc_impl calc_trait builder) 7) [Val 10, Val 4] 0 = (Inr (Val 14), Suc 0)"
  using proxy_call_is_local_call [OF calc_generated_server,
      where m = "\<lparr>m_ident = ''add'', m_args = [arg ''a'', arg ''b''], m_ok_type = u8_type\<rparr>"
        and m' = "\<lparr>m_ident = ''add'', m_args = [arg ''b'', arg ''a''], m_ok_type = u8_type\<rparr>"
        and service' = calc_trait and args = "[Val 10, Val 4]" and impl = calc_impl and w = 0
        and disp = "\<lambda>e. e" and b = builder and i = 7]
  by (simp add: calc_trait_def arg_def ref_base_def ref_lib_def ref_val_encode_def wire_method_name_def
      result_encodes_def)

section \<open>Serialisation failures\<close>

text \<open>
  C28. The error paths of the generated code. Arguments that do not serialise fail at the caller with 500
  and nothing is sent; a payload that does not decode is answered with 400 without calling the
  implementation; a result that does not serialise is answered with 500, and the call's effects on the
  service's state stay.
\<close>

theorem serialisation_failures:
  assumes "generated_server base L service" and "m \<in> set (st_methods service)"
    and "length args = length (m_args m)"
  shows "(to_vec L (Tuple args) = Inl x \<longrightarrow>
        proxy_call L (expand_client_fn service m) call args s = (Inl (Remote 500 (''encode: '' @ display L x)), s))
    \<and> (from_slice L (Type_Tuple (map arg_ty (m_args m))) p = Inl x \<longrightarrow>
        exchange (served L disp impl service b) i (wire_method_name service m) p w
          = (Inl (Remote 400 (''decode: '' @ display L x)), w))
    \<and> (from_slice L (Type_Tuple (map arg_ty (m_args m))) p = Inr (Tuple vs, n)
          \<and> impl (m_ident m) vs w = (Inr v, w') \<and> to_vec L v = Inl x \<longrightarrow>
        exchange (served L disp impl service b) i (wire_method_name service m) p w
          = (Inl (Remote 500 (''encode: '' @ display L x)), w'))"
proof -
  note distinct = generated_server.distinct_args [OF assms(1,2)]
  show ?thesis
    by (simp add: proxy_call_def proxy_payload_expanded [OF distinct assms(3)] encode_def decode_def
        exchange_served [OF assms(1,2)]
        serve_method_def)
qed

theorem serialisation_failures_witness:
  "exchange (served ref_lib (\<lambda>e. e) calc_impl calc_trait builder) 7 ''Calc::add'' [1] 0
     = (Inl (Remote 400 ''decode: unexpected end''), 0)"
proof -
  let ?m = "\<lparr>m_ident = ''add'', m_args = [arg ''a'', arg ''b''], m_ok_type = u8_type\<rparr>"
  have "?m \<in> set (st_methods calc_trait)" "length [Val 10, Val 4] = length (m_args ?m)"
    by (simp_all add: calc_trait_def)
  from serialisation_failures [OF calc_generated_server this, of "''unexpected end''" undefined undefined "[1]"
      "\<lambda>e. e" calc_impl builder 7 0 "[]" 0 "Val 0" 0]
  have "from_slice ref_lib (Type_Tuple (map arg_ty (m_args ?m))) [1] = Inl ''unexpected end'' \<Longrightarrow>
    exchange (served ref_lib (\<lambda>e. e) calc_impl calc_trait builder) 7 (wire_method_name calc_trait ?m) [1] 0
      = (Inl (Remote 400 (''decode: '' @ display ref_lib ''unexpected end'')), 0)" by blast
  then show ?thesis
    by (simp add: calc_trait_def arg_def ref_lib_def ref_val_decode_def u8_type_def wire_method_name_def)
qed

section \<open>Types\<close>

text \<open>Two implementations that do the same on arguments of the methods' types.\<close>

definition agree_on_typed ::
  "('b \<Rightarrow> ty \<Rightarrow> bool) \<Rightarrow> service_trait \<Rightarrow> ('b, 'x, 'w) trait_impl \<Rightarrow> ('b, 'x, 'w) trait_impl \<Rightarrow> bool" where
  "agree_on_typed base service impl impl' \<longleftrightarrow>
     (\<forall>m \<in> set (st_methods service). \<forall>args w.
        typed_list base args (map arg_ty (m_args m)) \<longrightarrow> impl (m_ident m) args w = impl' (m_ident m) args w)"

lemma serve_method_typed:
  fixes impl impl' :: "('b, 'x, 'w) trait_impl"
  assumes "payload_codec base L" "agree_on_typed base service impl impl'" "m \<in> set (st_methods service)"
  shows "serve_method L disp impl m w p = serve_method L disp impl' m w p"
proof (cases "decode L (Type_Tuple (map arg_ty (m_args m))) p :: 'x patina_error + _")
  case (Inr v)
  from payload_codec.decoded_typed [OF assms(1) Inr] obtain vs where
    "v = Tuple vs" "typed_list base vs (map arg_ty (m_args m))"
    using payload_codec.decoded_tuple [OF assms(1) Inr] by auto
  with assms(2,3) Inr show ?thesis by (simp add: serve_method_def agree_on_typed_def)
qed (simp add: serve_method_def)



end
