(* ===== verification/System.thy ===== *)
theory System
  imports Client_Live Server_Props Codec_Props Service_Props
begin

text \<open>
  One connection as a whole: a client, a server connection and the two byte streams between them,
  each written and read through a \<open>WireCodec\<close> of its own. \<open>delivered\<close> relates the envelopes one side
  has written to those the other side has decoded so far; fragmentation and delay are arbitrary.
\<close>

section \<open>The byte streams\<close>

definition delivered ::
  "(envelope \<Rightarrow> 'x + bytes) \<Rightarrow> (bytes \<Rightarrow> 'x + (envelope \<times> nat)) \<Rightarrow> (nat \<Rightarrow> 's) \<Rightarrow>
   ('s \<Rightarrow> bytes \<Rightarrow> ('x + bytes option) \<times> 's \<times> bytes) \<Rightarrow>
   ('s \<Rightarrow> bytes \<Rightarrow> bytes \<Rightarrow> ('x + unit) \<times> 's \<times> bytes) \<Rightarrow> envelope list \<Rightarrow> envelope list \<Rightarrow> bool" where
  "delivered enc dec new_codec fdec fenc out inp \<longleftrightarrow>
     (\<exists>c bytes chunks c' buf.
        encode_all (wire_encode enc fenc) (wire_new new_codec) out [] = (Inr (), c, bytes) \<and>
        prefix (concat chunks) bytes \<and>
        feed (wire_decode dec fdec) (wire_new new_codec) [] chunks = Some (inp, None, c', buf))"

context envelope_codec
begin

lemma delivered_prefix:
  assumes "delivered encode_to_vec decode_from_slice new_codec frame_decode frame_encode out inp"
  shows "prefix inp out"
proof -
  from assms obtain c bytes chunks c' buf where
    enc: "encode_all wenc (wire_new new_codec) out [] = (Inr (), c, bytes)"
    and pre: "prefix (concat chunks) bytes"
    and dec: "feed wdec (wire_new new_codec) [] chunks = Some (inp, None, c', buf)"
    unfolding delivered_def by blast
  from encode_all_InrD [OF enc] obtain ps where
    ps: "list_all2 (sends (cap (wire_new new_codec))) out ps" "bytes = concat (map frame_of ps)" by auto
  with pre have "prefix (rest_of (wire_new new_codec) [] @ concat chunks) (concat (map frame_of ps))"
    by (simp add: wire_new_fresh)
  from feed_prefix [OF this ps(1) wire_new_cap fresh_start] dec show ?thesis by auto
qed

lemma delivered_all:
  assumes "list_all2 (sends DEFAULT_MAX_FRAME_LEN) es ps"
  shows "delivered encode_to_vec decode_from_slice new_codec frame_decode frame_encode es es"
proof -
  have sends: "list_all2 (sends (cap (wire_new new_codec))) es ps" by (simp add: wire_new_fresh assms)
  from encode_all_frames [OF sends, of "[]"] obtain c where
    "encode_all wenc (wire_new new_codec) es [] = (Inr (), c, concat (map frame_of ps))" by auto
  moreover have "rest_of (wire_new new_codec) [] @ concat [concat (map frame_of ps)] = concat (map frame_of ps)"
    by (simp add: wire_new_fresh)
  from feed_frames [OF this sends wire_new_cap fresh_start] obtain c' buf where
    "feed wdec (wire_new new_codec) [] [concat (map frame_of ps)] = Some (es, None, c', buf)" by blast
  moreover have "prefix (concat [concat (map frame_of ps)]) (concat (map frame_of ps))"
    unfolding concat.simps append_Nil2 ..
  ultimately show ?thesis unfolding delivered_def by blast
qed

end

section \<open>What the two ends have seen\<close>

fun client_frames :: "event list \<Rightarrow> envelope list" where
  "client_frames [] = []"
| "client_frames (EvReaderFrame e # es) = e # client_frames es"
| "client_frames (_ # es) = client_frames es"

fun server_frames :: "conn_event list \<Rightarrow> envelope list" where
  "server_frames [] = []"
| "server_frames (Frame e # ls) = e # server_frames ls"
| "server_frames (_ # ls) = server_frames ls"

lemma client_frames_iff: "e \<in> set (client_frames es) \<longleftrightarrow> EvReaderFrame e \<in> set es"
  by (induction es rule: client_frames.induct) auto

lemma server_frames_append [simp]: "server_frames (ls @ ms) = server_frames ls @ server_frames ms"
  by (induction ls rule: server_frames.induct) simp_all

lemma step_received:
  "conn_step hs s l t \<Longrightarrow> q \<in># received t \<Longrightarrow> q \<in># received s \<or> l = Frame (Request q)"
  by (erule conn_step.cases) (auto simp: close_writer_def)

lemma exec_received:
  "conn_exec hs s ls t \<Longrightarrow> q \<in># received t \<Longrightarrow> q \<in># received s \<or> Request q \<in> set (server_frames ls)"
  by (induction rule: conn_exec.induct) (auto dest: step_received)

lemma written_answered:
  assumes "conn_exec hs (open_conn w) ls t" "e \<in> set (written t)"
  shows "\<exists>q v v'. Request q \<in> set (server_frames ls) \<and> dispatch hs q v = (e, v')"
proof -
  from conn_exec_inv [OF assms(1)] have inv: "conn_inv hs t" .
  have "image_mset fst (answered t) \<subseteq># received t" using inv by (auto simp: conn_inv_def)
  moreover from conn_inv_written [OF inv assms(2)] obtain q where q: "(q, e) \<in># answered t" by blast
  ultimately have "q \<in># received t"
    by (auto dest!: mset_subset_eqD [of _ _ q] simp: rev_image_eqI)
  with exec_received [OF assms(1)] have "Request q \<in> set (server_frames ls)" by (simp add: open_conn_def)
  with conn_inv_answered [OF inv q] show ?thesis by blast
qed

lemma sent_built:
  assumes "client_run es from_stream = Some s" "Request q \<in> set (sent s)"
  shows "\<exists>c. built s c = Some q"
proof -
  from run_flow_ok [OF assms(1)] obtain cs where
    flow: "map Some (flow s) = map (\<lambda>c. map_option Request (built s c)) cs"
    unfolding flow_ok_def by blast
  have "Some (Request q) \<in> set (map Some (flow s))" using assms(2) by (simp add: flow_def)
  then show ?thesis unfolding flow by (auto simp: eq_commute [of "Some (Request q)"])
qed

text \<open>
  The server side of an answer a call returned: it is what \<open>dispatch\<close> gave, in some state of the
  service, for the very request that call built.
\<close>

lemma finished_answer:
  assumes codec: "envelope_codec enc dec new_codec fdec fenc max_frame held"
    and client: "client_run es from_stream = Some s" "length (numbered es) \<le> 2 ^ 64"
    and server: "conn_exec hs (open_conn w0) ls t"
    and out: "delivered enc dec new_codec fdec fenc (sent s) (server_frames ls)"
    and inp: "delivered enc dec new_codec fdec fenc (written t) (client_frames es)"
    and fin: "calls s c = Finished r" "r \<noteq> Inl Closed"
  shows "\<exists>q w w' e. built s c = Some q \<and> dispatch hs q w = (e, w') \<and> r = call_result (Some e)"
proof -
  from run_routed [OF client(1)] fin obtain e q where e: "EvReaderFrame e \<in> set es"
    "built s c = Some q" "reply_id e = Some (rq_id q)" "r = call_result (Some e)"
    unfolding routed_def answers_def by blast
  have "e \<in> set (written t)"
    using e(1) set_mono_prefix [OF envelope_codec.delivered_prefix [OF codec inp]]
    by (auto simp: client_frames_iff [symmetric])
  from written_answered [OF server this] obtain q' v v' where
    q': "Request q' \<in> set (server_frames ls)" "dispatch hs q' v = (e, v')" by blast
  have "Request q' \<in> set (sent s)"
    using q'(1) set_mono_prefix [OF envelope_codec.delivered_prefix [OF codec out]] by blast
  from sent_built [OF client(1) this] obtain d where d: "built s d = Some q'" ..
  have "rq_id q' = rq_id q" using dispatch_reply_id [OF q'(2)] e(3) by simp
  with built_ids_unique [OF client d e(2)] have "d = c" by simp
  with d e(2) have "q' = q" by simp
  with e q'(2) show ?thesis by blast
qed

section \<open>One call from end to end\<close>

lemma submit_fresh:
  "\<exists>s :: 'x client. client_run (submit_run c m p) from_stream = Some s
     \<and> sent s = [Request \<lparr>rq_id = 0, rq_method = m, rq_payload = p\<rparr>]
     \<and> calls s c = Awaiting 0 (guard_new 0) \<and> pending s = [(0, c)] \<and> chans s c = Empty \<and> reader s = RIdle
     \<and> built s c = Some \<lparr>rq_id = 0, rq_method = m, rq_payload = p\<rparr>"
  by (simp add: submit_run_def client_eval)

lemma answer_awaiting:
  assumes "calls s c = Awaiting i (guard_new i)" "pending s = [(i, c)]" "chans s c = Empty" "reader s = RIdle"
    and "reply_id e = Some i"
  shows "\<exists>t. client_run (answer_run c e) s = Some t \<and> calls t c = Finished (call_result (Some e))
    \<and> pending_count t = 0 \<and> built t = built s \<and> sent t = sent s"
  using assms
  by (simp add: answer_run_def reader_op_defs call_op_defs pm_take_def send_tx_def pending_count_def pm_len_def)

definition answer_events :: "request_data \<Rightarrow> conn_event list" where
  "answer_events q = [Frame (Request q), Work, Enqueue, WriterRecv, WriterSent]"

lemma answer_exec:
  assumes "dispatch hs q w = (e, w')"
  shows "\<exists>t. conn_exec hs (open_conn w) (answer_events q) t \<and> written t = [e] \<and> world t = w'
    \<and> dispatcher t = Reading"
proof -
  let ?s1 = "open_conn w\<lparr>workers := {#Running q#}, received := {#q#}\<rparr>"
  let ?s2 = "?s1\<lparr>workers := {#Replying e#}, world := w', answered := {#(q, e)#}\<rparr>"
  let ?s3 = "?s2\<lparr>workers := {#}, queue := [e]\<rparr>"
  let ?s4 = "?s3\<lparr>queue := [], conn_writer := SSending e\<rparr>"
  have 1: "conn_step hs (open_conn w) (Frame (Request q)) ?s1"
    using read_request [of "open_conn w" hs q] by (simp add: open_conn_def)
  have 2: "conn_step hs ?s1 Work ?s2"
    using work [of ?s1 q "{#}" hs e w'] assms by (simp add: open_conn_def)
  have 3: "conn_step hs ?s2 Enqueue ?s3"
    using enqueue [of ?s2 e "{#}" hs] by (simp add: open_conn_def WRITER_CHANNEL_CAPACITY_def)
  have 4: "conn_step hs ?s3 WriterRecv ?s4"
    using conn_step.writer_recv [of ?s3 e "[]" hs] by (simp add: open_conn_def)
  have 5: "conn_step hs ?s4 WriterSent (?s4\<lparr>conn_writer := SIdle, written := written ?s4 @ [e]\<rparr>)"
    by (rule conn_step.writer_sent [of ?s4 e]) simp
  note exec = exec_cons [OF 1 exec_cons [OF 2 exec_cons [OF 3 exec_cons [OF 4 exec_one [OF 5]]]]]
  show ?thesis
    unfolding answer_events_def
    by (intro exI [of _ "?s4\<lparr>conn_writer := SIdle, written := written ?s4 @ [e]\<rparr>"] conjI exec)
      (simp_all add: open_conn_def)
qed

lemma delivered_one:
  assumes "envelope_codec enc dec new_codec fdec fenc max_frame held"
    and "enc e = Inr p" "length p \<le> DEFAULT_MAX_FRAME_LEN"
  shows "delivered enc dec new_codec fdec fenc [e] [e]"
  using assms(2,3)
  by (intro envelope_codec.delivered_all [OF assms(1), where ps = "[p]"])
    (simp add: envelope_codec.sends_def [OF assms(1)])

text \<open>A complete round on a fresh connection, seen at its end.\<close>

lemma complete_round:
  fixes enc :: "envelope \<Rightarrow> 'x + bytes"
  assumes "envelope_codec enc dec new_codec fdec fenc max_frame held"
    and "enc (Request \<lparr>rq_id = 0, rq_method = m, rq_payload = p\<rparr>) = Inr b1" "length b1 \<le> DEFAULT_MAX_FRAME_LEN"
    and "dispatch hs \<lparr>rq_id = 0, rq_method = m, rq_payload = p\<rparr> w = (e, w')"
    and "enc e = Inr b2" "length b2 \<le> DEFAULT_MAX_FRAME_LEN"
  shows "\<exists>(s1 :: 'y client) t s2.
      client_run (submit_run c m p) from_stream = Some s1
      \<and> delivered enc dec new_codec fdec fenc (sent s1)
          (server_frames (answer_events \<lparr>rq_id = 0, rq_method = m, rq_payload = p\<rparr>))
      \<and> conn_exec hs (open_conn w) (answer_events \<lparr>rq_id = 0, rq_method = m, rq_payload = p\<rparr>) t \<and> world t = w'
      \<and> delivered enc dec new_codec fdec fenc (written t) (client_frames (answer_run c e))
      \<and> client_run (answer_run c e) s1 = Some s2
      \<and> calls s2 c = Finished (call_result (Some e)) \<and> pending_count s2 = 0
      \<and> built s2 c = Some \<lparr>rq_id = 0, rq_method = m, rq_payload = p\<rparr> \<and> sent s2 = sent s1"
proof -
  let ?q = "\<lparr>rq_id = 0, rq_method = m, rq_payload = p\<rparr>"
  obtain s1 :: "'y client" where s1: "client_run (submit_run c m p) from_stream = Some s1"
    "sent s1 = [Request ?q]" "calls s1 c = Awaiting 0 (guard_new 0)" "pending s1 = [(0, c)]" "chans s1 c = Empty"
    "reader s1 = RIdle" "built s1 c = Some ?q"
    using submit_fresh by blast
  have "reply_id e = Some 0" using dispatch_reply_id [OF assms(4)] by simp
  from answer_awaiting [OF s1(3-6) this] obtain s2 where s2: "client_run (answer_run c e) s1 = Some s2"
    "calls s2 c = Finished (call_result (Some e))" "pending_count s2 = 0" "built s2 = built s1" "sent s2 = sent s1"
    by blast
  obtain t where t: "conn_exec hs (open_conn w) (answer_events ?q) t" "written t = [e]" "world t = w'"
    using answer_exec [OF assms(4)] by blast
  have "server_frames (answer_events ?q) = [Request ?q]" "client_frames (answer_run c e) = [e]"
    by (simp_all add: answer_events_def answer_run_def)
  then show ?thesis
    using s1(1) s2 t(1,3) delivered_one [OF assms(1-3)] delivered_one [OF assms(1,5,6)]
    by (intro exI [of _ s1] exI [of _ t] exI [of _ s2]) (simp add: s1(2,7) t(2))
qed

end
