(* ===== verification/Pipe.thy ===== *)
theory Pipe
  imports Codec
begin

text \<open>
  One direction of a TCP connection between two \<open>Framed\<close> ends (\<^verbatim>\<open>client.rs\<close> and
  \<^verbatim>\<open>server.rs\<close>): the bytes on the wire and the read buffer of the receiver. \<open>put\<close> and \<open>got\<close> are
  history: the envelopes whose frames were written completely, and those decoded. \<open>torn\<close> says that a
  failed send left part of a frame behind, after which its writer writes no more.
\<close>

section \<open>State and operations\<close>

record pipe =
  wire :: bytes
  rbuf :: bytes
  put :: "envelope list"
  got :: "envelope list"
  torn :: bool

definition new_pipe :: pipe where
  "new_pipe = \<lparr>wire = [], rbuf = [], put = [], got = [], torn = False\<rparr>"

definition pipe_push :: "bytes \<Rightarrow> envelope \<Rightarrow> pipe \<Rightarrow> pipe" where
  "pipe_push bs e p = p\<lparr>wire := wire p @ bs, put := put p @ [e]\<rparr>"

definition pipe_tear :: "bytes \<Rightarrow> pipe \<Rightarrow> pipe" where
  "pipe_tear bs p = p\<lparr>wire := wire p @ bs, torn := True\<rparr>"

definition pipe_carry :: "nat \<Rightarrow> pipe \<Rightarrow> pipe" where
  "pipe_carry n p = p\<lparr>wire := drop n (wire p), rbuf := rbuf p @ take n (wire p)\<rparr>"

definition pipe_pull :: "bytes \<Rightarrow> envelope \<Rightarrow> pipe \<Rightarrow> pipe" where
  "pipe_pull buf e p = p\<lparr>rbuf := buf, got := got p @ [e]\<rparr>"

definition pipe_keep :: "bytes \<Rightarrow> pipe \<Rightarrow> pipe" where
  "pipe_keep buf p = p\<lparr>rbuf := buf\<rparr>"

lemmas pipe_defs = pipe_push_def pipe_tear_def pipe_carry_def pipe_pull_def pipe_keep_def

section \<open>The contract of a pipe\<close>

context envelope_codec
begin

text \<open>
  With the codec \<open>c\<close> of the receiver: the bytes not yet decoded are the frames of the envelopes not yet
  decoded, and behind them at most part of one more frame, left by a torn writer.
\<close>

definition pipe_ok :: "'s wire_codec \<Rightarrow> pipe \<Rightarrow> bool" where
  "pipe_ok c p \<longleftrightarrow> cap c = DEFAULT_MAX_FRAME_LEN \<and>
     (\<exists>rest ps tail q. put p = got p @ rest \<and> list_all2 (sends DEFAULT_MAX_FRAME_LEN) rest ps \<and>
        rest_of c (rbuf p) @ wire p = concat (map frame_of ps) @ tail \<and>
        strict_prefix tail (frame_of q) \<and> length q \<le> DEFAULT_MAX_FRAME_LEN \<and> (\<not> torn p \<longrightarrow> tail = []))"

lemma pipe_ok_prefix: "pipe_ok c p \<Longrightarrow> prefix (got p) (put p)"
  by (auto simp: pipe_ok_def)

lemma pipe_ok_codec:
  "pipe_ok c p \<Longrightarrow> cap c' = cap c \<Longrightarrow> held (inner c') = held (inner c) \<Longrightarrow> pipe_ok c' p"
  by (simp add: pipe_ok_def)

lemma new_pipe_ok: "pipe_ok (wire_new new_codec) new_pipe"
  unfolding pipe_ok_def
  by (intro conjI exI [of _ "[]"]) (simp_all add: wire_new_fresh new_pipe_def strict_prefix_Nil_frame)

lemma pipe_push_ok:
  assumes "pipe_ok c p" "\<not> torn p" "sends DEFAULT_MAX_FRAME_LEN e b"
  shows "pipe_ok c (pipe_push (frame_of b) e p)"
proof -
  from assms(1,2) obtain rest ps where *: "cap c = DEFAULT_MAX_FRAME_LEN" "put p = got p @ rest"
    "list_all2 (sends DEFAULT_MAX_FRAME_LEN) rest ps" "rest_of c (rbuf p) @ wire p = concat (map frame_of ps)"
    by (auto simp: pipe_ok_def)
  from *(4) have "rest_of c (rbuf p) @ wire p @ frame_of b = concat (map frame_of ps) @ frame_of b"
    unfolding append_assoc [symmetric] by (rule arg_cong)
  with *(1-3) assms(3) show ?thesis
    unfolding pipe_ok_def
    by (intro conjI exI [of _ "rest @ [e]"] exI [of _ "ps @ [b]"] exI [of _ "[]"])
      (simp_all add: pipe_push_def strict_prefix_Nil_frame list_all2_appendI)
qed

lemma pipe_tear_ok:
  assumes "pipe_ok c p" "\<not> torn p" "strict_prefix bs (frame_of b)" "length b \<le> DEFAULT_MAX_FRAME_LEN"
  shows "pipe_ok c (pipe_tear bs p)"
proof -
  from assms(1,2) obtain rest ps where *: "cap c = DEFAULT_MAX_FRAME_LEN" "put p = got p @ rest"
    "list_all2 (sends DEFAULT_MAX_FRAME_LEN) rest ps" "rest_of c (rbuf p) @ wire p = concat (map frame_of ps)"
    by (auto simp: pipe_ok_def)
  from *(4) have "rest_of c (rbuf p) @ wire p @ bs = concat (map frame_of ps) @ bs"
    unfolding append_assoc [symmetric] by (rule arg_cong)
  with *(1-3) assms(3,4) show ?thesis
    unfolding pipe_ok_def
    by (intro conjI exI [of _ rest] exI [of _ ps] exI [of _ bs] exI [of _ b]) (simp_all add: pipe_tear_def)
qed

lemma pipe_carry_ok: "pipe_ok c p \<Longrightarrow> pipe_ok c (pipe_carry n p)"
  by (simp add: pipe_ok_def pipe_carry_def)

text \<open>Decoding gives the next envelope or asks for more bytes; it never fails.\<close>

lemma pipe_decode:
  assumes "pipe_ok c p"
  shows "(\<exists>e c' buf. wdec c (rbuf p) = (Inr (Some e), c', buf) \<and> pipe_ok c' (pipe_pull buf e p))
    \<or> (\<exists>c' buf. wdec c (rbuf p) = (Inr None, c', buf) \<and> pipe_ok c' (pipe_keep buf p))"
proof -
  from assms obtain rest ps tail q where *: "cap c = DEFAULT_MAX_FRAME_LEN" "put p = got p @ rest"
    "list_all2 (sends DEFAULT_MAX_FRAME_LEN) rest ps" "rest_of c (rbuf p) @ wire p = concat (map frame_of ps) @ tail"
    "strict_prefix tail (frame_of q)" "length q \<le> DEFAULT_MAX_FRAME_LEN" "\<not> torn p \<longrightarrow> tail = []"
    unfolding pipe_ok_def by blast
  have below: "cap c < 2 ^ 32" unfolding *(1) by (rule default_cap_less)
  have wait: "\<exists>c' buf. wdec c (rbuf p) = (Inr None, c', buf) \<and> pipe_ok c' (pipe_keep buf p)"
    if "strict_prefix (rest_of c (rbuf p)) (frame_of b)" "length b \<le> DEFAULT_MAX_FRAME_LEN" for b
  proof -
    from wire_decode_incomplete [OF that(1) _ below] that(2) *(1) obtain c' buf where
      decoded: "wdec c (rbuf p) = (Inr None, c', buf)" "cap c' = cap c" "rest_of c' buf = rest_of c (rbuf p)" by auto
    have "rest_of c' buf @ wire p = rest_of c (rbuf p) @ wire p"
      unfolding append_assoc [symmetric] by (simp only: decoded(3))
    with decoded(2) * have "pipe_ok c' (pipe_keep buf p)"
      unfolding pipe_ok_def
      by (intro conjI exI [of _ rest] exI [of _ ps] exI [of _ tail] exI [of _ q]) (simp_all add: pipe_keep_def)
    with decoded(1) show ?thesis by blast
  qed
  show ?thesis
  proof (cases ps)
    case Nil
    with *(4) have "prefix (rest_of c (rbuf p)) tail" by (auto simp: prefix_def)
    then have "strict_prefix (rest_of c (rbuf p)) (frame_of q)" using *(5) by (rule prefix_order.le_less_trans)
    from wait [OF this *(6)] show ?thesis ..
  next
    case (Cons b ps')
    then obtain e rest' where rest: "rest = e # rest'" "sends DEFAULT_MAX_FRAME_LEN e b"
      "list_all2 (sends DEFAULT_MAX_FRAME_LEN) rest' ps'" using *(3) by (auto simp: list_all2_Cons2)
    have stream: "rest_of c (rbuf p) @ wire p = frame_of b @ (concat (map frame_of ps') @ tail)"
      using *(4) Cons by simp
    show ?thesis
    proof (cases "strict_prefix (rest_of c (rbuf p)) (frame_of b)")
      case True
      with wait rest(2) show ?thesis by (auto simp: sends_def)
    next
      case False
      from append_split [OF stream [unfolded append_assoc [symmetric, of "held (inner c)"]] this] obtain more where
        more: "rest_of c (rbuf p) = frame_of b @ more" "more @ wire p = concat (map frame_of ps') @ tail"
        by blast
      from wire_decode_envelope [OF more(1) rest(2) [folded *(1)] below] obtain c' buf where
        "wdec c (rbuf p) = (Inr (Some e), c', buf)" "cap c' = cap c" "rest_of c' buf = more" by blast
      moreover have "rest_of c' buf @ wire p = concat (map frame_of ps') @ tail"
        using more(2) \<open>rest_of c' buf = more\<close> by simp
      ultimately have "pipe_ok c' (pipe_pull buf e p)"
        using *(1,2,5-7) rest(1,3) unfolding pipe_ok_def
        by (intro conjI exI [of _ rest'] exI [of _ ps'] exI [of _ tail] exI [of _ q]) (simp_all add: pipe_pull_def)
      with \<open>wdec c (rbuf p) = _\<close> show ?thesis by blast
    qed
  qed
qed

lemma pipe_decode_Some:
  assumes "pipe_ok c p" "wdec c (rbuf p) = (Inr (Some e), c', buf)"
  shows "pipe_ok c' (pipe_pull buf e p)"
  using pipe_decode [OF assms(1)] assms(2) by auto

lemma pipe_decode_None:
  assumes "pipe_ok c p" "wdec c (rbuf p) = (Inr None, c', buf)"
  shows "pipe_ok c' (pipe_keep buf p)"
  using pipe_decode [OF assms(1)] assms(2) by auto

lemma pipe_decode_no_error: "pipe_ok c p \<Longrightarrow> wdec c (rbuf p) \<noteq> (Inl x, c', buf)"
  using pipe_decode [of c p] by auto

text \<open>Once all its bytes have arrived, an envelope that was written is decoded.\<close>

lemma pipe_ready:
  assumes "pipe_ok c p" "got p \<noteq> put p"
  shows "\<exists>e c' buf. wdec c (rbuf (pipe_carry (length (wire p)) p)) = (Inr (Some e), c', buf)"
proof -
  from assms obtain rest ps tail where *: "cap c = DEFAULT_MAX_FRAME_LEN" "rest \<noteq> []"
    "list_all2 (sends DEFAULT_MAX_FRAME_LEN) rest ps" "rest_of c (rbuf p) @ wire p = concat (map frame_of ps) @ tail"
    unfolding pipe_ok_def by (metis append_Nil2)
  then obtain e rest' b ps' where first: "rest = e # rest'" "ps = b # ps'" "sends DEFAULT_MAX_FRAME_LEN e b"
    by (cases rest) (auto simp: list_all2_Cons1)
  have "rest_of c (rbuf p @ wire p) = frame_of b @ concat (map frame_of ps') @ tail"
    using *(4) first(2) by simp
  from wire_decode_envelope [OF this first(3) [folded *(1)]] *(1) default_cap_less obtain c' buf where
    "wdec c (rbuf p @ wire p) = (Inr (Some e), c', buf)" by auto
  then show ?thesis by (simp add: pipe_carry_def)
qed

text \<open>Both halves of a \<open>Framed\<close> share one codec; encoding leaves what its decoder holds as it was.\<close>

lemma wire_encode_keeps:
  assumes "wenc c e dst = (r, c', dst')"
  shows "cap c' = cap c \<and> held (inner c') = held (inner c)"
proof (cases "encode_to_vec e")
  case (Inl x)
  with assms show ?thesis by (simp add: wire_encode_def)
next
  case (Inr b)
  then show ?thesis
    using assms encode_ok [of b "inner c" dst] encode_too_big [of "inner c" b dst]
    by (cases "length b \<le> cap c") (auto simp: wire_encode_def)
qed

lemma pipe_ok_encode: "pipe_ok c p \<Longrightarrow> wenc c e dst = (r, c', dst') \<Longrightarrow> pipe_ok c' p"
  using pipe_ok_codec wire_encode_keeps by blast

lemma encoded_frame:
  assumes "wenc c e [] = (Inr (), c', frame)" "cap c = DEFAULT_MAX_FRAME_LEN"
  shows "\<exists>b. sends DEFAULT_MAX_FRAME_LEN e b \<and> frame = frame_of b"
  using wire_encode_InrD [OF assms(1)] assms(2) by auto

end

end
