(* ===== verification/Rpc_Spec.thy ===== *)
theory Rpc_Spec
  imports Server
begin

text \<open>
  The abstract specification of the RPC system, and what it means to refine it. A call is a request
  that is executed at most once and returns either the reply of that execution or \<open>Closed\<close>; there are
  no ids, frames, channels or tasks. The locale \<open>refinement_map\<close> lifts a step-wise refinement mapping
  to executions.
\<close>

section \<open>Refinement mappings\<close>

inductive exec :: "('s \<Rightarrow> 'l \<Rightarrow> 's \<Rightarrow> bool) \<Rightarrow> 's \<Rightarrow> 'l list \<Rightarrow> 's \<Rightarrow> bool"
  for step s where
  exec_none: "exec step s [] s"
| exec_step: "exec step s ls t \<Longrightarrow> step t l u \<Longrightarrow> exec step s (ls @ [l]) u"

lemma exec_trans: "exec step t ms u \<Longrightarrow> exec step s ls t \<Longrightarrow> exec step s (ls @ ms) u"
proof (induction rule: exec.induct)
  case (exec_step ms t' l u)
  then show ?case using exec.exec_step [of step s "ls @ ms" t' l u] by simp
qed simp

lemma exec_single: "step s l t \<Longrightarrow> exec step s [l] t"
  using exec.exec_step [OF exec.exec_none, of step s l t] by simp

text \<open>Where a property is lost, there is a step that loses it.\<close>

lemma exec_first_change:
  assumes "exec step s ls t" "P s" "\<not> P t"
  shows "\<exists>ks l ks' k u. ls = ks @ l # ks' \<and> exec step s ks k \<and> P k \<and> step k l u \<and> \<not> P u"
  using assms
proof (induction rule: exec.induct)
  case (exec_step ls t l u)
  show ?case
  proof (cases "P t")
    case True
    with exec_step.hyps exec_step.prems show ?thesis by blast
  next
    case False
    with exec_step.IH exec_step.prems(1) obtain ks l' ks' k v where
      "ls = ks @ l' # ks'" "exec step s ks k" "P k" "step k l' v" "\<not> P v" by blast
    then show ?thesis
      by (intro exI [of _ ks] exI [of _ l'] exI [of _ "ks' @ [l]"] exI [of _ k] exI [of _ v]) simp
  qed
qed simp

text \<open>
  \<open>abs\<close> maps a concrete state to an abstract one. A concrete step from a state that an execution from
  \<open>init\<close> reaches is an abstract step or changes nothing. \<open>fits\<close> restricts the executions considered.
\<close>

locale refinement_map =
  fixes cstep :: "'c \<Rightarrow> 'l \<Rightarrow> 'c \<Rightarrow> bool"
    and init :: 'c
    and astep :: "'a \<Rightarrow> 'm \<Rightarrow> 'a \<Rightarrow> bool"
    and abs :: "'c \<Rightarrow> 'a"
    and fits :: "'l list \<Rightarrow> bool"
  assumes fits_prefix: "fits (ls @ [l]) \<Longrightarrow> fits ls"
    and step_refines: "exec cstep init ls s \<Longrightarrow> fits (ls @ [l]) \<Longrightarrow> cstep s l t \<Longrightarrow>
      abs t = abs s \<or> (\<exists>m. astep (abs s) m (abs t))"
begin

lemma exec_refines: "exec cstep init ls s \<Longrightarrow> fits ls \<Longrightarrow> \<exists>ms. exec astep (abs init) ms (abs s)"
proof (induction rule: exec.induct)
  case exec_none
  show ?case by (intro exI) (rule exec.exec_none)
next
  case (exec_step ls t l u)
  from exec_step.IH [OF fits_prefix [OF exec_step.prems]] obtain ms where ms: "exec astep (abs init) ms (abs t)" ..
  from step_refines [OF exec_step.hyps(1) exec_step.prems exec_step.hyps(2)] show ?case
  proof
    assume "abs u = abs t"
    with ms show ?thesis by auto
  next
    assume "\<exists>m. astep (abs t) m (abs u)"
    then obtain m where "astep (abs t) m (abs u)" ..
    with ms show ?thesis by (blast intro: exec.exec_step)
  qed
qed

text \<open>An execution that goes on is an execution of the specification that goes on.\<close>

lemma exec_refines_on:
  assumes "exec cstep init ls s"
  shows "exec cstep s ls' t \<Longrightarrow> fits (ls @ ls') \<Longrightarrow> fits ls \<and> (\<exists>ms. exec astep (abs s) ms (abs t))"
proof (induction rule: exec.induct)
  case exec_none
  then show ?case by (auto intro: exec.exec_none)
next
  case (exec_step ls' t l u)
  have reach: "exec cstep init (ls @ ls') t" using exec_step.hyps(1) assms by (rule exec_trans)
  have fits: "fits ((ls @ ls') @ [l])" using exec_step.prems by simp
  from exec_step.IH [OF fits_prefix [OF fits]] obtain ms where ms: "fits ls" "exec astep (abs s) ms (abs t)" by blast
  from step_refines [OF reach fits exec_step.hyps(2)] show ?case
  proof
    assume "abs u = abs t"
    with ms show ?thesis by auto
  next
    assume "\<exists>m. astep (abs t) m (abs u)"
    with ms show ?thesis by (blast intro: exec.exec_step)
  qed
qed

end

section \<open>At-most-once calls\<close>

text \<open>What a server with these handlers answers, seen by the caller.\<close>

definition handle ::
  "(string \<rightharpoonup> 'w handler) \<Rightarrow> string \<Rightarrow> bytes \<Rightarrow> 'w \<Rightarrow> ('x patina_error + bytes) \<times> 'w" where
  "handle hs m p w =
     (case hs m of
        None \<Rightarrow> (Inl (Remote 404 (''unknown method: '' @ m)), w)
      | Some h \<Rightarrow>
          (case h w p of
             (Inr bs, w') \<Rightarrow> (Inr bs, w')
           | (Inl err, w') \<Rightarrow> (Inl (Remote (he_code err) (he_message err)), w')))"

datatype 'x outcome = Returned "'x patina_error + bytes" | Gave_Up

record ('c, 'x, 'w) rpc =
  r_request :: "'c \<Rightarrow> (string \<times> bytes) option"
  r_reply :: "'c \<Rightarrow> ('x patina_error + bytes) option"
  r_outcome :: "'c \<Rightarrow> 'x outcome option"
  r_world :: 'w

definition rpc_start :: "'w \<Rightarrow> ('c, 'x, 'w) rpc" where
  "rpc_start w = \<lparr>r_request = Map.empty, r_reply = Map.empty, r_outcome = Map.empty, r_world = w\<rparr>"

datatype 'c rpc_event = Invoke 'c string bytes | Execute 'c | Return 'c | Close 'c | Give_Up 'c

inductive rpc_step :: "(string \<rightharpoonup> 'w handler) \<Rightarrow> ('c, 'x, 'w) rpc \<Rightarrow> 'c rpc_event \<Rightarrow> ('c, 'x, 'w) rpc \<Rightarrow> bool"
  for hs where
  invoke: "r_request a c = None \<Longrightarrow>
    rpc_step hs a (Invoke c m p) (a\<lparr>r_request := (r_request a)(c \<mapsto> (m, p))\<rparr>)"
| execute: "r_request a c = Some (m, p) \<Longrightarrow> r_reply a c = None \<Longrightarrow> handle hs m p (r_world a) = (r, w') \<Longrightarrow>
    rpc_step hs a (Execute c) (a\<lparr>r_reply := (r_reply a)(c \<mapsto> r), r_world := w'\<rparr>)"
| return: "r_reply a c = Some r \<Longrightarrow> r_outcome a c = None \<Longrightarrow>
    rpc_step hs a (Return c) (a\<lparr>r_outcome := (r_outcome a)(c \<mapsto> Returned r)\<rparr>)"
| close: "r_outcome a c = None \<Longrightarrow>
    rpc_step hs a (Close c) (a\<lparr>r_outcome := (r_outcome a)(c \<mapsto> Returned (Inl Closed))\<rparr>)"
| give_up: "r_outcome a c = None \<Longrightarrow>
    rpc_step hs a (Give_Up c) (a\<lparr>r_outcome := (r_outcome a)(c \<mapsto> Gave_Up)\<rparr>)"

section \<open>What the specification promises\<close>

text \<open>
  \<open>run_calls hs xs w\<close> runs the requests \<open>xs\<close> one after the other: the replies, and the final state. The
  state of the service is that of such a run over the calls in the order of their executions.
\<close>

fun run_calls :: "(string \<rightharpoonup> 'w handler) \<Rightarrow> (string \<times> bytes) list \<Rightarrow> 'w \<Rightarrow> ('x patina_error + bytes) list \<times> 'w" where
  "run_calls hs [] w = ([], w)"
| "run_calls hs ((m, p) # xs) w =
     (case handle hs m p w of (r, w') \<Rightarrow> (case run_calls hs xs w' of (rs, w'') \<Rightarrow> (r # rs, w'')))"

lemma run_calls_append:
  "run_calls hs (xs @ ys) w =
     (case run_calls hs xs w of (rs, w') \<Rightarrow> (case run_calls hs ys w' of (ss, w'') \<Rightarrow> (rs @ ss, w'')))"
  by (induction xs arbitrary: w) (auto split: prod.splits)

fun executions :: "'c rpc_event list \<Rightarrow> 'c list" where
  "executions [] = []"
| "executions (Execute c # ms) = c # executions ms"
| "executions (_ # ms) = executions ms"

lemma executions_append [simp]: "executions (ms @ ns) = executions ms @ executions ns"
  by (induction ms rule: executions.induct) simp_all

definition sequential :: "(string \<rightharpoonup> 'w handler) \<Rightarrow> 'w \<Rightarrow> 'c list \<Rightarrow> ('c, 'x, 'w) rpc \<Rightarrow> bool" where
  "sequential hs w cs a \<longleftrightarrow>
     distinct cs \<and> set cs = dom (r_reply a) \<and> set cs \<subseteq> dom (r_request a) \<and>
     run_calls hs (map (\<lambda>c. the (r_request a c)) cs) w = (map (\<lambda>c. the (r_reply a c)) cs, r_world a)"

lemma step_sequential:
  assumes "sequential hs w (executions ms) a" "rpc_step hs a l b"
  shows "sequential hs w (executions (ms @ [l])) b"
  using assms(2)
proof cases
  case (invoke c m p)
  have "c \<notin> set (executions ms)" using assms(1) invoke by (auto simp: sequential_def)
  then have upd: "map (\<lambda>d. the (if d = c then Some (m, p) else r_request a d)) (executions ms)
      = map (\<lambda>d. the (r_request a d)) (executions ms)"
    by (intro map_cong) auto
  show ?thesis using assms(1) unfolding invoke(1,2) by (auto simp: sequential_def upd)
next
  case (execute c m p r w')
  have new: "c \<notin> set (executions ms)" using assms(1) execute by (auto simp: sequential_def)
  then have upd: "map (\<lambda>d. the (if d = c then Some r else r_reply a d)) (executions ms)
      = map (\<lambda>d. the (r_reply a d)) (executions ms)"
    by (intro map_cong) auto
  show ?thesis
    using assms(1) new execute(3,5) unfolding execute(1,2) by (auto simp: sequential_def run_calls_append upd)
qed (use assms(1) in \<open>auto simp: sequential_def\<close>)

lemma exec_sequential:
  "exec (rpc_step hs) (rpc_start w) ms a \<Longrightarrow> sequential hs w (executions ms) a"
proof (induction rule: exec.induct)
  case exec_none
  then show ?case by (simp add: sequential_def rpc_start_def)
next
  case (exec_step ls t l u)
  then show ?case by (intro step_sequential)
qed

text \<open>A call returned \<open>Closed\<close> or the reply of its execution.\<close>

lemma exec_outcome:
  "exec (rpc_step hs) (rpc_start w) ms a \<Longrightarrow>
   r_outcome a c = Some (Returned r) \<Longrightarrow> r = Inl Closed \<or> r_reply a c = Some r"
proof (induction arbitrary: r rule: exec.induct)
  case exec_none
  then show ?case by (simp add: rpc_start_def)
next
  case (exec_step ls t l u)
  from exec_step.hyps(2) exec_step.prems exec_step.IH show ?case
    by cases (auto split: if_splits)
qed

text \<open>All of this in one statement about a state that an execution reaches.\<close>

lemma exec_effects:
  assumes "exec (rpc_step hs) (rpc_start w) ms a"
  shows "distinct (executions ms)" "set (executions ms) = dom (r_reply a)" "set (executions ms) \<subseteq> dom (r_request a)"
    "run_calls hs (map (\<lambda>c. the (r_request a c)) (executions ms)) w = (map (\<lambda>c. the (r_reply a c)) (executions ms), r_world a)"
    "r_outcome a c = Some (Returned r) \<Longrightarrow> r \<noteq> Inl Closed \<Longrightarrow>
       (c, r) \<in> set (zip (executions ms) (map (\<lambda>c. the (r_reply a c)) (executions ms)))"
proof -
  from exec_sequential [OF assms] show seq: "distinct (executions ms)" "set (executions ms) = dom (r_reply a)"
    "set (executions ms) \<subseteq> dom (r_request a)"
    "run_calls hs (map (\<lambda>c. the (r_request a c)) (executions ms)) w = (map (\<lambda>c. the (r_reply a c)) (executions ms), r_world a)"
    unfolding sequential_def by blast+
  assume "r_outcome a c = Some (Returned r)" "r \<noteq> Inl Closed"
  with exec_outcome [OF assms] have "r_reply a c = Some r" by blast
  with seq(2) show "(c, r) \<in> set (zip (executions ms) (map (\<lambda>c. the (r_reply a c)) (executions ms)))"
    by (force simp: zip_map2 zip_same_conv_map)
qed

end
