(* ===== verification/Network.thy ===== *)
theory Network
  imports System Pipe Rpc_Spec
begin

text \<open>
  A client and a server connection composed through two byte streams. Every send encodes through the
  codec of its end into the stream, every read decodes through the codec of the other end; the two
  halves of a \<open>Framed\<close> share its codec. The environment delays and fragments the streams, makes
  sends fail in the middle of a frame, and closes or breaks the connection for either reader. A
  connection that is aborted while it sends is a send that failed there, followed by the abort.
\<close>

section \<open>State\<close>

record ('x, 's, 'w) net =
  n_client :: "'x client"
  n_server :: "'w conn"
  n_ccodec :: "'s wire_codec"
  n_scodec :: "'s wire_codec"
  n_up :: pipe
  n_down :: pipe
  n_log :: "(request_data \<times> envelope) list"

text \<open>\<open>n_log\<close> is history: the requests dispatched with their answers, in order.\<close>

definition net_start :: "(nat \<Rightarrow> 's) \<Rightarrow> 'w \<Rightarrow> ('x, 's, 'w) net" where
  "net_start new_codec w =
     \<lparr>n_client = from_stream, n_server = open_conn w, n_ccodec = wire_new new_codec,
      n_scodec = wire_new new_codec, n_up = new_pipe, n_down = new_pipe, n_log = []\<rparr>"

section \<open>Steps\<close>

datatype net_event =
    Client_Local event
  | Client_Send
  | Client_Send_Failed
  | Client_Read envelope
  | Client_Wait
  | Client_Bad
  | Server_Local conn_event
  | Server_Send
  | Server_Send_Failed
  | Server_Read envelope
  | Server_Wait
  | Server_Bad
  | Carry_Up nat
  | Carry_Down nat

text \<open>The steps of the two machines that touch a stream are taken by the rules for it.\<close>

fun client_local :: "event \<Rightarrow> bool" where
  "client_local EvWriterSent = False"
| "client_local EvWriterFailed = False"
| "client_local (EvReaderFrame e) = False"
| "client_local _ = True"

fun server_local :: "conn_event \<Rightarrow> bool" where
  "server_local WriterSent = False"
| "server_local WriterFailed = False"
| "server_local (Frame e) = False"
| "server_local _ = True"

text \<open>What a failed send has put on the wire: nothing if the frame was refused, else part of it.\<close>

fun leaves :: "('x wire_error + unit) \<Rightarrow> bytes \<Rightarrow> bytes \<Rightarrow> bool" where
  "leaves (Inl x) frame bs = (bs = [])"
| "leaves (Inr _) frame bs = strict_prefix bs frame"

definition new_log :: "'w conn \<Rightarrow> 'w conn \<Rightarrow> (request_data \<times> envelope) list \<Rightarrow> (request_data \<times> envelope) list \<Rightarrow> bool" where
  "new_log s t log log' \<longleftrightarrow>
     (if answered t = answered s then log' = log
      else \<exists>x. answered t = add_mset x (answered s) \<and> log' = log @ [x])"

inductive net_step ::
  "(envelope \<Rightarrow> 'x + bytes) \<Rightarrow> (bytes \<Rightarrow> 'x + (envelope \<times> nat)) \<Rightarrow>
   ('s \<Rightarrow> bytes \<Rightarrow> ('x + bytes option) \<times> 's \<times> bytes) \<Rightarrow>
   ('s \<Rightarrow> bytes \<Rightarrow> bytes \<Rightarrow> ('x + unit) \<times> 's \<times> bytes) \<Rightarrow> (string \<rightharpoonup> 'w handler) \<Rightarrow>
   ('x, 's, 'w) net \<Rightarrow> net_event \<Rightarrow> ('x, 's, 'w) net \<Rightarrow> bool"
  for enc dec fdec fenc hs where
  client_local: "client_local ev \<Longrightarrow> client_step ev (n_client n) = Some t \<Longrightarrow>
    net_step enc dec fdec fenc hs n (Client_Local ev) (n\<lparr>n_client := t\<rparr>)"
| client_send: "writer (n_client n) = WSending e \<Longrightarrow>
    wire_encode enc fenc (n_ccodec n) e [] = (Inr (), k, frame) \<Longrightarrow>
    client_step EvWriterSent (n_client n) = Some t \<Longrightarrow>
    net_step enc dec fdec fenc hs n Client_Send
      (n\<lparr>n_client := t, n_ccodec := k, n_up := pipe_push frame e (n_up n)\<rparr>)"
| client_send_failed: "writer (n_client n) = WSending e \<Longrightarrow>
    wire_encode enc fenc (n_ccodec n) e [] = (r, k, frame) \<Longrightarrow> leaves r frame bs \<Longrightarrow>
    client_step EvWriterFailed (n_client n) = Some t \<Longrightarrow>
    net_step enc dec fdec fenc hs n Client_Send_Failed
      (n\<lparr>n_client := t, n_ccodec := k, n_up := pipe_tear bs (n_up n)\<rparr>)"
| client_read: "wire_decode dec fdec (n_ccodec n) (rbuf (n_down n)) = (Inr (Some e), k, buf) \<Longrightarrow>
    client_step (EvReaderFrame e) (n_client n) = Some t \<Longrightarrow>
    net_step enc dec fdec fenc hs n (Client_Read e)
      (n\<lparr>n_client := t, n_ccodec := k, n_down := pipe_pull buf e (n_down n)\<rparr>)"
| client_wait: "wire_decode dec fdec (n_ccodec n) (rbuf (n_down n)) = (Inr None, k, buf) \<Longrightarrow>
    reader (n_client n) = RIdle \<Longrightarrow>
    net_step enc dec fdec fenc hs n Client_Wait (n\<lparr>n_ccodec := k, n_down := pipe_keep buf (n_down n)\<rparr>)"
| client_bad: "wire_decode dec fdec (n_ccodec n) (rbuf (n_down n)) = (Inl x, k, buf) \<Longrightarrow>
    client_step EvReaderError (n_client n) = Some t \<Longrightarrow>
    net_step enc dec fdec fenc hs n Client_Bad
      (n\<lparr>n_client := t, n_ccodec := k, n_down := pipe_keep buf (n_down n)\<rparr>)"
| server_local: "server_local ev \<Longrightarrow> conn_step hs (n_server n) ev t \<Longrightarrow> new_log (n_server n) t (n_log n) log \<Longrightarrow>
    net_step enc dec fdec fenc hs n (Server_Local ev) (n\<lparr>n_server := t, n_log := log\<rparr>)"
| server_send: "conn_writer (n_server n) = SSending e \<Longrightarrow>
    wire_encode enc fenc (n_scodec n) e [] = (Inr (), k, frame) \<Longrightarrow>
    conn_step hs (n_server n) WriterSent t \<Longrightarrow>
    net_step enc dec fdec fenc hs n Server_Send
      (n\<lparr>n_server := t, n_scodec := k, n_down := pipe_push frame e (n_down n)\<rparr>)"
| server_send_failed: "conn_writer (n_server n) = SSending e \<Longrightarrow>
    wire_encode enc fenc (n_scodec n) e [] = (r, k, frame) \<Longrightarrow> leaves r frame bs \<Longrightarrow>
    conn_step hs (n_server n) WriterFailed t \<Longrightarrow>
    net_step enc dec fdec fenc hs n Server_Send_Failed
      (n\<lparr>n_server := t, n_scodec := k, n_down := pipe_tear bs (n_down n)\<rparr>)"
| server_read: "wire_decode dec fdec (n_scodec n) (rbuf (n_up n)) = (Inr (Some e), k, buf) \<Longrightarrow>
    conn_step hs (n_server n) (Frame e) t \<Longrightarrow>
    net_step enc dec fdec fenc hs n (Server_Read e)
      (n\<lparr>n_server := t, n_scodec := k, n_up := pipe_pull buf e (n_up n)\<rparr>)"
| server_wait: "wire_decode dec fdec (n_scodec n) (rbuf (n_up n)) = (Inr None, k, buf) \<Longrightarrow>
    dispatcher (n_server n) = Reading \<Longrightarrow>
    net_step enc dec fdec fenc hs n Server_Wait (n\<lparr>n_scodec := k, n_up := pipe_keep buf (n_up n)\<rparr>)"
| server_bad: "wire_decode dec fdec (n_scodec n) (rbuf (n_up n)) = (Inl x, k, buf) \<Longrightarrow>
    conn_step hs (n_server n) FrameError t \<Longrightarrow>
    net_step enc dec fdec fenc hs n Server_Bad
      (n\<lparr>n_server := t, n_scodec := k, n_up := pipe_keep buf (n_up n)\<rparr>)"
| carry_up: "net_step enc dec fdec fenc hs n (Carry_Up i) (n\<lparr>n_up := pipe_carry i (n_up n)\<rparr>)"
| carry_down: "net_step enc dec fdec fenc hs n (Carry_Down i) (n\<lparr>n_down := pipe_carry i (n_down n)\<rparr>)"

section \<open>The two ends of an execution\<close>

fun client_side :: "net_event list \<Rightarrow> event list" where
  "client_side [] = []"
| "client_side (Client_Local ev # ls) = ev # client_side ls"
| "client_side (Client_Send # ls) = EvWriterSent # client_side ls"
| "client_side (Client_Send_Failed # ls) = EvWriterFailed # client_side ls"
| "client_side (Client_Read e # ls) = EvReaderFrame e # client_side ls"
| "client_side (Client_Bad # ls) = EvReaderError # client_side ls"
| "client_side (_ # ls) = client_side ls"

fun server_side :: "net_event list \<Rightarrow> conn_event list" where
  "server_side [] = []"
| "server_side (Server_Local ev # ls) = ev # server_side ls"
| "server_side (Server_Send # ls) = WriterSent # server_side ls"
| "server_side (Server_Send_Failed # ls) = WriterFailed # server_side ls"
| "server_side (Server_Read e # ls) = Frame e # server_side ls"
| "server_side (Server_Bad # ls) = FrameError # server_side ls"
| "server_side (_ # ls) = server_side ls"

lemma client_side_append [simp]: "client_side (ls @ ms) = client_side ls @ client_side ms"
  by (induction ls rule: client_side.induct) simp_all

lemma server_side_append [simp]: "server_side (ls @ ms) = server_side ls @ server_side ms"
  by (induction ls rule: server_side.induct) simp_all

lemma client_frames_append [simp]: "client_frames (es @ fs) = client_frames es @ client_frames fs"
  by (induction es rule: client_frames.induct) simp_all

lemma client_local_frames: "client_local ev \<Longrightarrow> client_frames [ev] = []"
  by (cases ev) simp_all

lemma server_local_frames: "server_local ev \<Longrightarrow> server_frames [ev] = []"
  by (cases ev) simp_all

text \<open>Each net step is a step of the client, of the server, or of neither.\<close>

lemma net_step_client:
  "net_step enc dec fdec fenc hs n l m \<Longrightarrow> client_run (client_side [l]) (n_client n) = Some (n_client m)"
  by (erule net_step.cases) simp_all

lemma net_step_server:
  "net_step enc dec fdec fenc hs n l m \<Longrightarrow> conn_exec hs (n_server n) (server_side [l]) (n_server m)"
  by (erule net_step.cases) (auto intro: exec_one conn_exec.exec_nil)

lemma net_exec_client:
  "exec (net_step enc dec fdec fenc hs) (net_start new_codec w) ls n \<Longrightarrow>
   client_run (client_side ls) from_stream = Some (n_client n)"
proof (induction rule: exec.induct)
  case exec_none
  show ?case by (simp add: net_start_def)
next
  case (exec_step ls t l u)
  with net_step_client [OF exec_step.hyps(2)] show ?case by (simp add: run_append)
qed

lemma net_exec_server:
  "exec (net_step enc dec fdec fenc hs) (net_start new_codec w) ls n \<Longrightarrow>
   conn_exec hs (open_conn w) (server_side ls) (n_server n)"
proof (induction rule: exec.induct)
  case exec_none
  show ?case by (simp add: net_start_def conn_exec.exec_nil)
next
  case (exec_step ls t l u)
  with net_step_server [OF exec_step.hyps(2)] show ?case by (simp add: exec_append)
qed

end
