(* ===== verification/Network_Inv.thy ===== *)
theory Network_Inv
  imports Network
begin

text \<open>
  The invariant of a connection: the pipes hold exactly what the two machines have written and not
  yet read, and the log is what the server has answered. Its consequences, for executions that
  number at most \<open>2 ^ 64\<close> calls: the requests read are built by calls, each at most once, and the
  answer a call has been woken with is in the log.
\<close>

section \<open>The requests in a stream\<close>

fun requests :: "envelope list \<Rightarrow> request_data list" where
  "requests [] = []"
| "requests (Request q # es) = q # requests es"
| "requests (_ # es) = requests es"

lemma requests_append [simp]: "requests (es @ fs) = requests es @ requests fs"
  by (induction es rule: requests.induct) simp_all

lemma requests_iff: "q \<in> set (requests es) \<longleftrightarrow> Request q \<in> set es"
  by (induction es rule: requests.induct) auto

lemma requests_other: "\<not> is_request e \<Longrightarrow> requests [e] = []"
  by (cases e) simp_all

lemma requests_prefix: "prefix es fs \<Longrightarrow> prefix (requests es) (requests fs)"
  by (auto simp: prefix_def)

section \<open>What a step leaves alone\<close>

lemma client_local_step:
  "client_step ev s = Some t \<Longrightarrow> client_local ev \<Longrightarrow>
   sent t = sent s \<and> (writer_stopped (writer s) \<longrightarrow> writer_stopped (writer t))"
  by (cases ev) (auto simp: client_op_defs split: client_op_splits)

lemma client_reader_step:
  "client_step ev s = Some t \<Longrightarrow> ev = EvReaderFrame e \<or> ev = EvReaderError \<Longrightarrow>
   sent t = sent s \<and> writer t = writer s"
  by (auto simp: reader_op_defs split: client_op_splits)

lemma server_local_step:
  "conn_step hs s ev t \<Longrightarrow> server_local ev \<Longrightarrow>
   written t = written s \<and> received t = received s \<and> (conn_writer s = SGone \<longrightarrow> conn_writer t = SGone)"
  by (erule conn_step.cases) (auto simp: close_writer_def)

lemma server_answered:
  "conn_step hs s ev t \<Longrightarrow>
   answered t = answered s \<and> world t = world s
   \<or> (\<exists>q W e w'. ev = Work \<and> workers s = add_mset (Running q) W \<and> dispatch hs q (world s) = (e, w') \<and>
        answered t = add_mset (q, e) (answered s) \<and> world t = w')"
  by (erule conn_step.cases) (auto simp: close_writer_def)

inductive_simps writer_sent_iff: "conn_step hs s WriterSent t"
inductive_simps writer_failed_iff: "conn_step hs s WriterFailed t"

lemma server_writer_step:
  "conn_step hs s WriterSent t \<Longrightarrow> conn_writer s = SSending e \<Longrightarrow>
   t = s\<lparr>conn_writer := SIdle, written := written s @ [e]\<rparr>"
  "conn_step hs s WriterFailed t \<Longrightarrow> t = close_writer s"
  by (auto simp: writer_sent_iff writer_failed_iff)

lemma server_frame_step:
  "conn_step hs s (Frame e) t \<Longrightarrow>
   written t = written s \<and> answered t = answered s \<and> conn_writer t = conn_writer s \<and>
   received t = mset (requests [e]) + received s"
  by (erule frame_stepE) (auto simp: requests_other)

section \<open>The invariant\<close>

context envelope_codec
begin

abbreviation "nstep \<equiv> net_step encode_to_vec decode_from_slice frame_decode frame_encode"
abbreviation "nstart \<equiv> net_start new_codec"

definition net_ok :: "('x, 's, 'w) net \<Rightarrow> bool" where
  "net_ok n \<longleftrightarrow>
     pipe_ok (n_scodec n) (n_up n) \<and> pipe_ok (n_ccodec n) (n_down n) \<and>
     put (n_up n) = sent (n_client n) \<and> put (n_down n) = written (n_server n) \<and>
     (torn (n_up n) \<longrightarrow> writer_stopped (writer (n_client n))) \<and>
     (torn (n_down n) \<longrightarrow> conn_writer (n_server n) = SGone) \<and>
     received (n_server n) = mset (requests (got (n_up n))) \<and> mset (n_log n) = answered (n_server n)"

lemma net_okD:
  assumes "net_ok n"
  shows "pipe_ok (n_scodec n) (n_up n)" "pipe_ok (n_ccodec n) (n_down n)"
    "put (n_up n) = sent (n_client n)" "put (n_down n) = written (n_server n)"
    "torn (n_up n) \<Longrightarrow> writer_stopped (writer (n_client n))"
    "torn (n_down n) \<Longrightarrow> conn_writer (n_server n) = SGone"
    "received (n_server n) = mset (requests (got (n_up n)))" "mset (n_log n) = answered (n_server n)"
  using assms unfolding net_ok_def by blast+

lemma net_ok_start: "net_ok (nstart w)"
  by (simp add: net_ok_def net_start_def new_pipe_ok) (simp add: new_pipe_def from_stream_def open_conn_def)

text \<open>What a failed send leaves behind is part of a frame that the receiver would accept.\<close>

lemma failed_send_tears:
  assumes "wenc c e [] = (r, c', frame)" "leaves r frame bs" "cap c = DEFAULT_MAX_FRAME_LEN"
    and "pipe_ok k p" "\<not> torn p"
  shows "pipe_ok k (pipe_tear bs p)"
proof (cases r)
  case (Inl x)
  with assms(2) have "strict_prefix bs (frame_of [])" by (simp add: strict_prefix_Nil_frame)
  from pipe_tear_ok [OF assms(4,5) this] show ?thesis by simp
next
  case (Inr u)
  with encoded_frame [of c e c' frame] assms(1,3) obtain b where
    "sends DEFAULT_MAX_FRAME_LEN e b" "frame = frame_of b" by auto
  with Inr assms(2) pipe_tear_ok [OF assms(4,5), of bs b] show ?thesis by (simp add: sends_def)
qed

lemma net_step_ok:
  assumes "nstep hs n l m" "net_ok n"
  shows "net_ok m"
proof -
  note I = net_okD [OF assms(2)]
  have caps: "cap (n_ccodec n) = DEFAULT_MAX_FRAME_LEN" "cap (n_scodec n) = DEFAULT_MAX_FRAME_LEN"
    using I(1,2) by (simp_all add: pipe_ok_def)
  from assms(1) show ?thesis
  proof (cases rule: net_step.cases)
    case (client_local ev t)
    with I client_local_step [of ev "n_client n" t] show ?thesis by (simp add: net_ok_def)
  next
    case (client_send e k frame t)
    then have t: "t = n_client n\<lparr>writer := WIdle, sent := sent (n_client n) @ [e]\<rparr>"
      by (simp add: Client.writer_sent_def)
    have "\<not> torn (n_up n)" using I(5) client_send(3) by auto
    with encoded_frame [OF client_send(4) caps(1)] pipe_push_ok [OF I(1)]
    have "pipe_ok (n_scodec n) (pipe_push frame e (n_up n))" by blast
    with I pipe_ok_encode [OF I(2) client_send(4)] \<open>\<not> torn (n_up n)\<close> show ?thesis
      unfolding client_send(2) by (simp add: net_ok_def t) (simp add: pipe_push_def)
  next
    case (client_send_failed e r k frame bs t)
    then have t: "t = n_client n\<lparr>writer := WBreaking\<rparr>" by (simp add: Client.writer_failed_def)
    have "\<not> torn (n_up n)" using I(5) client_send_failed(3) by auto
    from failed_send_tears [OF client_send_failed(4,5) caps(1) I(1) this]
      I pipe_ok_encode [OF I(2) client_send_failed(4)] show ?thesis
      unfolding client_send_failed(2) by (simp add: net_ok_def t) (simp add: pipe_tear_def)
  next
    case (client_read e k buf t)
    with I client_reader_step [OF client_read(4)] pipe_decode_Some [OF I(2) client_read(3)] show ?thesis
      unfolding client_read(2) by (simp add: net_ok_def) (simp add: pipe_pull_def)
  next
    case (client_wait k buf)
    with I pipe_decode_None [OF I(2) client_wait(3)] show ?thesis
      unfolding client_wait(2) by (simp add: net_ok_def) (simp add: pipe_keep_def)
  next
    case (client_bad x k buf t)
    with pipe_decode_no_error [OF I(2)] show ?thesis by blast
  next
    case (server_local ev t log)
    from server_answered [OF server_local(4)] have "mset log = answered t"
      using server_local(5) I(8) by (auto simp: new_log_def)
    with I server_local_step [OF server_local(4,3)] show ?thesis
      unfolding server_local(2) by (simp add: net_ok_def)
  next
    case (server_send e k frame t)
    have "\<not> torn (n_down n)" using I(6) server_send(3) by auto
    with encoded_frame [OF server_send(4) caps(2)] pipe_push_ok [OF I(2)]
    have "pipe_ok (n_ccodec n) (pipe_push frame e (n_down n))" by blast
    with I pipe_ok_encode [OF I(1) server_send(4)] \<open>\<not> torn (n_down n)\<close> show ?thesis
      unfolding server_send(2) server_writer_step(1) [OF server_send(5,3)]
      by (simp add: net_ok_def) (simp add: pipe_push_def)
  next
    case (server_send_failed e r k frame bs t)
    have "\<not> torn (n_down n)" using I(6) server_send_failed(3) by auto
    from failed_send_tears [OF server_send_failed(4,5) caps(2) I(2) this]
      I pipe_ok_encode [OF I(1) server_send_failed(4)] show ?thesis
      unfolding server_send_failed(2) server_writer_step(2) [OF server_send_failed(6)]
      by (simp add: net_ok_def) (simp add: pipe_tear_def close_writer_def)
  next
    case (server_read e k buf t)
    with I server_frame_step [OF server_read(4)] pipe_decode_Some [OF I(1) server_read(3)] show ?thesis
      unfolding server_read(2) by (simp add: net_ok_def) (simp add: pipe_pull_def)
  next
    case (server_wait k buf)
    with I pipe_decode_None [OF I(1) server_wait(3)] show ?thesis
      unfolding server_wait(2) by (simp add: net_ok_def) (simp add: pipe_keep_def)
  next
    case (server_bad x k buf t)
    with pipe_decode_no_error [OF I(1)] show ?thesis by blast
  next
    case (carry_up i)
    with I pipe_carry_ok [OF I(1)] show ?thesis
      unfolding carry_up(2) by (simp add: net_ok_def) (simp add: pipe_carry_def)
  next
    case (carry_down i)
    with I pipe_carry_ok [OF I(2)] show ?thesis
      unfolding carry_down(2) by (simp add: net_ok_def) (simp add: pipe_carry_def)
  qed
qed

lemma net_exec_ok: "exec (nstep hs) (nstart w) ls n \<Longrightarrow> net_ok n"
  by (induction rule: exec.induct) (blast intro: net_ok_start net_step_ok)+

lemma net_step_got:
  assumes "nstep hs n l m" "got (n_down n) = client_frames (client_side ls)"
  shows "got (n_down m) = client_frames (client_side (ls @ [l]))"
  using assms
  by (cases rule: net_step.cases) (auto simp: client_local_frames pipe_defs)

lemma net_exec_got: "exec (nstep hs) (nstart w) ls n \<Longrightarrow> got (n_down n) = client_frames (client_side ls)"
proof (induction rule: exec.induct)
  case exec_none
  show ?case by (simp add: net_start_def new_pipe_def)
qed (rule net_step_got)

lemma net_step_got_up:
  assumes "nstep hs n l m" "got (n_up n) = server_frames (server_side ls)"
  shows "got (n_up m) = server_frames (server_side (ls @ [l]))"
  using assms
  by (cases rule: net_step.cases) (auto simp: server_local_frames pipe_defs)

lemma net_exec_got_up: "exec (nstep hs) (nstart w) ls n \<Longrightarrow> got (n_up n) = server_frames (server_side ls)"
proof (induction rule: exec.induct)
  case exec_none
  show ?case by (simp add: net_start_def new_pipe_def)
qed (rule net_step_got_up)

end

end
