(* ===== verification/Network_Refines.thy ===== *)
theory Network_Refines
  imports Network_Inv
begin

text \<open>
  The connection implements the specification of \<^verbatim>\<open>Rpc_Spec\<close>: a refinement mapping from the
  states of the network, with its ids, frames, queues and tasks, to requests, replies and outcomes.
\<close>

section \<open>At most one execution per request\<close>

lemma sent_requests_distinct:
  assumes "client_run es from_stream = Some s" "length (numbered es) \<le> 2 ^ 64"
  shows "distinct (requests (sent s))"
proof -
  from run_flow_ok [OF assms(1)] obtain cs where cs: "distinct cs"
    "map Some (flow s) = map (\<lambda>c. map_option Request (built s c)) cs"
    unfolding flow_ok_def by blast
  have built: "built s c \<noteq> None" if "c \<in> set cs" for c
  proof
    assume "built s c = None"
    with that have "None \<in> set (map (\<lambda>c. map_option Request (built s c)) cs)" by (force simp: image_iff)
    then show False by (simp add: cs(2) [symmetric] image_iff)
  qed
  have "map Some (flow s) = map Some (map Request (map (\<lambda>c. the (built s c)) cs))"
    unfolding cs(2) using built by auto
  then have flow: "flow s = map Request (map (\<lambda>c. the (built s c)) cs)"
    by (simp only: inj_map_eq_map [OF inj_Some])
  have "requests (map Request qs) = qs" for qs by (induction qs) simp_all
  then have "requests (flow s) = map (\<lambda>c. the (built s c)) cs" by (simp only: flow)
  moreover have "inj_on (\<lambda>c. the (built s c)) (set cs)"
  proof (rule inj_onI)
    fix c d assume in_cs: "c \<in> set cs" "d \<in> set cs" and same: "the (built s c) = the (built s d)"
    from built in_cs obtain q r where qr: "built s c = Some q" "built s d = Some r" by blast
    with same have "rq_id q = rq_id r" by simp
    with built_ids_unique [OF assms qr] show "c = d" .
  qed
  then have "distinct (map (\<lambda>c. the (built s c)) cs)" using cs(1) by (simp add: distinct_map)
  ultimately have "distinct (requests (flow s))" by simp
  then show ?thesis by (simp add: flow_def)
qed

lemma distinct_submset:
  assumes "mset xs \<subseteq># mset ys" "distinct ys"
  shows "distinct xs"
  unfolding distinct_count_atmost_1
proof
  fix a
  have "count (mset ys) a \<le> 1" using assms(2) [unfolded distinct_count_atmost_1] by auto
  with mset_subset_eq_count [OF assms(1), of a] have "count (mset xs) a \<le> 1" by (rule order_trans)
  then show "count (mset xs) a = (if a \<in> set xs then 1 else 0)"
    by (cases "a \<in> set xs") (simp_all add: le_Suc_eq count_mset_0_iff)
qed

text \<open>How the client's requests and outcomes change in a step.\<close>

fun outcome_of :: "'x call_state \<Rightarrow> 'x outcome option" where
  "outcome_of (Finished r) = Some (Returned r)"
| "outcome_of Dropped = Some Gave_Up"
| "outcome_of _ = None"

fun result_of :: "'x call_state \<Rightarrow> ('x patina_error + bytes) option" where
  "result_of (Finished r) = Some r"
| "result_of _ = None"

lemma result_of_Some [simp]: "result_of st = Some r \<longleftrightarrow> st = Finished r"
  by (cases st) simp_all

definition outcomes :: "'x client \<Rightarrow> chan \<Rightarrow> 'x outcome option" where
  "outcomes s c = outcome_of (calls s c)"

lemma outcomes_Returned: "outcomes s c = Some (Returned r) \<longleftrightarrow> calls s c = Finished r"
  by (cases "calls s c") (simp_all add: outcomes_def)

lemma client_step_view:
  assumes "client_step ev s = Some t"
  shows "built t = built s \<and> outcomes t = outcomes s
    \<or> (\<exists>c i m p. calls s c = Numbered i m p \<and> outcomes t = outcomes s \<and>
         built t = (built s)(c \<mapsto> \<lparr>rq_id = i, rq_method = m, rq_payload = p\<rparr>))
    \<or> (\<exists>c oc. built t = built s \<and> outcomes s c = None \<and> outcomes t = (outcomes s)(c \<mapsto> oc))"
  using assms
proof (cases ev)
  case (EvInsert c)
  with assms obtain i m p where "calls s c = Numbered i m p" by (auto simp: call_insert_def split: call_state.splits)
  with assms EvInsert have "outcomes t = outcomes s \<and> built t = (built s)(c \<mapsto> \<lparr>rq_id = i, rq_method = m, rq_payload = p\<rparr>)"
    by (auto simp: call_insert_def outcomes_def fun_eq_iff split: prod.splits)
  with \<open>calls s c = _\<close> show ?thesis by blast
next
  case (EvCall c m p)
  then show ?thesis
    using assms by (cases "token s")
      (auto simp: call_enter_def outcomes_def fun_eq_iff intro!: exI [of _ c] split: call_state.splits if_splits)
next
  case (EvSend c)
  then show ?thesis
    using assms by (cases "writer s = WGone")
      (auto simp: call_send_def call_end_def outcomes_def fun_eq_iff intro!: exI [of _ c] split: call_state.splits if_splits prod.splits)
next
  case (EvRecv c)
  then show ?thesis
    using assms
    by (intro disjI2 exI [of _ c])
      (auto simp: call_recv_def call_end_def outcomes_def fun_eq_iff split: call_state.splits oneshot.splits prod.splits)
next
  case (EvDrop c)
  then show ?thesis
    using assms
    by (intro disjI2 exI [of _ c])
      (auto simp: call_drop_def call_end_def outcomes_def fun_eq_iff split: call_state.splits prod.splits)
qed (auto simp: client_op_defs outcomes_def fun_eq_iff split: client_op_splits)

text \<open>A step moves the client, or moves the server and logs what it answered, or moves bytes only.\<close>

lemma net_step_parts:
  assumes "net_step enc dec fdec fenc hs n l m"
  shows "(\<exists>ev. client_step ev (n_client n) = Some (n_client m)) \<and> n_server m = n_server n \<and> n_log m = n_log n
    \<or> n_client m = n_client n \<and> (\<exists>ev. conn_step hs (n_server n) ev (n_server m))
        \<and> new_log (n_server n) (n_server m) (n_log n) (n_log m)
    \<or> n_client m = n_client n \<and> n_server m = n_server n \<and> n_log m = n_log n"
  using assms
proof (cases rule: net_step.cases)
  case (server_send e k frame t)
  then show ?thesis using server_writer_step(1) [OF server_send(5,3)] by (auto simp: new_log_def)
next
  case (server_send_failed e r k frame bs t)
  then show ?thesis using server_writer_step(2) [OF server_send_failed(6)] by (auto simp: new_log_def close_writer_def)
next
  case (server_read e k buf t)
  then show ?thesis using server_frame_step [OF server_read(4)] by (auto simp: new_log_def)
next
  case (server_bad x k buf t)
  then have "answered t = answered (n_server n)" by (auto elim: conn_step.cases)
  with server_bad show ?thesis by (auto simp: new_log_def)
qed (auto simp del: client_step.simps)

section \<open>The refinement mapping\<close>

text \<open>
  A call has the request it built, the reply that the log holds for that request, and the outcome of
  its future; the world is the server's.
\<close>

definition logged :: "(request_data \<times> envelope) list \<Rightarrow> request_data \<Rightarrow> ('x patina_error + bytes) option" where
  "logged log q = map_option (\<lambda>e. call_result (Some e)) (map_of log q)"

definition rpc_view :: "('x, 's, 'w) net \<Rightarrow> (chan, 'x, 'w) rpc" where
  "rpc_view n =
     \<lparr>r_request = (\<lambda>c. map_option (\<lambda>q. (rq_method q, rq_payload q)) (built (n_client n) c)),
      r_reply = (\<lambda>c. Option.bind (built (n_client n) c) (logged (n_log n))),
      r_outcome = outcomes (n_client n), r_world = world (n_server n)\<rparr>"

definition few_calls :: "net_event list \<Rightarrow> bool" where
  "few_calls ls \<longleftrightarrow> length (numbered (client_side ls)) \<le> 2 ^ 64"

lemma few_calls_prefix: "few_calls (ls @ [l]) \<Longrightarrow> few_calls ls"
  by (simp add: few_calls_def)

lemma handle_dispatch:
  "dispatch hs q w = (e, w') \<Longrightarrow> handle hs (rq_method q) (rq_payload q) w = (call_result (Some e), w')"
  by (auto simp: dispatch_def handle_def UNKNOWN_METHOD_CODE_def patina_from_error_data_def
      split: option.splits prod.splits sum.splits)

context envelope_codec
begin

text \<open>What a reachable state gives: the two machines' runs, and the contents of the log.\<close>

lemma net_exec_requests:
  assumes "exec (nstep hs) (nstart w) ls n" "few_calls ls"
  shows "distinct (map fst (n_log n))" and "q \<in># received (n_server n) \<Longrightarrow> \<exists>c. built (n_client n) c = Some q"
    and "(q, e) \<in> set (n_log n) \<Longrightarrow> q \<in># received (n_server n)"
proof -
  note I = net_okD [OF net_exec_ok [OF assms(1)]]
  have inv: "conn_inv hs (n_server n)" by (rule conn_exec_inv [OF net_exec_server [OF assms(1)]])
  have logged: "mset (map fst (n_log n)) \<subseteq># received (n_server n)"
    using inv I(8) by (auto simp: conn_inv_def)
  have "prefix (got (n_up n)) (sent (n_client n))" using pipe_ok_prefix [OF I(1)] I(3) by simp
  note pre = requests_prefix [OF this]
  have dist: "distinct (requests (sent (n_client n)))"
    using sent_requests_distinct [OF net_exec_client [OF assms(1)]] assms(2) by (simp add: few_calls_def)
  have "distinct (requests (got (n_up n)))" using pre dist by (auto simp: prefix_def)
  with distinct_submset logged I(7) show "distinct (map fst (n_log n))" by metis
  show "\<exists>c. built (n_client n) c = Some q" if "q \<in># received (n_server n)"
  proof -
    have "q \<in> set (requests (sent (n_client n)))" using that I(7) set_mono_prefix [OF pre] by auto
    with sent_built [OF net_exec_client [OF assms(1)]] show ?thesis by (simp add: requests_iff)
  qed
  show "q \<in># received (n_server n)" if "(q, e) \<in> set (n_log n)"
    using that mset_subset_eqD [OF logged, of q] by (force simp: image_iff)
qed

lemma net_exec_unique:
  assumes "exec (nstep hs) (nstart w) ls n" "few_calls ls"
    and "built (n_client n) c = Some q" "built (n_client n) d = Some r" "rq_id q = rq_id r"
  shows "c = d \<and> q = r"
  using built_ids_unique [OF net_exec_client [OF assms(1)] _ assms(3-5)] assms(2-4) by (simp add: few_calls_def)

text \<open>A frame the client has read is the server's answer to a request that a call built.\<close>

lemma got_answered:
  assumes "exec (nstep hs) (nstart w) ls n" "e \<in> set (got (n_down n))"
  shows "\<exists>q. (q, e) \<in># answered (n_server n) \<and> reply_id e = Some (rq_id q)"
proof (rule conn_inv_written [OF conn_exec_inv [OF net_exec_server [OF assms(1)]]])
  note I = net_okD [OF net_exec_ok [OF assms(1)]]
  show "e \<in> set (written (n_server n))"
    using assms(2) set_mono_prefix [OF pipe_ok_prefix [OF I(2)]] I(4) by auto
qed

text \<open>The answer that a call returned is in the log.\<close>

lemma returned_is_logged:
  assumes "exec (nstep hs) (nstart w) ls n" "few_calls ls"
    and "calls (n_client n) c = Finished r" "r \<noteq> Inl Closed" "built (n_client n) c = Some q"
  shows "logged (n_log n) q = Some r"
proof -
  note I = net_okD [OF net_exec_ok [OF assms(1)]]
  from run_routed [OF net_exec_client [OF assms(1)]] assms(3-5) obtain e where
    e: "EvReaderFrame e \<in> set (client_side ls)" "reply_id e = Some (rq_id q)" "r = call_result (Some e)"
    unfolding routed_def answers_def by (metis option.inject)
  have "e \<in> set (got (n_down n))"
    using e(1) by (simp add: net_exec_got [OF assms(1)] client_frames_iff)
  from got_answered [OF assms(1) this] obtain q' where q': "(q', e) \<in># answered (n_server n)" "rq_id q' = rq_id q"
    using e(2) by auto
  with I(8) q'(1) have log: "(q', e) \<in> set (n_log n)" by (metis set_mset_mset)
  from net_exec_requests(2) [OF assms(1,2) net_exec_requests(3) [OF assms(1,2) log]]
  obtain d where "built (n_client n) d = Some q'" ..
  from net_exec_unique [OF assms(1,2,5) this] q'(2) have "q' = q" by simp
  with log net_exec_requests(1) [OF assms(1,2)] have "map_of (n_log n) q = Some e"
    by (simp add: map_of_is_SomeI)
  with e(3) show ?thesis by (simp add: logged_def)
qed

text \<open>A request that no call has built yet has no reply.\<close>

lemma unbuilt_not_logged:
  assumes "exec (nstep hs) (nstart w) ls n" "few_calls ls" "\<And>c. built (n_client n) c \<noteq> Some q"
  shows "logged (n_log n) q = None"
proof -
  have "q \<notin> fst ` set (n_log n)"
    using assms(3) net_exec_requests(2,3) [OF assms(1,2)] by fastforce
  then show ?thesis by (simp add: logged_def map_of_eq_None_iff)
qed

lemma client_step_refines:
  assumes reach: "exec (nstep hs) (nstart w) ls n" "exec (nstep hs) (nstart w) ls' m" "few_calls ls" "few_calls ls'"
    and step: "client_step ev (n_client n) = Some (n_client m)"
    and same: "n_log m = n_log n" "world (n_server m) = world (n_server n)"
  shows "rpc_view m = rpc_view n \<or> (\<exists>l. rpc_step hs (rpc_view n) l (rpc_view m))"
  using client_step_view [OF step]
proof (elim disjE exE conjE)
  assume "built (n_client m) = built (n_client n)" "outcomes (n_client m) = outcomes (n_client n)"
  with same show ?thesis by (simp add: rpc_view_def)
next
  fix c i k p
  let ?q = "\<lparr>rq_id = i, rq_method = k, rq_payload = p\<rparr>"
  assume c: "calls (n_client n) c = Numbered i k p" "outcomes (n_client m) = outcomes (n_client n)"
    "built (n_client m) = (built (n_client n))(c \<mapsto> ?q)"
  have unbuilt: "built (n_client n) c = None"
    using run_built_ok [OF net_exec_client [OF reach(1)]] c(1) by (simp add: built_ok_def)
  have "built (n_client n) d \<noteq> Some ?q" for d
  proof
    assume d: "built (n_client n) d = Some ?q"
    with unbuilt c(3) have "built (n_client m) d = Some ?q" "built (n_client m) c = Some ?q" "d \<noteq> c" by auto
    with net_exec_unique [OF reach(2,4), of d ?q c ?q] show False by simp
  qed
  from unbuilt_not_logged [OF reach(1,3) this] have "logged (n_log n) ?q = (None :: ('x patina_error + bytes) option)" .
  then have "rpc_view m = rpc_view n\<lparr>r_request := (r_request (rpc_view n))(c \<mapsto> (k, p))\<rparr>"
    using unbuilt by (auto simp: rpc_view_def same c(2,3) fun_eq_iff)
  moreover have "r_request (rpc_view n) c = None" by (simp add: rpc_view_def unbuilt)
  ultimately show ?thesis using rpc_step.invoke [of "rpc_view n" c hs k p] by (intro disjI2 exI) simp
next
  fix c oc
  assume c: "built (n_client m) = built (n_client n)" "outcomes (n_client n) c = None"
    "outcomes (n_client m) = (outcomes (n_client n))(c \<mapsto> oc)"
  then have view: "rpc_view m = rpc_view n\<lparr>r_outcome := (r_outcome (rpc_view n))(c \<mapsto> oc)\<rparr>"
    by (simp add: rpc_view_def same)
  have open_call: "r_outcome (rpc_view n) c = None" by (simp add: rpc_view_def c(2))
  show ?thesis
  proof (cases oc)
    case Gave_Up
    with view rpc_step.give_up [OF open_call, of hs] show ?thesis by (intro disjI2 exI) simp
  next
    case (Returned r)
    show ?thesis
    proof (cases "r = Inl Closed")
      case True
      with Returned view rpc_step.close [OF open_call, of hs] show ?thesis by (intro disjI2 exI) simp
    next
      case False
      have fin: "calls (n_client m) c = Finished r"
        unfolding outcomes_Returned [symmetric] by (simp add: c(3) Returned)
      with run_routed [OF net_exec_client [OF reach(2)]] False obtain q where
        q: "built (n_client m) c = Some q" unfolding routed_def answers_def by blast
      have "r_reply (rpc_view n) c = Some r"
        using returned_is_logged [OF reach(2,4) fin False q] q by (simp add: rpc_view_def same c(1))
      from rpc_step.return [OF this open_call, of hs] Returned view show ?thesis by (intro disjI2 exI) simp
    qed
  qed
qed

text \<open>A worker's step is the execution of one call; the other steps of the server change nothing.\<close>

lemma server_step_refines:
  assumes reach: "exec (nstep hs) (nstart w) ls n" "exec (nstep hs) (nstart w) ls' m" "few_calls ls" "few_calls ls'"
    and step: "conn_step hs (n_server n) ev (n_server m)" "n_client m = n_client n"
    and log: "new_log (n_server n) (n_server m) (n_log n) (n_log m)"
  shows "rpc_view m = rpc_view n \<or> (\<exists>l. rpc_step hs (rpc_view n) l (rpc_view m))"
  using server_answered [OF step(1)]
proof (elim disjE exE conjE)
  assume "answered (n_server m) = answered (n_server n)" "world (n_server m) = world (n_server n)"
  with log step(2) show ?thesis by (simp add: new_log_def rpc_view_def)
next
  fix q W e w'
  assume work: "dispatch hs q (world (n_server n)) = (e, w')" "world (n_server m) = w'"
    "answered (n_server m) = add_mset (q, e) (answered (n_server n))"
  with log have log': "n_log m = n_log n @ [(q, e)]" by (auto simp: new_log_def)
  note distinct = net_exec_requests(1) [OF reach(2,4)]
  from net_exec_requests(3) [OF reach(2,4), of q e] log' net_exec_requests(2) [OF reach(2,4)]
  obtain c where c: "built (n_client n) c = Some q" using step(2) by auto
  have new: "map_of (n_log n) q = None" using distinct by (simp add: log' map_of_eq_None_iff)
  have other: "logged (n_log m) r = (if r = q then Some (call_result (Some e)) else logged (n_log n) r)"
    for r :: request_data
    using new by (auto simp: logged_def log' map_add_def split: option.splits)
  have only: "d = c" if "built (n_client n) d = Some q" for d
    using net_exec_unique [OF reach(1,3) that c] by simp
  let ?r = "call_result (Some e)"
  have "r_reply (rpc_view m) = (r_reply (rpc_view n))(c \<mapsto> ?r)"
  proof
    fix d
    show "r_reply (rpc_view m) d = ((r_reply (rpc_view n))(c \<mapsto> ?r)) d"
      using only [of d] c by (cases "built (n_client n) d") (auto simp: rpc_view_def step(2) other)
  qed
  then have view: "rpc_view m = rpc_view n\<lparr>r_reply := (r_reply (rpc_view n))(c \<mapsto> ?r), r_world := w'\<rparr>"
    by (simp add: rpc_view_def step(2) work(2))
  have "r_request (rpc_view n) c = Some (rq_method q, rq_payload q)" by (simp add: rpc_view_def c)
  moreover have "logged (n_log n) q = (None :: ('x patina_error + bytes) option)"
    using new by (simp add: logged_def)
  then have "r_reply (rpc_view n) c = None" by (simp add: rpc_view_def c)
  moreover have "handle hs (rq_method q) (rq_payload q) (r_world (rpc_view n)) = (?r, w')"
    using handle_dispatch [OF work(1)] by (simp add: rpc_view_def)
  ultimately show ?thesis using rpc_step.execute [of "rpc_view n" c _ _ hs ?r w'] view by (intro disjI2 exI) simp
qed

lemma net_step_refines:
  assumes "exec (nstep hs) (nstart w) ls n" "few_calls (ls @ [l])" "nstep hs n l m"
  shows "rpc_view m = rpc_view n \<or> (\<exists>a. rpc_step hs (rpc_view n) a (rpc_view m))"
proof -
  have m: "exec (nstep hs) (nstart w) (ls @ [l]) m" using assms(1,3) by (rule exec.exec_step)
  note reach = assms(1) m few_calls_prefix [OF assms(2)] assms(2)
  from net_step_parts [OF assms(3)] show ?thesis
    using client_step_refines [OF reach] server_step_refines [OF reach] by (auto simp: rpc_view_def)
qed

sublocale rpc: refinement_map "nstep hs" "nstart w" "rpc_step hs" rpc_view few_calls for hs w
  by unfold_locales (erule few_calls_prefix, rule net_step_refines)

lemma rpc_view_start: "rpc_view (nstart w) = rpc_start w"
  by (simp add: rpc_view_def rpc_start_def net_start_def from_stream_def open_conn_def outcomes_def fun_eq_iff)

lemma network_refines:
  "exec (nstep hs) (nstart w) ls n \<Longrightarrow> few_calls ls \<Longrightarrow>
   \<exists>ms. exec (rpc_step hs) (rpc_start w) ms (rpc_view n)"
  using rpc.exec_refines by (simp add: rpc_view_start)

end

end
