(* ===== verification/Network_Live.thy ===== *)
theory Network_Live
  imports Network_Refines
begin

text \<open>
  Liveness of a connection: while both ends run and every message fits in a frame, a call that waits
  can always be answered. Each step moves one message one stage further, from the client's queue
  through the pipe, the worker, the server's queue and the other pipe to the reader.
\<close>

section \<open>A working connection\<close>

fun reader_running :: "reader_state \<Rightarrow> bool" where
  "reader_running RIdle = True"
| "reader_running (RDeliver c e) = True"
| "reader_running _ = False"

definition healthy :: "('x, 's, 'w) net \<Rightarrow> bool" where
  "healthy n \<longleftrightarrow>
     \<not> writer_stopped (writer (n_client n)) \<and> reader_running (reader (n_client n)) \<and>
     dispatcher (n_server n) = Reading \<and> conn_writer (n_server n) \<noteq> SGone \<and>
     panicked (n_server n) = {#} \<and> discarded (n_server n) = {#}"

definition framed :: "(envelope \<Rightarrow> 'x + bytes) \<Rightarrow> envelope \<Rightarrow> bool" where
  "framed enc e \<longleftrightarrow> (\<exists>b. enc e = Inr b \<and> length b \<le> DEFAULT_MAX_FRAME_LEN)"

text \<open>Every request built fits in a frame, and so does whatever the server can answer to it.\<close>

definition messages_fit :: "(envelope \<Rightarrow> 'x + bytes) \<Rightarrow> (string \<rightharpoonup> 'w handler) \<Rightarrow> ('x, 's, 'w) net \<Rightarrow> bool" where
  "messages_fit enc hs n \<longleftrightarrow>
     (\<forall>c q. built (n_client n) c = Some q \<longrightarrow>
        framed enc (Request q) \<and> (\<forall>v. framed enc (fst (dispatch hs q v))))"

text \<open>The steps that move a message on; none of them is a failure or an action of a caller.\<close>

fun moving :: "net_event \<Rightarrow> bool" where
  "moving (Client_Local ev) = (ev = EvWriterRecv \<or> ev = EvReaderDeliver)"
| "moving (Server_Local ev) = (ev = Work \<or> ev = Enqueue \<or> ev = WriterRecv)"
| "moving Client_Send = True"
| "moving (Client_Read e) = True"
| "moving Server_Send = True"
| "moving (Server_Read e) = True"
| "moving (Carry_Up i) = True"
| "moving (Carry_Down i) = True"
| "moving _ = False"

lemma moving_numbered: "moving l \<Longrightarrow> numbered (client_side [l]) = []"
  by (cases l) auto

lemma moving_few_calls: "\<forall>l \<in> set ms. moving l \<Longrightarrow> few_calls (ls @ ms) = few_calls ls"
proof (induction ms arbitrary: ls)
  case (Cons l ms)
  have "few_calls (ls @ [l]) = few_calls ls"
    using Cons.prems moving_numbered [of l] by (simp add: few_calls_def)
  with Cons.IH [of "ls @ [l]"] Cons.prems show ?case by simp
qed simp

lemma reader_frame_takes:
  "client_step (EvReaderFrame e) s = Some t \<Longrightarrow> reply_id e = Some i \<Longrightarrow> map_of (pending t) i = None"
  by (auto simp: reader_frame_def pm_take_def map_of_delete split: if_splits option.splits)

section \<open>Nothing gets stuck\<close>

context envelope_codec
begin

text \<open>A reply that has been read has taken its call's entry from the map.\<close>

definition replies_taken :: "('x, 's, 'w) net \<Rightarrow> bool" where
  "replies_taken n \<longleftrightarrow>
     (\<forall>e \<in> set (got (n_down n)). \<forall>i. reply_id e = Some i \<longrightarrow> map_of (pending (n_client n)) i = None)"

lemma step_entry_kept:
  assumes n: "exec (nstep hs) (nstart w) ls n" and m: "exec (nstep hs) (nstart w) ls' m" "few_calls ls'"
    and step: "client_step ev (n_client n) = Some (n_client m)"
    and e: "e \<in> set (got (n_down n))" "reply_id e = Some i" "map_of (pending (n_client n)) i = None"
  shows "map_of (pending (n_client m)) i = None"
proof (rule ccontr)
  assume "map_of (pending (n_client m)) i \<noteq> None"
  then obtain c where c: "map_of (pending (n_client m)) i = Some c" by blast
  note inv = client_run_inv [OF net_exec_client [OF n]] client_run_inv [OF net_exec_client [OF m(1)]]
  have new: "unregistered (calls (n_client n) c)"
    using step_entry [OF client_invD(1) [OF inv(1)] step c] e(3) by simp
  have "slot (calls (n_client m) c) = Some (i, guard_new i)" using client_invD(2) [OF inv(2) c] by blast
  then obtain r where r: "built (n_client m) c = Some r" "rq_id r = i"
    using run_slots_built [OF net_exec_client [OF m(1)]] by (auto simp: slots_built_def)
  from got_answered [OF n e(1)] e(2) obtain q where q: "(q, e) \<in># answered (n_server n)" "rq_id q = i" by auto
  have built: "built_ok (n_client n)" by (rule run_built_ok [OF net_exec_client [OF n]])
  have "image_mset fst (answered (n_server n)) \<subseteq># received (n_server n)"
    using conn_exec_inv [OF net_exec_server [OF n]] by (auto simp: conn_inv_def)
  with q(1) have "q \<in># received (n_server n)" by (auto dest!: mset_subset_eqD [of _ _ q] simp: rev_image_eqI)
  with net_okD(7) [OF net_exec_ok [OF n]] have "Request q \<in> set (got (n_up n))" by (simp add: requests_iff)
  then have "Request q \<in> set (sent (n_client n))"
    using set_mono_prefix [OF pipe_ok_prefix [OF net_okD(1) [OF net_exec_ok [OF n]]]]
      net_okD(3) [OF net_exec_ok [OF n]] by auto
  from sent_built [OF net_exec_client [OF n] this] obtain d where d: "built (n_client n) d = Some q" ..
  from net_exec_unique [OF m built_stable [OF built step d] r(1)] q(2) r(2) have "d = c" by simp
  with d new built show False by (simp add: built_ok_def)
qed

lemma step_replies_taken:
  assumes n: "exec (nstep hs) (nstart w) ls n" and step: "nstep hs n l m" and few: "few_calls (ls @ [l])"
    and old: "replies_taken n"
  shows "replies_taken m"
proof -
  have m: "exec (nstep hs) (nstart w) (ls @ [l]) m" using n step by (rule exec.exec_step)
  have kept: "map_of (pending (n_client m)) i = None"
    if "e \<in> set (got (n_down n))" "reply_id e = Some i" for e i
  proof -
    have none: "map_of (pending (n_client n)) i = None" using old that by (auto simp: replies_taken_def)
    from net_step_parts [OF step] show ?thesis using step_entry_kept [OF n m few _ that none] none by auto
  qed
  have "got (n_down m) = got (n_down n)
    \<or> (\<exists>e. l = Client_Read e \<and> got (n_down m) = got (n_down n) @ [e] \<and> client_step (EvReaderFrame e) (n_client n) = Some (n_client m))"
    using step by (cases rule: net_step.cases) (simp_all add: pipe_defs)
  then show ?thesis
  proof (elim disjE exE conjE)
    fix e assume e: "got (n_down m) = got (n_down n) @ [e]"
      "client_step (EvReaderFrame e) (n_client n) = Some (n_client m)"
    with kept reader_frame_takes [OF e(2)] show ?thesis by (auto simp: replies_taken_def)
  qed (use kept in \<open>simp add: replies_taken_def\<close>)
qed

lemma exec_replies_taken:
  "exec (nstep hs) (nstart w) ls n \<Longrightarrow> few_calls ls \<Longrightarrow> replies_taken n"
proof (induction rule: exec.induct)
  case exec_none
  show ?case by (simp add: replies_taken_def net_start_def new_pipe_def)
next
  case (exec_step ls n l m)
  from step_replies_taken [OF exec_step.hyps exec_step.prems exec_step.IH [OF few_calls_prefix [OF exec_step.prems]]]
  show ?case .
qed

text \<open>So a waiting call whose channel is empty has a message somewhere on its way.\<close>

lemma quiet_connection_answered:
  assumes n: "exec (nstep hs) (nstart w) ls n" "few_calls ls" "healthy n"
    and quiet: "writer (n_client n) = WIdle" "outbound (n_client n) = []" "got (n_up n) = put (n_up n)"
      "workers (n_server n) = {#}" "queue (n_server n) = []" "conn_writer (n_server n) = SIdle"
      "got (n_down n) = put (n_down n)" "reader (n_client n) = RIdle"
    and c: "calls (n_client n) c = Awaiting i g"
  shows "chans (n_client n) c \<noteq> Empty"
proof -
  note I = net_okD [OF net_exec_ok [OF n(1)]] and client = net_exec_client [OF n(1)]
  have inv: "conn_inv hs (n_server n)" by (rule conn_exec_inv [OF net_exec_server [OF n(1)]])
  obtain q where q: "built (n_client n) c = Some q" "Request q \<in> set (flow (n_client n))"
    using run_submitted_flow [OF client] c quiet(1) by (auto simp: submitted_flow_def)
  then have "Request q \<in> set (got (n_up n))" by (simp add: flow_def quiet I(3))
  then have "q \<in># received (n_server n)" using I(7) by (simp add: requests_iff)
  moreover have "running (n_server n) = {#}" "replying (n_server n) = {#}" by (simp_all add: quiet)
  ultimately obtain e where e: "(q, e) \<in># answered (n_server n)"
    using inv n(3) by (auto simp: conn_inv_def healthy_def)
  then have "e \<in># image_mset snd (answered (n_server n))" by force
  also have "image_mset snd (answered (n_server n)) = mset (written (n_server n))"
    using inv n(3) \<open>replying (n_server n) = {#}\<close> by (simp add: conn_inv_def healthy_def quiet)
  finally have "e \<in> set (got (n_down n))" using I(4) quiet(7) by simp
  moreover from conn_inv_answered [OF inv e] obtain v v' where "dispatch hs q v = (e, v')" by blast
  then have "reply_id e = Some (rq_id q)" by (rule dispatch_reply_id)
  ultimately have "map_of (pending (n_client n)) (rq_id q) = None"
    using exec_replies_taken [OF n(1,2)] by (auto simp: replies_taken_def)
  moreover have slot: "slot (calls (n_client n) c) = Some (i, g)" by (simp add: c)
  then have "rq_id q = i" using run_slots_built [OF client] q(1) by (fastforce simp: slots_built_def)
  ultimately show ?thesis using client_invD(3) [OF client_run_inv [OF client] slot] quiet(8) by simp
qed

end

section \<open>Progress\<close>

text \<open>How far the messages are from the reader; every moving step but the transport of bytes lowers it.\<close>

definition distance :: "('x, 's, 'w) net \<Rightarrow> nat" where
  "distance n =
     12 * length (outbound (n_client n)) + 11 * length (in_writer (writer (n_client n))) +
     10 * (length (put (n_up n)) - length (got (n_up n))) +
     9 * size (running (n_server n)) + 8 * size (replying (n_server n)) +
     7 * length (queue (n_server n)) + 6 * length (in_flight (conn_writer (n_server n))) +
     5 * (length (put (n_down n)) - length (got (n_down n))) +
     (if reader (n_client n) = RIdle then 0 else 1)"

context envelope_codec
begin

definition advances :: "(string \<rightharpoonup> 'w handler) \<Rightarrow> ('x, 's, 'w) net \<Rightarrow> ('x, 's, 'w) net \<Rightarrow> bool" where
  "advances hs n m \<longleftrightarrow>
     (\<exists>ms. exec (nstep hs) n ms m \<and> (\<forall>l \<in> set ms. moving l)) \<and> distance m < distance n \<and> healthy m \<and>
     calls (n_client m) = calls (n_client n) \<and> built (n_client m) = built (n_client n)"

lemma advancesI:
  assumes "nstep hs n l m" "moving l" "distance m < distance n" "healthy m"
    and "calls (n_client m) = calls (n_client n)" "built (n_client m) = built (n_client n)"
  shows "advances hs n m"
  unfolding advances_def
  using assms exec_single [of "nstep hs" n l m] by (intro conjI exI [of _ "[l]"]) simp_all

lemma advances2I:
  assumes "nstep hs n k n'" "nstep hs n' l m" "moving k" "moving l" "distance m < distance n" "healthy m"
    and "calls (n_client m) = calls (n_client n)" "built (n_client m) = built (n_client n)"
  shows "advances hs n m"
  unfolding advances_def
  using assms exec_single [of "nstep hs" n k n'] exec_single [of "nstep hs" n' l m]
    exec_trans [of "nstep hs" n' "[l]" m n "[k]"]
  by (intro conjI exI [of _ "[k, l]"]) simp_all

lemma reader_delivers:
  assumes "healthy n" "reader (n_client n) \<noteq> RIdle"
  shows "\<exists>m. advances hs n m"
proof -
  from assms obtain c e where r: "reader (n_client n) = RDeliver c e"
    by (cases "reader (n_client n)") (auto simp: healthy_def)
  let ?t = "n_client n\<lparr>chans := send_tx c e (chans (n_client n)), reader := RIdle\<rparr>"
  have step: "nstep hs n (Client_Local EvReaderDeliver) (n\<lparr>n_client := ?t\<rparr>)"
    by (rule net_step.client_local) (simp_all add: reader_deliver_def r)
  show ?thesis
    by (rule exI, rule advancesI [OF step]) (use assms in \<open>simp_all add: distance_def healthy_def\<close>)
qed

lemma client_writer_takes:
  assumes "healthy n" "writer (n_client n) = WIdle" "outbound (n_client n) = e # es"
  shows "\<exists>m. advances hs n m"
proof -
  let ?t = "n_client n\<lparr>outbound := es, writer := WSending e\<rparr>"
  have step: "nstep hs n (Client_Local EvWriterRecv) (n\<lparr>n_client := ?t\<rparr>)"
    by (rule net_step.client_local) (simp_all add: Client.writer_recv_def assms)
  show ?thesis
    by (rule exI, rule advancesI [OF step]) (use assms in \<open>simp_all add: distance_def healthy_def\<close>)
qed

lemma server_moves:
  assumes ok: "net_ok n" and healthy: "healthy n" and step: "conn_step hs (n_server n) ev t"
    and ev: "ev = Work \<or> ev = Enqueue \<or> ev = WriterRecv"
    and less: "distance (n\<lparr>n_server := t\<rparr>) < distance n" and fine: "healthy (n\<lparr>n_server := t\<rparr>)"
  shows "\<exists>m. advances hs n m"
proof -
  obtain log where log: "new_log (n_server n) t (n_log n) log"
    using server_answered [OF step] by (fastforce simp: new_log_def)
  have step': "nstep hs n (Server_Local ev) (n\<lparr>n_server := t, n_log := log\<rparr>)"
    by (rule net_step.server_local [OF _ step log]) (use ev in auto)
  show ?thesis
    by (rule exI, rule advancesI [OF step']) (use ev less fine in \<open>auto simp: distance_def healthy_def\<close>)
qed

lemma worker_runs:
  assumes "net_ok n" "healthy n" "workers (n_server n) = add_mset (Running q) W"
  shows "\<exists>m. advances hs n m"
proof -
  obtain e w' where "dispatch hs q (world (n_server n)) = (e, w')" by force
  from work [OF assms(3) this] show ?thesis
    by (rule server_moves [OF assms(1,2)])
      (use assms(2,3) in \<open>auto simp: distance_def healthy_def running_def replying_def\<close>)
qed

lemma worker_queues:
  assumes "net_ok n" "healthy n" "workers (n_server n) = add_mset (Replying e) W" "queue (n_server n) = []"
  shows "\<exists>m. advances hs n m"
proof -
  have "conn_writer (n_server n) \<noteq> SGone" "length (queue (n_server n)) < WRITER_CHANNEL_CAPACITY"
    using assms(2,4) by (simp_all add: healthy_def WRITER_CHANNEL_CAPACITY_def)
  from enqueue [OF assms(3) this] show ?thesis
    by (rule server_moves [OF assms(1,2)])
      (use assms in \<open>auto simp: distance_def healthy_def running_def replying_def\<close>)
qed

lemma server_writer_takes:
  assumes "net_ok n" "healthy n" "conn_writer (n_server n) = SIdle" "queue (n_server n) = e # es"
  shows "\<exists>m. advances hs n m"
  using conn_step.writer_recv [OF assms(3,4)]
  by (rule server_moves [OF assms(1,2)])
    (use assms in \<open>auto simp: distance_def healthy_def running_def replying_def\<close>)

text \<open>A message that fits is encoded, and sending it moves it into the pipe.\<close>

lemma framed_encode:
  assumes "framed encode_to_vec e" "cap c = DEFAULT_MAX_FRAME_LEN"
  shows "\<exists>k frame. wenc c e [] = (Inr (), k, frame)"
proof -
  from assms(1) obtain b where "encode_to_vec e = Inr b" "length b \<le> cap c"
    unfolding framed_def assms(2) by blast
  then show ?thesis using encode_ok [of b "inner c" "[]"] by (auto simp: wire_encode_def)
qed

lemma pipe_behind: "pipe_ok c p \<Longrightarrow> length (got p) \<le> length (put p)"
  by (rule prefix_length_le [OF pipe_ok_prefix])

lemma client_sends:
  assumes "net_ok n" "healthy n" "writer (n_client n) = WSending e" "framed encode_to_vec e"
  shows "\<exists>m. advances hs n m"
proof -
  note I = net_okD [OF assms(1)]
  from framed_encode [OF assms(4), of "n_ccodec n"] I(2) obtain k frame where
    enc: "wenc (n_ccodec n) e [] = (Inr (), k, frame)" by (auto simp: pipe_ok_def)
  let ?t = "n_client n\<lparr>writer := WIdle, sent := sent (n_client n) @ [e]\<rparr>"
  have "client_step EvWriterSent (n_client n) = Some ?t" by (simp add: Client.writer_sent_def assms(3))
  note step = net_step.client_send [OF assms(3) enc this, of decode_from_slice frame_decode hs]
  show ?thesis
    by (rule exI, rule advancesI [OF step])
      (use assms(2,3) pipe_behind [OF I(1)] in \<open>simp_all add: distance_def healthy_def pipe_push_def\<close>)
qed

lemma server_sends:
  assumes "net_ok n" "healthy n" "conn_writer (n_server n) = SSending e" "framed encode_to_vec e"
  shows "\<exists>m. advances hs n m"
proof -
  note I = net_okD [OF assms(1)]
  from framed_encode [OF assms(4), of "n_scodec n"] I(1) obtain k frame where
    enc: "wenc (n_scodec n) e [] = (Inr (), k, frame)" by (auto simp: pipe_ok_def)
  note step = net_step.server_send [OF assms(3) enc conn_step.writer_sent [OF assms(3)], of decode_from_slice frame_decode]
  show ?thesis
    by (rule exI, rule advancesI [OF step])
      (use assms(2,3) pipe_behind [OF I(2)] in
        \<open>simp_all add: distance_def healthy_def pipe_push_def running_def replying_def\<close>)
qed

text \<open>An envelope that was written is read, after the bytes on the wire have been carried over.\<close>

lemma reader_frame_enabled:
  "reader s = RIdle \<Longrightarrow> \<exists>t. client_step (EvReaderFrame e) s = Some t \<and> reader_running (reader t) \<and>
     calls t = calls s \<and> built t = built s \<and> outbound t = outbound s \<and> writer t = writer s"
  by (auto simp: reader_frame_def split: option.splits prod.splits)

lemma client_reads:
  assumes "net_ok n" "healthy n" "reader (n_client n) = RIdle" "got (n_down n) \<noteq> put (n_down n)"
  shows "\<exists>m. advances hs n m"
proof -
  note I = net_okD [OF assms(1)]
  let ?n = "n\<lparr>n_down := pipe_carry (length (wire (n_down n))) (n_down n)\<rparr>"
  from pipe_ready [OF I(2) assms(4)] obtain e k buf where
    dec: "wdec (n_ccodec ?n) (rbuf (n_down ?n)) = (Inr (Some e), k, buf)" by auto
  obtain t where t: "client_step (EvReaderFrame e) (n_client ?n) = Some t" "reader_running (reader t)"
    "calls t = calls (n_client n)" "built t = built (n_client n)" "outbound t = outbound (n_client n)"
    "writer t = writer (n_client n)"
    using reader_frame_enabled [of "n_client ?n" e] assms(3) by auto
  note carry = net_step.carry_down [of encode_to_vec decode_from_slice frame_decode frame_encode hs n "length (wire (n_down n))"]
  note read = net_step.client_read [OF dec t(1), of encode_to_vec frame_encode hs]
  have "net_ok (?n\<lparr>n_client := t, n_ccodec := k, n_down := pipe_pull buf e (n_down ?n)\<rparr>)"
    by (rule net_step_ok [OF read net_step_ok [OF carry assms(1)]])
  from pipe_behind [OF net_okD(2) [OF this]] have "length (got (n_down n)) < length (put (n_down n))"
    by (simp add: pipe_pull_def pipe_carry_def)
  then obtain d where "length (put (n_down n)) = Suc (length (got (n_down n)) + d)"
    by (auto dest: less_imp_Suc_add)
  with assms(2,3) t show ?thesis
    by (intro exI [of _ "?n\<lparr>n_client := t, n_ccodec := k, n_down := pipe_pull buf e (n_down ?n)\<rparr>"]
        advances2I [OF carry read]) (simp_all add: distance_def healthy_def pipe_pull_def pipe_carry_def)
qed

lemma server_reads:
  assumes "net_ok n" "healthy n" "got (n_up n) \<noteq> put (n_up n)"
  shows "\<exists>m. advances hs n m"
proof -
  note I = net_okD [OF assms(1)]
  let ?n = "n\<lparr>n_up := pipe_carry (length (wire (n_up n))) (n_up n)\<rparr>"
  from pipe_ready [OF I(1) assms(3)] obtain e k buf where
    dec: "wdec (n_scodec ?n) (rbuf (n_up ?n)) = (Inr (Some e), k, buf)" by auto
  have reading: "dispatcher (n_server ?n) = Reading" using assms(2) by (simp add: healthy_def)
  obtain t where t: "conn_step hs (n_server ?n) (Frame e) t" "dispatcher t = Reading"
    "size (running t) \<le> Suc (size (running (n_server n)))" "replying t = replying (n_server n)"
    "queue t = queue (n_server n)" "conn_writer t = conn_writer (n_server n)"
    "panicked t = panicked (n_server n)" "discarded t = discarded (n_server n)"
  proof (cases "\<exists>q. e = Request q")
    case True
    then obtain q where e: "e = Request q" ..
    show ?thesis
      by (rule that [OF read_request [OF reading, of hs q, folded e]])
        (use reading in \<open>simp_all add: running_def replying_def\<close>)
  next
    case False
    then have "\<not> is_request e" by (cases e) simp_all
    show ?thesis
      by (rule that [OF read_other [OF reading \<open>\<not> is_request e\<close>]]) (use reading in simp_all)
  qed
  note carry = net_step.carry_up [of encode_to_vec decode_from_slice frame_decode frame_encode hs n "length (wire (n_up n))"]
  note read = net_step.server_read [OF dec t(1), of encode_to_vec frame_encode]
  have "net_ok (?n\<lparr>n_server := t, n_scodec := k, n_up := pipe_pull buf e (n_up ?n)\<rparr>)"
    by (rule net_step_ok [OF read net_step_ok [OF carry assms(1)]])
  from pipe_behind [OF net_okD(1) [OF this]] have "length (got (n_up n)) < length (put (n_up n))"
    by (simp add: pipe_pull_def pipe_carry_def)
  with assms(2) t show ?thesis
    by (intro exI [of _ "?n\<lparr>n_server := t, n_scodec := k, n_up := pipe_pull buf e (n_up ?n)\<rparr>"]
        advances2I [OF carry read]) (simp_all add: distance_def healthy_def pipe_pull_def pipe_carry_def)
qed

text \<open>A waiting call that has not been woken can be brought one step closer.\<close>

lemma messages_fit_in_transit:
  assumes n: "exec (nstep hs) (nstart w) ls n" "few_calls ls" and fit: "messages_fit encode_to_vec hs n"
  shows "writer (n_client n) = WSending e \<Longrightarrow> framed encode_to_vec e"
    and "conn_writer (n_server n) = SSending e \<Longrightarrow> framed encode_to_vec e"
proof -
  have inv: "conn_inv hs (n_server n)" by (rule conn_exec_inv [OF net_exec_server [OF n(1)]])
  show "framed encode_to_vec e" if "writer (n_client n) = WSending e"
  proof -
    from run_flow_ok [OF net_exec_client [OF n(1)]] obtain cs where
      flow: "map Some (flow (n_client n)) = map (\<lambda>c. map_option Request (built (n_client n) c)) cs"
      unfolding flow_ok_def by blast
    have "Some e \<in> set (map Some (flow (n_client n)))" by (simp add: flow_def that)
    then obtain c q where "built (n_client n) c = Some q" "e = Request q"
      unfolding flow by (auto simp: eq_commute [of "Some e"])
    with fit show ?thesis by (auto simp: messages_fit_def)
  qed
  show "framed encode_to_vec e" if "conn_writer (n_server n) = SSending e"
  proof -
    have "e \<in># image_mset snd (answered (n_server n))" using inv that by (simp add: conn_inv_def)
    then obtain q where q: "(q, e) \<in># answered (n_server n)" by auto
    with net_okD(8) [OF net_exec_ok [OF n(1)]] have "(q, e) \<in> set (n_log n)" by (metis set_mset_mset)
    from net_exec_requests(2) [OF n net_exec_requests(3) [OF n this]]
    obtain c where "built (n_client n) c = Some q" ..
    moreover from conn_inv_answered [OF inv q] obtain v v' where "dispatch hs q v = (e, v')" by blast
    then have "fst (dispatch hs q v) = e" by simp
    ultimately show ?thesis using fit by (auto simp: messages_fit_def)
  qed
qed

lemma waiting_call_advances:
  assumes n: "exec (nstep hs) (nstart w) ls n" "few_calls ls" and healthy: "healthy n"
    and fit: "messages_fit encode_to_vec hs n"
    and c: "calls (n_client n) c = Awaiting i g" "chans (n_client n) c = Empty"
  shows "\<exists>m. advances hs n m"
proof (rule ccontr)
  assume stuck: "\<not> (\<exists>m. advances hs n m)"
  note ok = net_exec_ok [OF n(1)] and framed = messages_fit_in_transit [OF n fit]
  have reader: "reader (n_client n) = RIdle" using reader_delivers [OF healthy] stuck by blast
  have down: "got (n_down n) = put (n_down n)" using client_reads [OF ok healthy reader] stuck by blast
  have server: "conn_writer (n_server n) = SIdle"
    using server_sends [OF ok healthy _ framed(2)] stuck healthy
    by (cases "conn_writer (n_server n)") (auto simp: healthy_def)
  have queue: "queue (n_server n) = []"
    using server_writer_takes [OF ok healthy server] stuck by (cases "queue (n_server n)") auto
  have workers: "workers (n_server n) = {#}"
  proof (cases "workers (n_server n)")
    case (add x W)
    with worker_runs [OF ok healthy] worker_queues [OF ok healthy _ queue] stuck show ?thesis by (cases x) blast+
  qed
  have up: "got (n_up n) = put (n_up n)" using server_reads [OF ok healthy] stuck by blast
  have client: "writer (n_client n) = WIdle"
    using client_sends [OF ok healthy _ framed(1)] stuck healthy
    by (cases "writer (n_client n)") (auto simp: healthy_def)
  have "outbound (n_client n) = []"
    using client_writer_takes [OF healthy client] stuck by (cases "outbound (n_client n)") auto
  from quiet_connection_answered [OF n healthy client this up workers queue server down reader c(1)] c(2)
  show False by simp
qed

text \<open>So it is woken, with the reply to its own request.\<close>

lemma waiting_call_woken:
  assumes "exec (nstep hs) (nstart w) ls n" "few_calls ls" "healthy n" "messages_fit encode_to_vec hs n"
    and "calls (n_client n) c = Awaiting i g"
  shows "\<exists>ms m. exec (nstep hs) n ms m \<and> (\<forall>l \<in> set ms. moving l) \<and> healthy m \<and>
    calls (n_client m) c = Awaiting i g \<and> chans (n_client m) c \<noteq> Empty \<and> built (n_client m) = built (n_client n)"
  using assms
proof (induction "distance n" arbitrary: n ls rule: less_induct)
  case less
  show ?case
  proof (cases "chans (n_client n) c = Empty")
    case False
    with less.prems show ?thesis by (intro exI [of _ "[]"] exI [of _ n]) (simp add: exec.exec_none)
  next
    case True
    from waiting_call_advances [OF less.prems True] obtain m ms where
      m: "exec (nstep hs) n ms m" "\<forall>l \<in> set ms. moving l" "distance m < distance n" "healthy m"
      "calls (n_client m) = calls (n_client n)" "built (n_client m) = built (n_client n)"
      unfolding advances_def by blast
    have "exec (nstep hs) (nstart w) (ls @ ms) m" by (rule exec_trans [OF m(1) less.prems(1)])
    moreover have "few_calls (ls @ ms)" using less.prems(2) by (simp add: moving_few_calls [OF m(2)])
    moreover have "messages_fit encode_to_vec hs m" using less.prems(4) by (simp add: messages_fit_def m(6))
    ultimately obtain ms' m' where "exec (nstep hs) m ms' m'" "\<forall>l \<in> set ms'. moving l" "healthy m'"
      "calls (n_client m') c = Awaiting i g" "chans (n_client m') c \<noteq> Empty" "built (n_client m') = built (n_client m)"
      using less.hyps [OF m(3)] m(4,5) less.prems(5) by metis
    with m(2,6) exec_trans [OF _ m(1)] show ?thesis
      by (intro exI [of _ "ms @ ms'"] exI [of _ m']) auto
  qed
qed

text \<open>A call that has been woken receives.\<close>

lemma woken_call_receives:
  assumes reach: "exec (nstep hs) (nstart w) ls m" "few_calls ls" and m: "healthy m"
    "calls (n_client m) c = Awaiting i g" "chans (n_client m) c \<noteq> Empty"
  shows "\<exists>t r. client_step (EvRecv c) (n_client m) = Some t
    \<and> exec (nstep hs) m [Client_Local (EvRecv c)] (m\<lparr>n_client := t\<rparr>) \<and> calls t c = Finished r \<and> r \<noteq> Inl Closed
    \<and> r_reply (rpc_view (m\<lparr>n_client := t\<rparr>)) c = Some r \<and> built t = built (n_client m) \<and> healthy (m\<lparr>n_client := t\<rparr>)"
proof -
  have "unclosed (client_side ls) (n_client m)" by (rule run_unclosed [OF net_exec_client [OF reach(1)]])
  moreover have "reader (n_client m) \<noteq> RGone" using m(1) by (auto simp: healthy_def)
  moreover have "slot (calls (n_client m) c) = Some (i, g)" by (simp add: m(2))
  ultimately obtain e where e: "chans (n_client m) c = Full e"
    using m(3) reach(2) by (cases "chans (n_client m) c") (auto simp: unclosed_def few_calls_def)
  from run_routed [OF net_exec_client [OF reach(1)]] e obtain q where
    q: "built (n_client m) c = Some q" "reply_id e = Some (rq_id q)"
    unfolding routed_def answers_def by blast
  let ?r = "call_result (Some e) :: 'x patina_error + bytes"
  obtain t where t: "client_step (EvRecv c) (n_client m) = Some t" "calls t c = Finished ?r" "built t = built (n_client m)"
    "writer t = writer (n_client m)" "reader t = reader (n_client m)"
    by (simp add: call_recv_def m(2) e call_end_def)
  have step: "nstep hs m (Client_Local (EvRecv c)) (m\<lparr>n_client := t\<rparr>)"
    by (rule net_step.client_local [OF _ t(1)]) simp
  have reach': "exec (nstep hs) (nstart w) (ls @ [Client_Local (EvRecv c)]) (m\<lparr>n_client := t\<rparr>)"
    by (rule exec.exec_step [OF reach(1) step])
  have few: "few_calls (ls @ [Client_Local (EvRecv c)])" using reach(2) by (simp add: few_calls_def)
  have open_reply: "?r \<noteq> Inl Closed" using q(2) by (cases e) (simp_all add: patina_from_error_data_def)
  from returned_is_logged [OF reach' few _ this, of c q] t q have "logged (n_log m) q = Some ?r" by simp
  then have "r_reply (rpc_view (m\<lparr>n_client := t\<rparr>)) c = Some ?r" using q(1) by (simp add: rpc_view_def t(3))
  moreover have "healthy (m\<lparr>n_client := t\<rparr>)" using m(1) t(4,5) by (simp add: healthy_def)
  ultimately show ?thesis using exec_single [of "nstep hs", OF step] t(1-3) open_reply by (intro exI [of _ t] exI [of _ ?r]) simp
qed

lemma waiting_call_completes:
  assumes n: "exec (nstep hs) (nstart w) ls n" "few_calls ls" and ok: "healthy n" "messages_fit encode_to_vec hs n"
    and c: "calls (n_client n) c = Awaiting i g"
  shows "\<exists>ms m r. exec (nstep hs) n (ms @ [Client_Local (EvRecv c)]) m \<and> (\<forall>l \<in> set ms. moving l) \<and>
    calls (n_client m) c = Finished r \<and> r \<noteq> Inl Closed \<and> r_reply (rpc_view m) c = Some r \<and>
    built (n_client m) = built (n_client n) \<and> healthy m"
proof -
  from waiting_call_woken [OF n ok c] obtain ms m where
    ms: "exec (nstep hs) n ms m" "\<forall>l \<in> set ms. moving l" and m: "healthy m"
    "calls (n_client m) c = Awaiting i g" "chans (n_client m) c \<noteq> Empty" "built (n_client m) = built (n_client n)"
    by blast
  have "exec (nstep hs) (nstart w) (ls @ ms) m" "few_calls (ls @ ms)"
    using exec_trans [OF ms(1) n(1)] n(2) by (simp_all add: moving_few_calls [OF ms(2)])
  from woken_call_receives [OF this m(1-3)] obtain t r where
    t: "exec (nstep hs) m [Client_Local (EvRecv c)] (m\<lparr>n_client := t\<rparr>)" "calls t c = Finished r" "r \<noteq> Inl Closed"
      "r_reply (rpc_view (m\<lparr>n_client := t\<rparr>)) c = Some r" "built t = built (n_client m)" "healthy (m\<lparr>n_client := t\<rparr>)"
    by blast
  from exec_trans [OF t(1) ms(1)] ms(2) m(4) t(2-6) show ?thesis
    by (intro exI [of _ ms] exI [of _ "m\<lparr>n_client := t\<rparr>"] exI [of _ r]) simp
qed

section \<open>An answer that was not written\<close>

text \<open>A call whose answer the server has not written, and will not write, cannot return it.\<close>

lemma unwritten_call_stuck:
  assumes n: "exec (nstep hs) (nstart w) ls n" "few_calls ls" and q: "built (n_client n) c = Some q"
    and unwritten: "\<forall>e \<in> set (written (n_server n)). reply_id e \<noteq> Some (rq_id q)"
  shows "calls (n_client n) c = Finished r \<Longrightarrow> r = Inl Closed"
    and "calls (n_client n) c = Awaiting i g \<Longrightarrow> reader (n_client n) \<noteq> RGone \<Longrightarrow>
      client_step (EvRecv c) (n_client n) = None"
proof -
  note routed = run_routed [OF net_exec_client [OF n(1)]]
  have no_answer: "\<not> answers (client_side ls) (n_client n) c e" for e
  proof
    assume "answers (client_side ls) (n_client n) c e"
    then have e: "EvReaderFrame e \<in> set (client_side ls)" "reply_id e = Some (rq_id q)"
      using q by (auto simp: answers_def)
    have "e \<in> set (got (n_down n))" using e(1) by (simp add: net_exec_got [OF n(1)] client_frames_iff)
    then have "e \<in> set (written (n_server n))"
      using set_mono_prefix [OF pipe_ok_prefix [OF net_okD(2) [OF net_exec_ok [OF n(1)]]]]
        net_okD(4) [OF net_exec_ok [OF n(1)]] by auto
    with unwritten e(2) show False by blast
  qed
  show "r = Inl Closed" if "calls (n_client n) c = Finished r"
    using routed that no_answer unfolding routed_def by blast
  show "client_step (EvRecv c) (n_client n) = None"
    if c: "calls (n_client n) c = Awaiting i g" and reader: "reader (n_client n) \<noteq> RGone"
  proof -
    have "slot (calls (n_client n) c) = Some (i, g)" by (simp add: c)
    then have "chans (n_client n) c \<noteq> TxDropped"
      using run_unclosed [OF net_exec_client [OF n(1)]] n(2) reader by (auto simp: unclosed_def few_calls_def)
    moreover have "chans (n_client n) c \<noteq> Full e" for e
      using routed no_answer unfolding routed_def by blast
    ultimately have "chans (n_client n) c = Empty" by (meson oneshot.exhaust)
    with c show ?thesis by (simp add: call_recv_def)
  qed
qed

section \<open>A worker that panicked\<close>

text \<open>A request whose worker panicked is not answered: it was read once, and its worker is gone.\<close>

lemma panicked_unanswered:
  assumes n: "exec (nstep hs) (nstart w) ls n" "few_calls ls" and q: "q \<in># panicked (n_server n)"
  shows "(q, e) \<notin># answered (n_server n)"
proof
  assume "(q, e) \<in># answered (n_server n)"
  then have "q \<in># image_mset fst (answered (n_server n))" by force
  then have "0 < count (image_mset fst (answered (n_server n))) q" by (simp only: count_greater_zero_iff)
  moreover have "0 < count (panicked (n_server n)) q" using q by (simp only: count_greater_zero_iff)
  moreover have "received (n_server n) = running (n_server n) + panicked (n_server n) + image_mset fst (answered (n_server n))"
    using conn_exec_inv [OF net_exec_server [OF n(1)]] by (simp add: conn_inv_def)
  then have "count (received (n_server n)) q = count (running (n_server n)) q + count (panicked (n_server n)) q
      + count (image_mset fst (answered (n_server n))) q" by (simp only: count_union)
  ultimately have "1 < count (received (n_server n)) q" by linarith
  moreover have "distinct (requests (got (n_up n)))"
  proof -
    have "distinct (requests (sent (n_client n)))"
      using sent_requests_distinct [OF net_exec_client [OF n(1)]] n(2) by (simp add: few_calls_def)
    moreover have "prefix (got (n_up n)) (sent (n_client n))"
      using pipe_ok_prefix [OF net_okD(1) [OF net_exec_ok [OF n(1)]]] net_okD(3) [OF net_exec_ok [OF n(1)]] by simp
    ultimately show ?thesis using requests_prefix by (auto simp: prefix_def)
  qed
  then have "count (received (n_server n)) q \<le> 1"
    unfolding net_okD(7) [OF net_exec_ok [OF n(1)]] distinct_count_atmost_1 by auto
  ultimately show False by simp
qed

lemma panicked_call_stuck:
  assumes n: "exec (nstep hs) (nstart w) ls n" "few_calls ls"
    and q: "q \<in># panicked (n_server n)" "built (n_client n) c = Some q"
  shows "r_reply (rpc_view n) c = None"
    and "calls (n_client n) c = Finished r \<Longrightarrow> r = Inl Closed"
    and "calls (n_client n) c = Awaiting i g \<Longrightarrow> reader (n_client n) \<noteq> RGone \<Longrightarrow>
      client_step (EvRecv c) (n_client n) = None"
proof -
  note unanswered = panicked_unanswered [OF n q(1)]
  have "(q, e) \<notin> set (n_log n)" for e
    using unanswered net_okD(8) [OF net_exec_ok [OF n(1)]] by (metis set_mset_mset)
  then have none: "logged (n_log n) q = None"
    by (cases "map_of (n_log n) q") (auto simp: logged_def dest: map_of_SomeD)
  show "r_reply (rpc_view n) c = None" by (simp add: rpc_view_def q(2) logged_def none [unfolded logged_def])
  have "\<forall>e \<in> set (written (n_server n)). reply_id e \<noteq> Some (rq_id q)"
  proof
    fix e assume e: "e \<in> set (written (n_server n))"
    show "reply_id e \<noteq> Some (rq_id q)"
    proof
      assume "reply_id e = Some (rq_id q)"
      with conn_inv_written [OF conn_exec_inv [OF net_exec_server [OF n(1)]] e] obtain q' where q': "(q', e) \<in># answered (n_server n)" "rq_id q = rq_id q'" by auto
      with net_okD(8) [OF net_exec_ok [OF n(1)]] have "(q', e) \<in> set (n_log n)" by (metis set_mset_mset)
      from net_exec_requests(2) [OF n net_exec_requests(3) [OF n this]]
      obtain d where "built (n_client n) d = Some q'" ..
      from net_exec_unique [OF n q(2) this q'(2)] q'(1) unanswered show False by simp
    qed
  qed
  note stuck = unwritten_call_stuck [OF n q(2) this]
  show "r = Inl Closed" if "calls (n_client n) c = Finished r" by (rule stuck(1) [OF that])
  show "client_step (EvRecv c) (n_client n) = None"
    if "calls (n_client n) c = Awaiting i g" "reader (n_client n) \<noteq> RGone"
    by (rule stuck(2) [OF that])
qed

text \<open>Before a request was answered, its worker was running.\<close>

lemma logged_was_running:
  "exec (nstep hs) (nstart w) ls n \<Longrightarrow> (q, e) \<in> set (n_log n) \<Longrightarrow> few_calls ls \<Longrightarrow>
   \<exists>ks k W. exec (nstep hs) (nstart w) ks k \<and> few_calls ks \<and> workers (n_server k) = add_mset (Running q) W"
proof (induction rule: exec.induct)
  case exec_none
  then show ?case by (simp add: net_start_def)
next
  case (exec_step ls n l m)
  note few = few_calls_prefix [OF exec_step.prems(2)]
  show ?case
  proof (cases "(q, e) \<in> set (n_log n)")
    case True
    with exec_step.IH few show ?thesis by blast
  next
    case False
    with net_step_parts [OF exec_step.hyps(2)] exec_step.prems(1) obtain ev where
      "conn_step hs (n_server n) ev (n_server m)" "new_log (n_server n) (n_server m) (n_log n) (n_log m)" by auto
    with server_answered [OF this(1)] False exec_step.prems(1) obtain W where
      "workers (n_server n) = add_mset (Running q) W" by (auto simp: new_log_def split: if_splits)
    with exec_step.hyps(1) few show ?thesis by blast
  qed
qed

end

end
