(* ===== verification/Network_Props.thy ===== *)
theory Network_Props
  imports Network_Live
begin

text \<open>
  The properties of a whole connection, client, server and both byte streams together: it refines the
  at-most-once specification, its effects are those of a sequential run of the calls, no stream is
  ever misread, and a waiting call can always complete while nothing has failed.
\<close>

section \<open>A server to evaluate on\<close>

text \<open>A handler that echoes its payload and counts its calls.\<close>

definition echo_server :: "string \<rightharpoonup> nat handler" where
  "echo_server = handlers (build (register ''echo'' (\<lambda>n p. (Inr p, Suc n)) builder))"

abbreviation "echo_request \<equiv> \<lparr>rq_id = 0, rq_method = ''echo'', rq_payload = [7, 8]\<rparr>"

lemma echo_dispatch:
  "dispatch echo_server echo_request 0 = (Response \<lparr>rs_id = 0, rs_payload = [7, 8]\<rparr>, Suc 0)"
  by (simp add: dispatch_def echo_server_def)

lemma echo_encodes:
  "ref_encode (Request echo_request) = Inr (put_envelope (Request echo_request))"
  "length (put_envelope (Request echo_request)) \<le> DEFAULT_MAX_FRAME_LEN"
  "ref_encode (Response \<lparr>rs_id = 0, rs_payload = [7, 8]\<rparr>) = Inr (put_envelope (Response \<lparr>rs_id = 0, rs_payload = [7, 8]\<rparr>))"
  "length (put_envelope (Response \<lparr>rs_id = 0, rs_payload = [7, 8]\<rparr>)) \<le> DEFAULT_MAX_FRAME_LEN"
  by (simp_all add: ref_encode_def put_vec_def put_varint_def DEFAULT_MAX_FRAME_LEN_def)

text \<open>The steps of one call up to the point where it waits, as an execution of the network.\<close>

definition one_call :: "chan \<Rightarrow> string \<Rightarrow> bytes \<Rightarrow> event list" where
  "one_call c m p = [EvCall c m p, EvFetchAdd c, EvInsert c, EvSend c]"

abbreviation "ref_net_step \<equiv> net_step ref_encode ref_decode ref_frame_decode ref_frame_encode"
abbreviation "echo_start \<equiv> net_start ref_new_codec 0"

lemma local_run_exec:
  "client_run es (n_client n) = Some t \<Longrightarrow> \<forall>ev \<in> set es. client_local ev \<Longrightarrow>
   exec (net_step enc dec fdec fenc hs) n (map Client_Local es) (n\<lparr>n_client := t\<rparr>)"
proof (induction es arbitrary: t rule: rev_induct)
  case Nil
  then have "n\<lparr>n_client := t\<rparr> = n" by (cases n) simp
  then show ?case by (simp add: exec.exec_none)
next
  case (snoc ev es)
  from snoc.prems(1) obtain u where u: "client_run es (n_client n) = Some u" "client_step ev u = Some t"
    by (rule run_snocE)
  have "exec (net_step enc dec fdec fenc hs) n (map Client_Local es) (n\<lparr>n_client := u\<rparr>)"
    using snoc.IH [OF u(1)] snoc.prems(2) by simp
  moreover have "net_step enc dec fdec fenc hs (n\<lparr>n_client := u\<rparr>) (Client_Local ev) (n\<lparr>n_client := u\<rparr>\<lparr>n_client := t\<rparr>)"
    by (rule net_step.client_local) (use u(2) snoc.prems(2) in simp_all)
  ultimately show ?case using exec.exec_step by fastforce
qed

lemma one_call_waits:
  "\<exists>n :: ('x, 's, 'w) net.
     exec (net_step enc dec fdec fenc hs) (net_start new_codec w) (map Client_Local (one_call c m p)) n
     \<and> calls (n_client n) c = Awaiting 0 (guard_new 0) \<and> healthy n
     \<and> built (n_client n) = [c \<mapsto> \<lparr>rq_id = 0, rq_method = m, rq_payload = p\<rparr>]"
proof -
  obtain t :: "'x client" where t: "client_run (one_call c m p) from_stream = Some t"
    "calls t c = Awaiting 0 (guard_new 0)" "writer t = WIdle" "reader t = RIdle"
    "built t = [c \<mapsto> \<lparr>rq_id = 0, rq_method = m, rq_payload = p\<rparr>]"
    by (simp add: one_call_def client_eval)
  let ?s = "net_start new_codec w :: ('x, 's, 'w) net"
  have "exec (net_step enc dec fdec fenc hs) ?s (map Client_Local (one_call c m p)) (?s\<lparr>n_client := t\<rparr>)"
    by (rule local_run_exec) (simp_all add: net_start_def t(1), simp add: one_call_def)
  with t(2-5) show ?thesis
    by (intro exI [of _ "?s\<lparr>n_client := t\<rparr>"]) (simp add: healthy_def net_start_def open_conn_def)
qed

lemma moving_calls_nothing: "\<forall>l \<in> set ms. moving l \<Longrightarrow> EvCall c m p \<notin> set (client_side ms)"
proof (induction ms)
  case (Cons l ms)
  then show ?case by (cases l) auto
qed simp

text \<open>The only call of a connection completes, if its request and the answer fit in a frame.\<close>

lemma one_call_completes:
  assumes codec: "envelope_codec enc dec new_codec fdec fenc max_frame held"
    and fits: "framed enc (Request \<lparr>rq_id = 0, rq_method = m, rq_payload = p\<rparr>)"
      "\<And>v. framed enc (fst (dispatch hs \<lparr>rq_id = 0, rq_method = m, rq_payload = p\<rparr> v))"
  shows "\<exists>ls r n. exec (net_step enc dec fdec fenc hs) (net_start new_codec w) ls (n :: ('x, 's, 'w) net) \<and> few_calls ls
     \<and> calls (n_client n) c = Finished r \<and> r \<noteq> (Inl Closed :: 'x patina_error + bytes)
     \<and> built (n_client n) = [c \<mapsto> \<lparr>rq_id = 0, rq_method = m, rq_payload = p\<rparr>]
     \<and> (\<forall>c' m' p'. EvCall c' m' p' \<in> set (client_side ls) \<longrightarrow> c' = c \<and> m' = m \<and> p' = p)
     \<and> (\<exists>ms. ls = map Client_Local (one_call c m p) @ ms @ [Client_Local (EvRecv c)] \<and> (\<forall>l \<in> set ms. moving l))"
proof -
  let ?call = "map Client_Local (one_call c m p)"
  obtain n :: "('x, 's, 'w) net" where n:
    "exec (net_step enc dec fdec fenc hs) (net_start new_codec w) ?call n"
    "calls (n_client n) c = Awaiting 0 (guard_new 0)" "healthy n"
    "built (n_client n) = [c \<mapsto> \<lparr>rq_id = 0, rq_method = m, rq_payload = p\<rparr>]"
    using one_call_waits [of enc dec fdec fenc hs new_codec w c m p] by blast
  have few: "few_calls ?call" by (simp add: few_calls_def one_call_def)
  have "messages_fit enc hs n" using fits by (auto simp: messages_fit_def n(4))
  from envelope_codec.waiting_call_completes [OF codec n(1) few n(3) this n(2)] obtain ms k r where
    k: "exec (net_step enc dec fdec fenc hs) n (ms @ [Client_Local (EvRecv c)]) k" "\<forall>l \<in> set ms. moving l"
    "calls (n_client k) c = Finished r" "r \<noteq> Inl Closed" "built (n_client k) = built (n_client n)"
    by blast
  have "few_calls ((?call @ ms) @ [Client_Local (EvRecv c)])"
    using moving_few_calls [OF k(2), of ?call] few by (simp add: few_calls_def)
  moreover have "EvCall c' m' p' \<in> set (client_side (?call @ ms @ [Client_Local (EvRecv c)])) \<Longrightarrow>
      c' = c \<and> m' = m \<and> p' = p" for c' m' p'
    using moving_calls_nothing [OF k(2)] by (auto simp: one_call_def)
  ultimately show ?thesis
    using exec_trans [OF k(1) n(1)] k(2-5) n(4)
    by (intro exI [of _ "?call @ ms @ [Client_Local (EvRecv c)]"] exI [of _ r] exI [of _ k]) simp
qed

lemma echo_framed:
  "framed ref_encode (Request echo_request)" "framed ref_encode (fst (dispatch echo_server echo_request v))"
proof -
  have "fst (dispatch echo_server echo_request v) = Response \<lparr>rs_id = 0, rs_payload = [7, 8]\<rparr>"
    by (simp add: dispatch_def echo_server_def)
  with echo_encodes show "framed ref_encode (Request echo_request)" "framed ref_encode (fst (dispatch echo_server echo_request v))"
    unfolding framed_def by auto
qed

lemma echo_completes:
  "\<exists>ls r (n :: (string, framing, nat) net). exec (ref_net_step echo_server) echo_start ls n \<and> few_calls ls
     \<and> calls (n_client n) 3 = Finished r \<and> r \<noteq> Inl Closed \<and> built (n_client n) = [3 \<mapsto> echo_request]"
  using one_call_completes [OF ref_envelope_codec echo_framed, of 0 3] by blast

text \<open>The order of executions in the specification, told in terms of the connection.\<close>

lemma connection_effects:
  assumes "envelope_codec enc dec new_codec fdec fenc max_frame held"
    and "exec (net_step enc dec fdec fenc hs) (net_start new_codec w) ls (n :: ('x, 's, 'w) net)" and "few_calls ls"
  shows "\<exists>cs qs rs. distinct cs \<and> map (built (n_client n)) cs = map Some qs
    \<and> run_calls hs (map (\<lambda>q. (rq_method q, rq_payload q)) qs) w = (rs, world (n_server n))
    \<and> (\<forall>c r. calls (n_client n) c = Finished r \<and> r \<noteq> (Inl Closed :: 'x patina_error + bytes) \<longrightarrow> (c, r) \<in> set (zip cs rs))"
proof -
  from envelope_codec.network_refines [OF assms] obtain ms where
    ms: "exec (rpc_step hs) (rpc_start w) ms (rpc_view n)" ..
  note effects = exec_effects [OF ms]
  let ?cs = "executions ms" and ?rs = "map (\<lambda>c. the (r_reply (rpc_view n) c)) (executions ms)"
  have built: "built (n_client n) c \<noteq> None" if "c \<in> set ?cs" for c
    using that effects(3) by (auto simp: rpc_view_def)
  let ?qs = "map (\<lambda>c. the (built (n_client n) c)) ?cs"
  have qs: "map (built (n_client n)) ?cs = map Some ?qs" using built by auto
  have "map (\<lambda>c. the (r_request (rpc_view n) c)) ?cs = map (\<lambda>q. (rq_method q, rq_payload q)) ?qs"
    using built by (fastforce simp: rpc_view_def)
  with effects(4) have "run_calls hs (map (\<lambda>q. (rq_method q, rq_payload q)) ?qs) w = (?rs, world (n_server n))"
    by (simp only:) (simp add: rpc_view_def)
  moreover have "(c, r) \<in> set (zip ?cs ?rs)" if "calls (n_client n) c = Finished r" "r \<noteq> Inl Closed" for c r
    using effects(5) [of c r] that by (simp add: rpc_view_def outcomes_def)
  ultimately show ?thesis using effects(1) qs by blast
qed

section \<open>Properties\<close>

text \<open>
  A connection refines the at-most-once specification. Take any execution of the whole system, over
  any codecs that satisfy the libraries' laws, with bytes delayed and cut, sends that fail half way,
  panics, dropped calls and teardown at any point, in which at most \<open>2 ^ 64\<close> calls took a number. Seen
  through the mapping to requests, replies, outcomes and service state, it is an execution of the
  specification: a call is invoked once, executed at most once on its own request, and returns the
  reply of that execution, \<open>Closed\<close>, or nothing because its caller gave up.
\<close>

lemma connection_refines_rpc:
  assumes "envelope_codec enc dec new_codec fdec fenc max_frame held"
    and "exec (net_step enc dec fdec fenc hs) (net_start new_codec w) ls n" and "few_calls ls"
  shows "\<exists>ms. exec (rpc_step hs) (rpc_start w) ms (rpc_view n)"
  by (rule envelope_codec.network_refines [OF assms])

lemma connection_refines_rpc_witness:
  "\<exists>ms r n :: (string, framing, nat) net.
     exec (rpc_step echo_server) (rpc_start 0) ms (rpc_view n) \<and> r_outcome (rpc_view n) 3 = Some (Returned r)"
proof -
  obtain ls r and n :: "(string, framing, nat) net" where n: "exec (ref_net_step echo_server) echo_start ls n"
    "few_calls ls" "calls (n_client n) 3 = Finished r"
    using echo_completes by blast
  have "r_outcome (rpc_view n) 3 = Some (Returned r)" using n(3) by (simp add: rpc_view_def outcomes_def)
  with connection_refines_rpc [OF ref_envelope_codec n(1,2)] show ?thesis by blast
qed

text \<open>
  The effects of a connection are those of one sequential run. In every reachable state of the whole
  system there is an order of calls, each at most once, such that the state of the service is the one
  after handling exactly these calls' requests one after the other; and the result of every call that
  returned anything but \<open>Closed\<close> is its result in that run.
\<close>

lemma effects_are_sequential:
  assumes "envelope_codec enc dec new_codec fdec fenc max_frame held"
    and "exec (net_step enc dec fdec fenc hs) (net_start new_codec w) ls (n :: ('x, 's, 'w) net)" and "few_calls ls"
  shows "\<exists>cs qs rs. distinct cs \<and> map (built (n_client n)) cs = map Some qs
    \<and> run_calls hs (map (\<lambda>q. (rq_method q, rq_payload q)) qs) w = (rs, world (n_server n))
    \<and> (\<forall>c r. calls (n_client n) c = Finished r \<and> r \<noteq> (Inl Closed :: 'x patina_error + bytes) \<longrightarrow> (c, r) \<in> set (zip cs rs))"
  by (rule connection_effects [OF assms])

lemma effects_are_sequential_witness:
  "\<exists>ls (n :: (string, framing, nat) net). exec (ref_net_step echo_server) echo_start ls n
     \<and> calls (n_client n) 3 = Finished (Inr [7, 8]) \<and> world (n_server n) = 1"
proof -
  obtain ls r and n :: "(string, framing, nat) net" where n: "exec (ref_net_step echo_server) echo_start ls n"
    "few_calls ls" "calls (n_client n) 3 = Finished r" "r \<noteq> Inl Closed"
    "built (n_client n) = [3 \<mapsto> echo_request]"
    using echo_completes by blast
  from effects_are_sequential [OF ref_envelope_codec n(1,2)] obtain cs qs rs where
    cs: "distinct cs" "map (built (n_client n)) cs = map Some qs"
    "run_calls echo_server (map (\<lambda>q. (rq_method q, rq_payload q)) qs) 0 = (rs, world (n_server n))"
    "\<forall>c r. calls (n_client n) c = Finished r \<and> r \<noteq> Inl Closed \<longrightarrow> (c, r) \<in> set (zip cs rs)"
    by blast
  have "c = 3" if "c \<in> set cs" for c
  proof (rule ccontr)
    assume "c \<noteq> 3"
    with that n(5) have "None \<in> set (map (built (n_client n)) cs)" by (force simp: image_iff)
    then show False unfolding cs(2) by auto
  qed
  then have "cs = [] \<or> cs = [3]" using cs(1) by (cases cs; cases "tl cs") auto
  moreover have result: "(3, r) \<in> set (zip cs rs)" using cs(4) n(3,4) by blast
  ultimately have "cs = [3]" by auto
  with cs(2) n(5) have "qs = [echo_request]" by (auto simp: map_eq_Cons_conv Cons_eq_map_conv)
  with cs(3) have "rs = [Inr [7, 8]]" "world (n_server n) = 1"
    by (simp_all add: handle_def echo_server_def)
  with result n \<open>cs = [3]\<close> show ?thesis by auto
qed

text \<open>
  A waiting call can always complete. Take any reachable state of the whole system in which both
  tasks of the client run, the server reads and its writer works, no worker panicked and no answer was
  discarded, and in which the requests built and the answers to them fit in a frame. Then every call
  that waits for its answer can still get it: there is a continuation in which messages only move
  forward, with no failure and no help of another caller, that ends with this call returning the
  reply of its own request. So no state of a working connection is a deadlock for a waiting call.
\<close>

lemma waiting_call_can_complete:
  assumes "envelope_codec enc dec new_codec fdec fenc max_frame held"
    and "exec (net_step enc dec fdec fenc hs) (net_start new_codec w) ls n" and "few_calls ls"
    and "healthy n" and "messages_fit enc hs n" and "calls (n_client n) c = Awaiting i g"
  shows "\<exists>ms m r. exec (net_step enc dec fdec fenc hs) n (ms @ [Client_Local (EvRecv c)]) m
    \<and> (\<forall>l \<in> set ms. moving l) \<and> calls (n_client m) c = Finished r
    \<and> r \<noteq> Inl Closed \<and> r_reply (rpc_view m) c = Some r"
  using envelope_codec.waiting_call_completes [OF assms] by blast

lemma waiting_call_can_complete_witness:
  "\<exists>n ms (m :: (string, framing, nat) net) r. exec (ref_net_step echo_server) n (ms @ [Client_Local (EvRecv 3)]) m
     \<and> calls (n_client n) 3 = Awaiting 0 (guard_new 0)
     \<and> calls (n_client m) 3 = Finished r \<and> r \<noteq> Inl Closed \<and> r_reply (rpc_view m) 3 = Some r"
proof -
  obtain n :: "(string, framing, nat) net" where n:
    "exec (ref_net_step echo_server) echo_start (map Client_Local (one_call 3 ''echo'' [7, 8])) n"
    "calls (n_client n) 3 = Awaiting 0 (guard_new 0)" "healthy n" "built (n_client n) = [3 \<mapsto> echo_request]"
    using one_call_waits [of ref_encode ref_decode ref_frame_decode ref_frame_encode echo_server ref_new_codec 0 3 "''echo''" "[7, 8]"]
    by blast
  have few: "few_calls (map Client_Local (one_call 3 ''echo'' [7, 8]))" by (simp add: few_calls_def one_call_def)
  have "messages_fit ref_encode echo_server n" using echo_framed by (auto simp: messages_fit_def n(4))
  from waiting_call_can_complete [OF ref_envelope_codec n(1) few n(3) this n(2)] n(2)
  show ?thesis by blast
qed

text \<open>
  A stream is never misread. However the bytes are cut and delayed, and even after a send that
  failed in the middle of a frame, neither end ever sees a decoding error; what an end has decoded is a
  prefix, in order, of what the other end has written, for the requests going up and for the answers
  coming down.
\<close>

lemma streams_never_misread:
  assumes "envelope_codec enc dec new_codec fdec fenc max_frame held"
    and "exec (net_step enc dec fdec fenc hs) (net_start new_codec w) ls n"
  shows "Client_Bad \<notin> set ls \<and> Server_Bad \<notin> set ls
    \<and> prefix (server_frames (server_side ls)) (sent (n_client n))
    \<and> prefix (client_frames (client_side ls)) (written (n_server n))"
proof -
  note net_ok = envelope_codec.net_exec_ok [OF assms(1)]
  have "Client_Bad \<notin> set ls \<and> Server_Bad \<notin> set ls"
    using assms(2)
  proof (induction rule: exec.induct)
    case (exec_step ls n l m)
    note I = envelope_codec.net_okD [OF assms(1) net_ok [OF exec_step.hyps(1)]]
    have "l \<noteq> Client_Bad \<and> l \<noteq> Server_Bad"
      using exec_step.hyps(2)
      by (cases rule: net_step.cases)
        (use envelope_codec.pipe_decode_no_error [OF assms(1) I(1)] envelope_codec.pipe_decode_no_error [OF assms(1) I(2)] in blast)+
    with exec_step.IH show ?case by auto
  qed simp
  moreover note I = envelope_codec.net_okD [OF assms(1) net_ok [OF assms(2)]]
  have "prefix (got (n_up n)) (sent (n_client n))" "prefix (got (n_down n)) (written (n_server n))"
    using envelope_codec.pipe_ok_prefix [OF assms(1) I(1)] envelope_codec.pipe_ok_prefix [OF assms(1) I(2)] I(3,4)
    by simp_all
  ultimately show ?thesis by (simp add: envelope_codec.net_exec_got [OF assms] envelope_codec.net_exec_got_up [OF assms])
qed

lemma streams_never_misread_witness:
  "\<exists>ls (n :: (string, framing, nat) net) r. exec (ref_net_step echo_server) echo_start ls n
     \<and> calls (n_client n) 3 = Finished r \<and> r \<noteq> Inl Closed
     \<and> Client_Bad \<notin> set ls \<and> prefix (client_frames (client_side ls)) (written (n_server n))"
proof -
  obtain ls r and n :: "(string, framing, nat) net" where n: "exec (ref_net_step echo_server) echo_start ls n"
    "calls (n_client n) 3 = Finished r" "r \<noteq> Inl Closed"
    using echo_completes by blast
  from streams_never_misread [OF ref_envelope_codec n(1)] n show ?thesis by blast
qed

text \<open>
  A handler that panics strands its caller. Once the worker of a request has panicked, in every state
  that follows the call that built the request has no reply: it can only end as \<open>Closed\<close>, and while
  the client's reader has not ended it cannot end by itself at all, although the connection works. The
  server sends no error in place of the answer.
\<close>

lemma panicked_handler_strands_call:
  assumes "envelope_codec enc dec new_codec fdec fenc max_frame held"
    and "exec (net_step enc dec fdec fenc hs) (net_start new_codec w) ls n" and "few_calls ls"
    and "q \<in># panicked (n_server n)" and "built (n_client n) c = Some q"
  shows "r_reply (rpc_view n) c = None
    \<and> (\<forall>r. calls (n_client n) c = Finished r \<longrightarrow> r = Inl Closed)
    \<and> (\<forall>i g. calls (n_client n) c = Awaiting i g \<and> reader (n_client n) \<noteq> RGone \<longrightarrow>
          client_step (EvRecv c) (n_client n) = None)"
  using envelope_codec.panicked_call_stuck [OF assms] by blast

lemma panicked_echo:
  "\<exists>ls c (n :: (string, framing, nat) net). exec (ref_net_step echo_server) echo_start ls n \<and> few_calls ls
     \<and> echo_request \<in># panicked (n_server n) \<and> built (n_client n) c = Some echo_request"
proof -
  obtain ls r and n :: "(string, framing, nat) net" where n: "exec (ref_net_step echo_server) echo_start ls n"
    "few_calls ls" "calls (n_client n) 3 = Finished r" "r \<noteq> Inl Closed" "built (n_client n) = [3 \<mapsto> echo_request]"
    using echo_completes by blast
  have "logged (n_log n) echo_request = Some r" by (rule ref.returned_is_logged [OF n(1-4)]) (simp add: n(5))
  then obtain e where "(echo_request, e) \<in> set (n_log n)" by (auto simp: logged_def dest: map_of_SomeD)
  from ref.logged_was_running [OF n(1) this n(2)] obtain ks W and k :: "(string, framing, nat) net" where
    k: "exec (ref_net_step echo_server) echo_start ks k" "few_calls ks"
      "workers (n_server k) = add_mset (Running echo_request) W" by blast
  let ?s = "n_server k\<lparr>workers := W, panicked := add_mset echo_request (panicked (n_server k))\<rparr>"
  have "ref_net_step echo_server k (Server_Local Panic) (k\<lparr>n_server := ?s, n_log := n_log k\<rparr>)"
    by (rule net_step.server_local [OF _ conn_step.panic [OF k(3)]]) (simp_all add: new_log_def)
  with k(1) have m: "exec (ref_net_step echo_server) echo_start (ks @ [Server_Local Panic]) (k\<lparr>n_server := ?s, n_log := n_log k\<rparr>)"
    by (rule exec.exec_step)
  have few: "few_calls (ks @ [Server_Local Panic])" using k(2) by (simp add: few_calls_def)
  have "echo_request \<in># received (n_server k)"
    using conn_exec_inv [OF net_exec_server [OF k(1)]] k(3) by (simp add: conn_inv_def running_def)
  from ref.net_exec_requests(2) [OF k(1,2) this] obtain c where c: "built (n_client k) c = Some echo_request" ..
  from c m few show ?thesis
    by (intro exI [of _ "ks @ [Server_Local Panic]"] exI [of _ c] exI [of _ "k\<lparr>n_server := ?s, n_log := n_log k\<rparr>"]) simp
qed

lemma panicked_handler_strands_call_witness:
  "\<exists>ls c (n :: (string, framing, nat) net). exec (ref_net_step echo_server) echo_start ls n
     \<and> echo_request \<in># panicked (n_server n) \<and> built (n_client n) c = Some echo_request
     \<and> r_reply (rpc_view n) c = None"
proof -
  obtain ls c and n :: "(string, framing, nat) net" where n: "exec (ref_net_step echo_server) echo_start ls n" "few_calls ls"
    "echo_request \<in># panicked (n_server n)" "built (n_client n) c = Some echo_request"
    using panicked_echo by blast
  from panicked_handler_strands_call [OF ref_envelope_codec n] n(1,3,4) show ?thesis by blast
qed

end
