(* ===== verification/Closed_Calls.thy ===== *)
theory Closed_Calls
  imports Network_Props
begin

text \<open>
  When a call ends with \<open>Closed\<close>: only on a client that is closed, and a client is closed only after
  its connection has ended. So as long as the connection lasts every call that returns has the reply of
  its request.
\<close>

section \<open>The client\<close>

lemma step_closed:
  "client_step e s = Some t \<Longrightarrow> calls t c = Finished (Inl Closed) \<Longrightarrow>
   calls s c = Finished (Inl Closed) \<or> token s \<or> writer s = WGone
   \<or> (\<exists>i g. calls s c = Awaiting i g \<and> chans s c = TxDropped)
   \<or> (\<exists>a. chans s c = Full a \<and> call_result (Some a) = (Inl Closed :: 'x patina_error + bytes))"
  for s t :: "'x client"
  by (cases e) (auto simp: client_op_defs split: client_op_splits)

lemma reply_result: "reply_id e = Some i \<Longrightarrow> call_result (Some e) \<noteq> Inl Closed"
  by (cases e) (auto simp: patina_from_error_data_def)

definition closed_ok :: "event list \<Rightarrow> 'x client \<Rightarrow> bool" where
  "closed_ok es s \<longleftrightarrow> length (numbered es) \<le> 2 ^ 64 \<longrightarrow> (\<forall>c. calls s c = Finished (Inl Closed) \<longrightarrow> token s)"

lemma step_closed_ok:
  assumes run: "client_run es from_stream = Some s" and old: "closed_ok es s" and step: "client_step e s = Some t"
  shows "closed_ok (es @ [e]) t"
  unfolding closed_ok_def
proof (intro impI allI)
  fix c assume bound: "length (numbered (es @ [e])) \<le> 2 ^ 64" and fin: "calls t c = Finished (Inl Closed)"
  note tasks = run_tasks_ok [OF run]
  have "token s"
    using step_closed [OF step fin]
  proof (elim disjE exE conjE)
    assume "calls s c = Finished (Inl Closed)"
    with old bound show ?thesis by (auto simp: closed_ok_def)
  next
    assume "writer s = WGone"
    with tasks show ?thesis by (simp add: tasks_ok_def)
  next
    fix i g assume "calls s c = Awaiting i g" "chans s c = TxDropped"
    with run_unclosed [OF run] bound have "reader s = RGone" by (force simp: unclosed_def)
    with tasks show ?thesis by (simp add: tasks_ok_def)
  next
    fix a assume a: "chans s c = Full a" "call_result (Some a) = (Inl Closed :: 'a patina_error + bytes)"
    with run_routed [OF run] obtain i where "reply_id a = Some i" unfolding routed_def answers_def by blast
    with a(2) reply_result show ?thesis by blast
  qed
  with step show "token t" by (rule step_token)
qed

lemma run_closed_ok: "client_run es from_stream = Some s \<Longrightarrow> closed_ok es s"
proof (rule run_trace_invariant [where P = closed_ok and f = client_step and ?s0.0 = from_stream])
  show "closed_ok [] from_stream" by (simp add: closed_ok_def from_stream_def)
qed (rule step_closed_ok)

text \<open>The events with which the connection of a client ends.\<close>

fun disconnects :: "event \<Rightarrow> bool" where
  "disconnects EvClientDrop = True"
| "disconnects EvWriterFailed = True"
| "disconnects EvReaderError = True"
| "disconnects EvReaderEof = True"
| "disconnects _ = False"

definition connected :: "'x client \<Rightarrow> bool" where
  "connected s \<longleftrightarrow> \<not> token s \<and> alive s \<and> \<not> writer_stopped (writer s) \<and> reader_running (reader s)"

lemma step_connected: "client_step e s = Some t \<Longrightarrow> connected s \<Longrightarrow> \<not> disconnects e \<Longrightarrow> connected t"
  by (cases e) (auto simp: connected_def client_op_defs split: client_op_splits)

lemma run_connected:
  "client_run es s = Some t \<Longrightarrow> connected s \<Longrightarrow> \<forall>e \<in> set es. \<not> disconnects e \<Longrightarrow> connected t"
proof (induction es arbitrary: t rule: rev_induct)
  case (snoc e es)
  from snoc.prems(1) obtain u where u: "client_run es s = Some u" "client_step e u = Some t" by (rule run_snocE)
  with snoc show ?case by (auto intro: step_connected)
qed simp

lemma from_stream_connected: "connected from_stream"
  by (simp add: connected_def from_stream_def)

text \<open>
  C6. \<open>Closed\<close> means that the connection has ended. As long as at most \<open>2 ^ 64\<close> calls took a number, a
  call returns \<open>Closed\<close> only on a client for which \<open>is_closed\<close> is true; and a client is closed only after
  its reader met the end of the stream or an error, a send of its writer failed, or it was dropped.
\<close>

theorem closed_means_disconnected:
  assumes "client_run es from_stream = Some s" and "length (numbered es) \<le> 2 ^ 64"
    and "calls s c = Finished (Inl Closed)"
  shows "is_closed s \<and> (\<exists>e \<in> set es. e = EvReaderEof \<or> e = EvReaderError \<or> e = EvWriterFailed \<or> e = EvClientDrop)"
proof -
  have closed: "token s" using run_closed_ok [OF assms(1)] assms(2,3) by (auto simp: closed_ok_def)
  with run_connected [OF assms(1) from_stream_connected] have "\<exists>e \<in> set es. disconnects e"
    by (auto simp: connected_def)
  then obtain e where "e \<in> set es" "disconnects e" ..
  moreover have "e = EvReaderEof \<or> e = EvReaderError \<or> e = EvWriterFailed \<or> e = EvClientDrop"
    using \<open>disconnects e\<close> by (cases e) simp_all
  ultimately show ?thesis using closed by (auto simp: is_closed_def)
qed

theorem closed_means_disconnected_witness:
  "\<exists>s :: string client. client_run (submit_run 0 ''a'' [10] @ disconnect_run @ [EvReaderDrain, EvReaderExit, EvRecv 0]) from_stream = Some s
     \<and> calls s 0 = Finished (Inl Closed) \<and> is_closed s"
proof -
  let ?es = "submit_run 0 ''a'' [10] @ disconnect_run @ [EvReaderDrain, EvReaderExit, EvRecv 0]"
  obtain s :: "string client" where s: "client_run ?es from_stream = Some s" "calls s 0 = Finished (Inl Closed)"
    by (simp add: submit_run_def disconnect_run_def client_eval)
  have "length (numbered ?es) \<le> 2 ^ 64" by (simp add: submit_run_def disconnect_run_def)
  from closed_means_disconnected [OF s(1) this s(2)] s show ?thesis by blast
qed

section \<open>The connection\<close>

definition lasting :: "net_event list \<Rightarrow> bool" where
  "lasting ls \<longleftrightarrow> (\<forall>e \<in> set (client_side ls). \<not> disconnects e)"

context envelope_codec
begin

lemma lasting_result:
  assumes "exec (nstep hs) (nstart w) ls n" "few_calls ls" "lasting ls" "calls (n_client n) c = Finished r"
  shows "r \<noteq> Inl Closed \<and> (\<exists>q v. built (n_client n) c = Some q \<and> r = fst (handle hs (rq_method q) (rq_payload q) v))"
proof -
  note run = net_exec_client [OF assms(1)]
  have "connected (n_client n)"
    using run_connected [OF run from_stream_connected] assms(3) by (simp add: lasting_def)
  with run_closed_ok [OF run] assms(2,4) have r: "r \<noteq> Inl Closed"
    by (auto simp: closed_ok_def connected_def few_calls_def)
  from run_routed [OF run] assms(4) r obtain q where q: "built (n_client n) c = Some q"
    unfolding routed_def answers_def by blast
  from returned_is_logged [OF assms(1,2,4) r q] obtain e where e: "(q, e) \<in> set (n_log n)" "r = call_result (Some e)"
    by (auto simp: logged_def dest: map_of_SomeD)
  then have "(q, e) \<in># answered (n_server n)"
    using net_okD(8) [OF net_exec_ok [OF assms(1)]] by (metis set_mset_mset)
  from conn_inv_answered [OF conn_exec_inv [OF net_exec_server [OF assms(1)]] this] obtain v v' where
    "dispatch hs q v = (e, v')" by blast
  with handle_dispatch [OF this] q e(2) r show ?thesis by (metis fst_conv)
qed

end

text \<open>Moving messages forward disconnects nobody.\<close>

lemma moving_lasting: "\<forall>l \<in> set ms. moving l \<Longrightarrow> e \<in> set (client_side ms) \<Longrightarrow> \<not> disconnects e"
proof (induction ms)
  case (Cons l ms)
  then show ?case by (cases l) auto
qed simp

lemma one_call_lasting:
  "\<forall>l \<in> set ms. moving l \<Longrightarrow> lasting (map Client_Local (one_call c m p) @ ms @ [Client_Local (EvRecv c)])"
  using moving_lasting by (auto simp: lasting_def one_call_def)

text \<open>
  As long as the connection lasts every call that returns has the server's answer. Take an execution
  of the whole system in which the client's reader meets neither the end of the stream nor an error, no
  send of the client fails and the client is not dropped, whatever else happens on either side. Then a
  call that has finished returned what the handler of its method computed for the payload it was given,
  or the 404 of an unknown method; and once no call is in flight the client has no pending entry.
\<close>

lemma replies_while_connected:
  assumes "envelope_codec enc dec new_codec fdec fenc max_frame held"
    and "exec (net_step enc dec fdec fenc hs) (net_start new_codec w) ls (n :: ('x, 's, 'w) net)" and "few_calls ls"
    and "lasting ls"
  shows "(\<forall>c r. calls (n_client n) c = Finished r \<longrightarrow> r \<noteq> Inl Closed
      \<and> (\<exists>m p v. EvCall c m p \<in> set (client_side ls) \<and> r = fst (handle hs m p v)))
    \<and> ((\<forall>c. slot (calls (n_client n) c) = None) \<longrightarrow> pending_count (n_client n) = 0)"
proof (intro conjI allI impI)
  note run = net_exec_client [OF assms(2)]
  fix c r assume fin: "calls (n_client n) c = Finished r"
  note result = envelope_codec.lasting_result [OF assms fin]
  show "r \<noteq> Inl Closed" using result ..
  from result obtain q v where "built (n_client n) c = Some q" "r = fst (handle hs (rq_method q) (rq_payload q) v)" by blast
  moreover from this(1) run_asked_ok [OF run] have "EvCall c (rq_method q) (rq_payload q) \<in> set (client_side ls)"
    by (auto simp: asked_ok_def)
  ultimately show "\<exists>m p v. EvCall c m p \<in> set (client_side ls) \<and> r = fst (handle hs m p v)" by blast
next
  assume "\<forall>c. slot (calls (n_client n) c) = None"
  with pending_count_zero [OF net_exec_client [OF assms(2)]] show "pending_count (n_client n) = 0" .
qed

lemma replies_while_connected_witness:
  "\<exists>ls (n :: (string, framing, nat) net) m p v. exec (ref_net_step echo_server) echo_start ls n \<and> lasting ls
     \<and> calls (n_client n) 3 = Finished (fst (handle echo_server m p v)) \<and> EvCall 3 m p \<in> set (client_side ls)"
proof -
  obtain ls r and n :: "(string, framing, nat) net" and ms where n: "exec (ref_net_step echo_server) echo_start ls n"
    "few_calls ls" "calls (n_client n) 3 = Finished r"
    and ls: "ls = map Client_Local (one_call 3 ''echo'' [7, 8]) @ ms @ [Client_Local (EvRecv 3)]" "\<forall>l \<in> set ms. moving l"
    using one_call_completes [OF ref_envelope_codec echo_framed, of 0 3] by blast
  have "lasting ls" using one_call_lasting [OF ls(2)] ls(1) by simp
  with replies_while_connected [OF ref_envelope_codec n(1,2)] n show ?thesis by blast
qed

text \<open>A call moves only by its own events.\<close>

lemma step_own_call: "client_step e s = Some t \<Longrightarrow> event_chan e \<noteq> Some c \<Longrightarrow> calls t c = calls s c"
  by (cases e) (auto simp: client_op_defs split: client_op_splits)

lemma run_own_call: "client_run es s = Some t \<Longrightarrow> \<forall>e \<in> set es. event_chan e \<noteq> Some c \<Longrightarrow> calls t c = calls s c"
proof (induction es arbitrary: t rule: rev_induct)
  case (snoc e es)
  from snoc.prems(1) obtain u where u: "client_run es s = Some u" "client_step e u = Some t" by (rule run_snocE)
  with snoc step_own_call [OF u(2), of c] show ?case by simp
qed simp

lemma moving_no_call: "\<forall>l \<in> set ms. moving l \<Longrightarrow> e \<in> set (client_side ms) \<Longrightarrow> event_chan e = None"
proof (induction ms)
  case (Cons l ms)
  then show ?case by (cases l) auto
qed simp

lemma one_call_only:
  assumes "exec (net_step enc dec fdec fenc hs) (net_start new_codec w) (map Client_Local (one_call c m p) @ ms @ [Client_Local (EvRecv c)]) n"
    and "\<forall>l \<in> set ms. moving l" "d \<noteq> c"
  shows "calls (n_client n) d = NotStarted"
proof -
  have "\<forall>e \<in> set (client_side (map Client_Local (one_call c m p) @ ms @ [Client_Local (EvRecv c)])). event_chan e \<noteq> Some d"
    using moving_no_call [OF assms(2)] assms(3) by (auto simp: one_call_def)
  from run_own_call [OF net_exec_client [OF assms(1)] this] show ?thesis by (simp add: from_stream_def)
qed

section \<open>Programs that make a fixed list of calls\<close>

text \<open>Of the standard library: the bytes of a literal, and \<open>u8::to_ascii_uppercase\<close>.\<close>

definition text_bytes :: "string \<Rightarrow> bytes" where
  "text_bytes = map (\<lambda>c. word_of_nat (of_char c))"

definition to_ascii_uppercase :: "u8 \<Rightarrow> u8" where
  "to_ascii_uppercase b = (if 97 \<le> b \<and> b \<le> 122 then b - 32 else b)"

text \<open>The calls made on a connection are entries of a table, by their number.\<close>

definition made_calls :: "(string \<times> bytes) list \<Rightarrow> net_event list \<Rightarrow> bool" where
  "made_calls tbl ls \<longleftrightarrow>
     (\<forall>ev \<in> set (client_side ls). \<forall>c m p. ev = EvCall c m p \<longrightarrow> c < length tbl \<and> tbl ! c = (m, p))"

lemma made_callsD: "made_calls tbl ls \<Longrightarrow> EvCall c m p \<in> set (client_side ls) \<Longrightarrow> c < length tbl \<and> tbl ! c = (m, p)"
  by (auto simp: made_calls_def)

lemma one_call_made:
  assumes "\<forall>c' m' p'. EvCall c' m' p' \<in> set (client_side ls) \<longrightarrow> c' = c \<and> m' = m \<and> p' = p"
    and "c < length tbl" "tbl ! c = (m, p)"
  shows "made_calls tbl ls"
  using assms unfolding made_calls_def by blast

lemma lasting_table:
  assumes "envelope_codec enc dec new_codec fdec fenc max_frame held"
    and "exec (net_step enc dec fdec fenc hs) (net_start new_codec w) ls (n :: ('x, 's, 'w) net)" and "few_calls ls"
    and "lasting ls" "made_calls tbl ls" "calls (n_client n) c = Finished r"
  shows "c < length tbl \<and> (\<exists>v. r = fst (handle hs (fst (tbl ! c)) (snd (tbl ! c)) v))"
proof -
  from envelope_codec.lasting_result [OF assms(1-4,6)] obtain q v where
    q: "built (n_client n) c = Some q" "r = fst (handle hs (rq_method q) (rq_payload q) v)" by blast
  then have "EvCall c (rq_method q) (rq_payload q) \<in> set (client_side ls)"
    using run_asked_ok [OF net_exec_client [OF assms(2)]] by (auto simp: asked_ok_def)
  from made_callsD [OF assms(5) this] q(2) show ?thesis by auto
qed

lemma over_no_slot: "call_over st \<Longrightarrow> slot st = None"
  by (cases st) simp_all

lemma idle_no_pending:
  assumes "exec (net_step enc dec fdec fenc hs) (net_start new_codec w) ls n"
    and "\<forall>c. call_over (calls (n_client n) c)"
  shows "pending_count (n_client n) = 0"
  using assms over_no_slot pending_count_zero [OF net_exec_client [OF assms(1)]] by blast

end
