(* ===== verification/Program_Live.thy ===== *)
theory Program_Live
  imports Closed_Calls
begin

text \<open>
  Programs that make a fixed list of calls at once can run to their end: there is an execution over a
  connection that lasts in which every one of their calls returns. The theories of the example programs
  and of the integration tests use it to show that what they prove of complete runs is about something.
\<close>

section \<open>All waiting calls complete\<close>

definition quiet_for :: "nat set \<Rightarrow> net_event list \<Rightarrow> bool" where
  "quiet_for C ls \<longleftrightarrow> (\<forall>e \<in> set (client_side ls). \<not> disconnects e \<and> (\<forall>c m p. e \<noteq> EvCall c m p)
     \<and> (\<forall>c. event_chan e = Some c \<longrightarrow> c \<in> C)) \<and> numbered (client_side ls) = []"

lemma quiet_for_append: "quiet_for C ls \<Longrightarrow> quiet_for D ms \<Longrightarrow> quiet_for (C \<union> D) (ls @ ms)"
  unfolding quiet_for_def by auto

lemma moving_quiet: "\<forall>l \<in> set ms. moving l \<Longrightarrow> quiet_for {} ms"
proof -
  assume m: "\<forall>l \<in> set ms. moving l"
  have "numbered (client_side ms) = []"
    using m
  proof (induction ms)
    case (Cons l ms)
    then show ?case by (cases l) auto
  qed simp
  with moving_no_call [OF m] moving_lasting [OF m] show ?thesis by (force simp: quiet_for_def)
qed

lemma recv_quiet: "quiet_for {c} [Client_Local (EvRecv c)]"
  by (simp add: quiet_for_def)

lemma quiet_keeps:
  assumes "exec (net_step enc dec fdec fenc hs) n ms m" "quiet_for C ms" "d \<notin> C"
  shows "calls (n_client m) d = calls (n_client n) d"
proof -
  have run: "client_run (client_side ms) (n_client n) = Some (n_client m)"
    using assms(1)
  proof (induction rule: exec.induct)
    case (exec_step ls t l u)
    with net_step_client [OF exec_step.hyps(2)] show ?case by (simp add: run_append)
  qed simp
  have "\<forall>e \<in> set (client_side ms). event_chan e \<noteq> Some d"
    using assms(2,3) unfolding quiet_for_def by blast
  from run_own_call [OF run this] show ?thesis .
qed

context envelope_codec
begin

lemma all_complete:
  assumes "exec (nstep hs) (nstart w) ls n" "few_calls ls" "healthy n" "messages_fit encode_to_vec hs n"
    and "\<forall>c \<in> set cs. \<exists>i g. calls (n_client n) c = Awaiting i g" "distinct cs"
  shows "\<exists>ms m. exec (nstep hs) n ms m \<and> quiet_for (set cs) ms \<and> (\<forall>c \<in> set cs. \<exists>r. calls (n_client m) c = Finished r)"
  using assms
proof (induction cs arbitrary: n ls)
  case Nil
  show ?case by (intro exI [of _ "[]"] exI [of _ n]) (simp add: exec.exec_none quiet_for_def)
next
  case (Cons c cs)
  from Cons.prems(5) obtain i g where "calls (n_client n) c = Awaiting i g" by auto
  from waiting_call_completes [OF Cons.prems(1-4) this] obtain ms m r where
    m: "exec (nstep hs) n (ms @ [Client_Local (EvRecv c)]) m" "\<forall>l \<in> set ms. moving l" "calls (n_client m) c = Finished r"
      "built (n_client m) = built (n_client n)" "healthy m"
    by blast
  let ?ms = "ms @ [Client_Local (EvRecv c)]"
  have quiet: "quiet_for {c} ?ms" using quiet_for_append [OF moving_quiet [OF m(2)] recv_quiet] by simp
  have reach: "exec (nstep hs) (nstart w) (ls @ ?ms) m" by (rule exec_trans [OF m(1) Cons.prems(1)])
  have few: "few_calls (ls @ ?ms)" using Cons.prems(2) quiet by (simp add: few_calls_def quiet_for_def)
  have fit: "messages_fit encode_to_vec hs m" using Cons.prems(4) by (simp add: messages_fit_def m(4))
  have rest: "\<forall>d \<in> set cs. \<exists>i g. calls (n_client m) d = Awaiting i g"
    using Cons.prems(5,6) quiet_keeps [OF m(1) quiet] by fastforce
  from Cons.IH [OF reach few m(5) fit rest] Cons.prems(6) obtain ms' m' where
    m': "exec (nstep hs) m ms' m'" "quiet_for (set cs) ms'" "\<forall>c \<in> set cs. \<exists>r. calls (n_client m') c = Finished r"
    by auto
  have "calls (n_client m') c = Finished r"
    using quiet_keeps [OF m'(1,2), of c] Cons.prems(6) m(3) by simp
  with m' exec_trans [OF m'(1) m(1)] quiet_for_append [OF quiet m'(2)] show ?case
    by (intro exI [of _ "?ms @ ms'"] exI [of _ m']) auto
qed

end

section \<open>Making the calls\<close>

fun submit_all :: "nat \<Rightarrow> (string \<times> bytes) list \<Rightarrow> event list" where
  "submit_all c [] = []"
| "submit_all c ((m, p) # tbl) = one_call c m p @ submit_all (Suc c) tbl"

text \<open>The state in which the first \<open>k\<close> calls of a table have been queued.\<close>

definition submitted :: "(string \<times> bytes) list \<Rightarrow> nat \<Rightarrow> 'x client \<Rightarrow> bool" where
  "submitted tbl k s \<longleftrightarrow> \<not> token s \<and> alive s \<and> writer s = WIdle \<and> reader s = RIdle \<and> length (outbound s) = k
     \<and> (\<forall>c < k. \<exists>i g. calls s c = Awaiting i g) \<and> (\<forall>c \<ge> k. calls s c = NotStarted)
     \<and> (\<forall>c q. built s c = Some q \<longrightarrow> c < k \<and> tbl ! c = (rq_method q, rq_payload q))"

lemma submit_one:
  assumes "submitted tbl k s" "tbl ! k = (m, p)" "k < CLIENT_WRITER_CHANNEL_CAPACITY"
  shows "\<exists>t. client_run (one_call k m p) s = Some t \<and> submitted tbl (Suc k) t"
proof -
  obtain t where t: "client_run (one_call k m p) s = Some t" "token t = token s" "alive t = alive s" "writer t = writer s"
    "reader t = reader s" "length (outbound t) = Suc k" "\<exists>i g. calls t = (calls s)(k := Awaiting i g)"
    "\<exists>i. built t = (built s)(k \<mapsto> \<lparr>rq_id = i, rq_method = m, rq_payload = p\<rparr>)"
    using assms(1,3) by (auto simp: one_call_def submitted_def call_op_defs pm_insert_def)
  from t(7,8) obtain i g i' where new: "calls t = (calls s)(k := Awaiting i g)"
    "built t = (built s)(k \<mapsto> \<lparr>rq_id = i', rq_method = m, rq_payload = p\<rparr>)" by blast
  have "submitted tbl (Suc k) t"
    unfolding submitted_def
  proof (intro conjI allI impI)
    fix c assume "c < Suc k"
    with assms(1) show "\<exists>i g. calls t c = Awaiting i g" by (auto simp: submitted_def new less_Suc_eq)
  next
    fix c assume "Suc k \<le> c"
    with assms(1) show "calls t c = NotStarted" by (simp add: submitted_def new)
  next
    fix c q assume "built t c = Some q"
    with assms(1,2) show "c < Suc k" "tbl ! c = (rq_method q, rq_payload q)"
      by (auto simp: submitted_def new less_Suc_eq split: if_splits)
  qed (use assms(1) t in \<open>simp_all add: submitted_def\<close>)
  with t(1) show ?thesis by blast
qed

lemma submit_table:
  "submitted tbl k s \<Longrightarrow> drop k tbl = ts \<Longrightarrow> k + length ts \<le> CLIENT_WRITER_CHANNEL_CAPACITY \<Longrightarrow>
   \<exists>t. client_run (submit_all k ts) s = Some t \<and> submitted tbl (k + length ts) t"
proof (induction ts arbitrary: k s)
  case (Cons mp ts)
  obtain m p where mp: "mp = (m, p)" by (cases mp)
  from Cons.prems(2) mp have k: "tbl ! k = (m, p)" "drop (Suc k) tbl = ts"
    by (metis nth_via_drop) (metis Cons.prems(2) drop_Suc tl_drop list.sel(3))
  from submit_one [OF Cons.prems(1) k(1)] Cons.prems(3) obtain u where
    u: "client_run (one_call k m p) s = Some u" "submitted tbl (Suc k) u" by auto
  from Cons.IH [OF u(2) k(2)] Cons.prems(3) show ?case by (auto simp: mp run_append u(1))
qed simp

lemma submit_all_events:
  "e \<in> set (submit_all k tbl) \<Longrightarrow> client_local e \<and> \<not> disconnects e
     \<and> (\<forall>c m p. e = EvCall c m p \<longrightarrow> k \<le> c \<and> c < k + length tbl \<and> tbl ! (c - k) = (m, p))"
proof (induction k tbl rule: submit_all.induct)
  case (2 k m p tbl)
  have "e \<in> set (one_call k m p) \<or> e \<in> set (submit_all (Suc k) tbl)" using "2.prems" by simp
  then show ?case
  proof
    assume "e \<in> set (submit_all (Suc k) tbl)"
    from "2.IH" [OF this] show ?thesis by (auto simp: nth_Cons' Suc_le_eq)
  qed (auto simp: one_call_def)
qed simp

lemma submit_all_numbered: "length (numbered (submit_all k tbl)) = length tbl"
  by (induction k tbl rule: submit_all.induct) (simp_all add: one_call_def)

lemma client_side_local: "client_side (map Client_Local es) = es"
  by (induction es) simp_all

lemma submitted_start: "submitted tbl 0 from_stream"
  by (simp add: submitted_def from_stream_def)

text \<open>
  So a program whose calls fit in the client's queue and in frames has an execution, over a connection
  that lasts, that makes exactly these calls and in which all of them return.
\<close>

lemma table_completes:
  assumes codec: "envelope_codec enc dec new_codec fdec fenc max_frame held"
    and fits: "\<forall>(m, p) \<in> set tbl. \<forall>i. framed enc (Request \<lparr>rq_id = i, rq_method = m, rq_payload = p\<rparr>)
      \<and> (\<forall>v. framed enc (fst (dispatch hs \<lparr>rq_id = i, rq_method = m, rq_payload = p\<rparr> v)))"
    and few: "length tbl \<le> CLIENT_WRITER_CHANNEL_CAPACITY"
  shows "\<exists>ls n. exec (net_step enc dec fdec fenc hs) (net_start new_codec w) ls (n :: ('x, 's, 'w) net) \<and> few_calls ls
     \<and> lasting ls \<and> made_calls tbl ls
     \<and> (\<forall>c < length tbl. \<exists>r. calls (n_client n) c = Finished r) \<and> (\<forall>c \<ge> length tbl. calls (n_client n) c = NotStarted)"
proof -
  let ?ls = "map Client_Local (submit_all 0 tbl)" and ?s = "net_start new_codec w :: ('x, 's, 'w) net"
  obtain t :: "'x client" where t: "client_run (submit_all 0 tbl) from_stream = Some t" "submitted tbl (length tbl) t"
    using submit_table [OF submitted_start, of tbl tbl] few by auto
  let ?n = "?s\<lparr>n_client := t\<rparr>"
  have n: "exec (net_step enc dec fdec fenc hs) ?s ?ls ?n"
    by (rule local_run_exec) (use t(1) submit_all_events in \<open>auto simp: net_start_def\<close>)
  have calls: "few_calls ?ls" using few
    by (simp add: few_calls_def client_side_local submit_all_numbered CLIENT_WRITER_CHANNEL_CAPACITY_def)
  have healthy: "healthy ?n" using t(2) by (simp add: healthy_def net_start_def open_conn_def submitted_def)
  have "messages_fit enc hs ?n"
    using t(2) fits unfolding messages_fit_def submitted_def by simp (metis (mono_tags, lifting) case_prodD nth_mem request_data.surjective old.unit.exhaust)
  moreover have "\<forall>c \<in> set [0..<length tbl]. \<exists>i g. calls (n_client ?n) c = Awaiting i g"
    using t(2) by (simp add: submitted_def)
  ultimately obtain ms m where m: "exec (net_step enc dec fdec fenc hs) ?n ms m" "quiet_for {0..<length tbl} ms"
      "\<forall>c \<in> {0..<length tbl}. \<exists>r. calls (n_client m) c = Finished r"
    using envelope_codec.all_complete [OF codec n calls healthy, of "[0..<length tbl]"] by auto
  have "calls (n_client m) c = NotStarted" if "length tbl \<le> c" for c
    using quiet_keeps [OF m(1,2), of c] t(2) that by (simp add: submitted_def)
  moreover have "few_calls (?ls @ ms)" using calls m(2) by (simp add: few_calls_def quiet_for_def)
  moreover have "lasting (?ls @ ms)" "made_calls tbl (?ls @ ms)"
    using m(2) submit_all_events [of _ 0 tbl]
    by (fastforce simp: lasting_def made_calls_def quiet_for_def client_side_local)+
  ultimately show ?thesis using exec_trans [OF m(1) n] m(3) by (intro exI [of _ "?ls @ ms"] exI [of _ m]) auto
qed

text \<open>A call that is not in the table is never started; its future may be dropped.\<close>

lemma step_uncalled:
  "client_step e s = Some t \<Longrightarrow> calls s c \<in> {NotStarted, Dropped} \<Longrightarrow> \<forall>m p. e \<noteq> EvCall c m p \<Longrightarrow>
   calls t c \<in> {NotStarted, Dropped}"
  by (cases e) (auto simp: client_op_defs split: client_op_splits)

lemma run_uncalled:
  "client_run es from_stream = Some s \<Longrightarrow> \<forall>m p. EvCall c m p \<notin> set es \<Longrightarrow> calls s c \<in> {NotStarted, Dropped}"
proof (induction es arbitrary: s rule: rev_induct)
  case Nil
  then show ?case by (auto simp: from_stream_def)
next
  case (snoc e es)
  from snoc.prems(1) obtain u where u: "client_run es from_stream = Some u" "client_step e u = Some s" by (rule run_snocE)
  with snoc show ?case by (intro step_uncalled [OF u(2)]) auto
qed

lemma finished_table_idle:
  assumes "exec (net_step enc dec fdec fenc hs) (net_start new_codec w) ls n"
    and "\<And>c m p. EvCall c m p \<in> set (client_side ls) \<Longrightarrow> c < k"
    and "\<forall>c < k. \<exists>r. calls (n_client n) c = Finished r"
  shows "pending_count (n_client n) = 0"
proof (rule idle_no_pending [OF assms(1)], rule allI)
  fix c show "call_over (calls (n_client n) c)"
  proof (cases "c < k")
    case False
    with assms(2) have "\<forall>m p. EvCall c m p \<notin> set (client_side ls)" by blast
    from run_uncalled [OF net_exec_client [OF assms(1)] this] show ?thesis by auto
  qed (use assms(3) in auto)
qed

section \<open>How the main functions end\<close>

text \<open>
  The error a main function returns: of the sockets, of a call, or of a task that panicked
  (\<open>JoinError\<close>). Its setup binds the listener, reads its address, and connects.
\<close>

datatype 'x main_error = Io_Err 'x | Rpc_Err "'x patina_error" | Join_Err

definition main_setup :: "'x + 'listener \<Rightarrow> 'x + 'addr \<Rightarrow> 'x patina_error + 'c \<Rightarrow> 'x main_error + 'c" where
  "main_setup bound addr client =
     and_then (map_err Io_Err bound) (\<lambda>listener. and_then (map_err Io_Err addr) (\<lambda>_. map_err Rpc_Err client))"

text \<open>The loop of \<open>handle.await??\<close>: the tasks in order, each a panic (\<open>None\<close>) or a result.\<close>

fun join_all :: "('x patina_error + 'a) option list \<Rightarrow> 'x main_error + 'a list" where
  "join_all [] = Inr []"
| "join_all (None # tasks) = Inl Join_Err"
| "join_all (Some (Inl e) # tasks) = Inl (Rpc_Err e)"
| "join_all (Some (Inr a) # tasks) = and_then (join_all tasks) (\<lambda>as. Inr (a # as))"

lemma join_all_Inr: "join_all (map (\<lambda>a. Some (Inr a)) as) = Inr as"
  by (induction as) simp_all

section \<open>Messages that fit, for the concrete codec\<close>

lemma ref_framed:
  "length m + length p \<le> 2 ^ 20 \<Longrightarrow> framed ref_encode (Request \<lparr>rq_id = i, rq_method = m, rq_payload = p\<rparr>)"
  "length p \<le> 2 ^ 20 \<Longrightarrow> framed ref_encode (Response \<lparr>rs_id = i, rs_payload = p\<rparr>)"
  "length t \<le> 2 ^ 20 \<Longrightarrow> framed ref_encode (Error \<lparr>er_id = i, er_code = c, er_message = t\<rparr>)"
  using length_put_varint [of "unat i"] length_put_varint [of "length m"] length_put_varint [of "length p"]
    length_put_varint [of "unat c"] length_put_varint [of "length t"]
  by (simp_all add: framed_def ref_encode_def put_vec_def DEFAULT_MAX_FRAME_LEN_def)

text \<open>So the calls of a table fit when their methods, payloads and results are of at most a megabyte.\<close>

lemma dispatch_framed:
  assumes "\<And>v. case hs m of None \<Rightarrow> True | Some h \<Rightarrow> (case fst (h v p) of Inr bs \<Rightarrow> length bs \<le> 2 ^ 20 | Inl e \<Rightarrow> length (he_message e) \<le> 2 ^ 20)"
    and "length m \<le> 2 ^ 19"
  shows "framed ref_encode (fst (dispatch hs \<lparr>rq_id = i, rq_method = m, rq_payload = p\<rparr> v))"
  using assms(1) [of v] assms(2)
  by (auto simp: dispatch_def intro!: ref_framed split: option.splits prod.splits sum.splits)

end
