(* ===== verification/Rust_Values.thy ===== *)
theory Rust_Values
  imports Program_Live
begin

text \<open>
  The values of the primitive types that the example and the tests of generated services use, with a
  serialiser that keeps the laws of typed values; and what a call of a generated client gives, over any
  serialiser, on a connection that serves the implementation.
\<close>

section \<open>Values and their types\<close>

type_synonym i32 = "32 word"
type_synonym i64 = "64 word"

datatype prim_val = I32 i32 | I64 i64 | Text string

definition i32_type :: ty where
  "i32_type = Type_Path None [Path_Segment ''i32'' Args_None]"

definition i64_type :: ty where
  "i64_type = Type_Path None [Path_Segment ''i64'' Args_None]"

definition string_type :: ty where
  "string_type = Type_Path None [Path_Segment ''String'' Args_None]"

fun prim_base :: "prim_val \<Rightarrow> ty \<Rightarrow> bool" where
  "prim_base (I32 k) t = (t = i32_type)"
| "prim_base (I64 n) t = (t = i64_type)"
| "prim_base (Text s) t = (t = string_type)"

section \<open>A serialiser for them\<close>

fun prim_put :: "prim_val rust_val \<Rightarrow> bytes" and prim_put_list :: "prim_val rust_val list \<Rightarrow> bytes" where
  "prim_put (Val (I32 k)) = le_bytes 4 (unat k)"
| "prim_put (Val (I64 n)) = le_bytes 8 (unat n)"
| "prim_put (Val (Text s)) = put_vec (map byte_of_char s)"
| "prim_put (Tuple vs) = prim_put_list vs"
| "prim_put_list [] = []"
| "prim_put_list (v # vs) = prim_put v @ prim_put_list vs"

fun prim_fits :: "prim_val rust_val \<Rightarrow> bool" where
  "prim_fits (Val (I32 k)) = True"
| "prim_fits (Val (I64 n)) = True"
| "prim_fits (Val (Text s)) = (length s < 256 ^ 8)"
| "prim_fits (Tuple vs) = list_all prim_fits vs"

fun prim_get :: "ty \<Rightarrow> bytes \<Rightarrow> string + (prim_val rust_val \<times> bytes)"
  and prim_get_list :: "ty list \<Rightarrow> bytes \<Rightarrow> string + (prim_val rust_val list \<times> bytes)" where
  "prim_get (Type_Tuple ts) bs = and_then (prim_get_list ts bs) (\<lambda>(vs, r). Inr (Tuple vs, r))"
| "prim_get t bs =
     (if t = i32_type then and_then (take_bytes 4 bs) (\<lambda>(v, r). Inr (Val (I32 (word_of_nat (le_value v))), r))
      else if t = i64_type then and_then (take_bytes 8 bs) (\<lambda>(v, r). Inr (Val (I64 (word_of_nat (le_value v))), r))
      else if t = string_type then and_then (get_string bs) (\<lambda>(s, r). Inr (Val (Text s), r))
      else Inl ''unsupported type'')"
| "prim_get_list [] bs = Inr ([], bs)"
| "prim_get_list (t # ts) bs =
     and_then (prim_get t bs) (\<lambda>(v, r). and_then (prim_get_list ts r) (\<lambda>(vs, r'). Inr (v # vs, r')))"

definition prim_lib :: "(prim_val, string) serde_lib" where
  "prim_lib =
     \<lparr>to_vec = (\<lambda>v. if prim_fits v then Inr (prim_put v) else Inl ''length overflow''),
      from_slice = (\<lambda>t bs. and_then (prim_get t bs) (\<lambda>(v, r). Inr (v, length bs - length r))),
      display = (\<lambda>e. e)\<rparr>"

lemma prim_types [simp]:
  "i64_type \<noteq> string_type" "i32_type \<noteq> string_type" "i32_type \<noteq> i64_type" "i64_type \<noteq> i32_type" "string_type \<noteq> i32_type"
  "string_type \<noteq> i64_type" "i32_type \<noteq> Type_Tuple ts" "i64_type \<noteq> Type_Tuple ts" "string_type \<noteq> Type_Tuple ts"
  "Type_Tuple ts \<noteq> i32_type" "Type_Tuple ts \<noteq> i64_type" "Type_Tuple ts \<noteq> string_type"
  by (simp_all add: i32_type_def i64_type_def string_type_def)

lemma prim_get_prim: "t = i32_type \<or> t = i64_type \<or> t = string_type \<Longrightarrow> prim_get t bs =
    (if t = i32_type then and_then (take_bytes 4 bs) (\<lambda>(v, r). Inr (Val (I32 (word_of_nat (le_value v))), r))
     else if t = i64_type then and_then (take_bytes 8 bs) (\<lambda>(v, r). Inr (Val (I64 (word_of_nat (le_value v))), r))
     else and_then (get_string bs) (\<lambda>(s, r). Inr (Val (Text s), r)))"
  by (cases t) auto

lemma prim_get_i32: "prim_get i32_type (le_bytes 4 (unat (k :: i32)) @ rest) = Inr (Val (I32 k), rest)"
  using le_value_le_bytes [of "unat k" 4] unat_u32_less [of k] by (simp add: prim_get_prim)

lemma prim_get_i64: "prim_get i64_type (le_bytes 8 (unat (n :: i64)) @ rest) = Inr (Val (I64 n), rest)"
  using le_value_le_bytes [of "unat n" 8] unat_u64_less [of n] by (simp add: prim_get_prim)

lemma prim_get_text:
  "length s < 256 ^ 8 \<Longrightarrow> prim_get string_type (put_vec (map byte_of_char s) @ rest) = Inr (Val (Text s), rest)"
  by (simp add: prim_get_prim get_string_put)

lemma prim_get_put:
  "typed prim_base v t \<Longrightarrow> prim_fits v \<Longrightarrow> prim_get t (prim_put v @ rest) = Inr (v, rest)"
  "typed_list prim_base vs ts \<Longrightarrow> list_all prim_fits vs \<Longrightarrow> prim_get_list ts (prim_put_list vs @ rest) = Inr (vs, rest)"
proof (induction v and vs arbitrary: t rest and ts rest rule: prim_put_prim_put_list.induct)
  case (4 vs)
  then show ?case by (cases t) simp_all
next
  case (6 v vs)
  then show ?case by (cases ts) simp_all
qed (simp_all add: prim_get_i32 prim_get_i64 prim_get_text)

lemma prim_get_typed:
  "prim_get t bs = Inr (v, rest) \<Longrightarrow> typed prim_base v t"
  "prim_get_list ts bs = Inr (vs, rest) \<Longrightarrow> typed_list prim_base vs ts"
  by (induction t bs and ts bs arbitrary: v rest and vs rest rule: prim_get_prim_get_list.induct)
    (auto simp: and_then_Inr_iff split: if_splits)

interpretation prim_bincode: bincode "typed prim_base" "to_vec prim_lib" "from_slice prim_lib"
  by unfold_locales (auto simp: prim_lib_def prim_get_put split: if_splits)

interpretation prim_payload: payload_codec prim_base prim_lib
proof unfold_locales
  show "from_slice prim_lib t bs = Inr (v, n) \<Longrightarrow> typed prim_base v t" for t bs v n
    by (auto simp: prim_lib_def and_then_Inr_iff dest: prim_get_typed)
  show "\<not> prim_base b (Type_Tuple ts)" for b ts
    by (cases b) simp_all
qed

section \<open>Calls through a generated client\<close>

lemma handle_exchange: "handle hs m p w = exchange hs i m p w"
  by (cases "dispatch hs \<lparr>rq_id = i, rq_method = m, rq_payload = p\<rparr> w")
    (use handle_dispatch [of hs "\<lparr>rq_id = i, rq_method = m, rq_payload = p\<rparr>" w] in \<open>auto simp: exchange_def\<close>)

text \<open>What a typed call returns, for the reply of a server that serves the implementation.\<close>

lemma typed_call_result:
  assumes gen: "generated_server base L service" and m: "m \<in> set (st_methods service)"
    and args: "typed_list base args (map arg_ty (m_args m))"
    and payload: "proxy_payload L (expand_client_fn service m) args = (Inr p :: 'z patina_error + bytes)"
    and encodes: "result_encodes base L m (fst (impl (m_ident m) args w))"
  shows "proxy_result L (expand_client_fn service m)
      (fst (handle (served L disp impl service b) (cf_wire_name (expand_client_fn service m)) p w))
    = (case fst (impl (m_ident m) args w) of Inr v \<Rightarrow> Inr v | Inl e \<Rightarrow> Inl (remote_error disp e :: 'y patina_error))"
proof -
  have len: "length args = length (m_args m)" using typed_list_length [OF args] by simp
  have p: "to_vec L (Tuple args) = Inr p"
    using payload generated_server.distinct_args [OF gen m]
    by (simp add: proxy_payload_expanded [OF _ len] encode_def map_err_def split: sum.splits)
  obtain r :: "'y patina_error + bytes" and w' where
    r: "exchange (served L disp impl service b) 0 (wire_method_name service m) p w = (r, w')"
    by (rule prod.exhaust)
  from typed_exchange [OF gen m args p encodes r] show ?thesis
    by (simp add: handle_exchange [where i = 0] expand_client_fn_def r proxy_result_def)
qed

text \<open>Calls with short arguments and results travel in frames.\<close>

definition short_call ::
  "('x \<Rightarrow> string) \<Rightarrow> (prim_val, 'x, 'w) trait_impl \<Rightarrow> service_trait \<Rightarrow> rpc_method \<Rightarrow> prim_val rust_val list \<Rightarrow> bool" where
  "short_call disp impl service m args \<longleftrightarrow>
     m \<in> set (st_methods service) \<and> typed_list prim_base args (map arg_ty (m_args m))
     \<and> prim_fits (Tuple args) \<and> length (prim_put (Tuple args)) \<le> 100 \<and> length (wire_method_name service m) \<le> 100
     \<and> (\<forall>w. case fst (impl (m_ident m) args w) of
          Inr v \<Rightarrow> prim_fits v \<and> length (prim_put v) \<le> 100
        | Inl e \<Rightarrow> length (he_message (handler_error_from_patina disp e)) \<le> 100)"

lemma short_callD:
  assumes "short_call disp impl service m args"
  shows "m \<in> set (st_methods service)" "typed_list prim_base args (map arg_ty (m_args m))"
    "to_vec prim_lib (Tuple args) = Inr (prim_put (Tuple args))" "length (prim_put (Tuple args)) \<le> 100"
    "length (wire_method_name service m) \<le> 100" "length args = length (m_args m)"
    "case fst (impl (m_ident m) args w) of Inr v \<Rightarrow> prim_fits v \<and> length (prim_put v) \<le> 100
       | Inl e \<Rightarrow> length (he_message (handler_error_from_patina disp e)) \<le> 100"
  using assms typed_list_length [of prim_base args "map arg_ty (m_args m)"] unfolding short_call_def by (auto simp: prim_lib_def)

lemma short_call_framed:
  fixes disp :: "'x \<Rightarrow> string"
  assumes gen: "generated_server prim_base prim_lib service" and call: "short_call disp impl service m args"
  shows "framed ref_encode (Request \<lparr>rq_id = i, rq_method = wire_method_name service m, rq_payload = prim_put (Tuple args)\<rparr>)"
    and "framed ref_encode (fst (dispatch (served prim_lib disp impl service b)
      \<lparr>rq_id = i, rq_method = wire_method_name service m, rq_payload = prim_put (Tuple args)\<rparr> v))"
proof -
  note C = short_callD [OF call]
  show "framed ref_encode (Request \<lparr>rq_id = i, rq_method = wire_method_name service m, rq_payload = prim_put (Tuple args)\<rparr>)"
    using C(4,5) by (intro ref_framed(1)) simp
  have decoded: "decode prim_lib (Type_Tuple (map arg_ty (m_args m))) (prim_put (Tuple args))
      = (Inr (Tuple args) :: 'x patina_error + prim_val rust_val)"
    by (rule prim_payload.tuple_roundtrip [OF C(2,3)])
  have serve: "serve_method prim_lib disp impl m v (prim_put (Tuple args)) =
      (case impl (m_ident m) args v of
         (Inl e, w') \<Rightarrow> (Inl (handler_error_from_patina disp e), w')
       | (Inr ret, w') \<Rightarrow> (map_err (handler_error_from_patina disp) (encode prim_lib ret), w'))" for v
    unfolding serve_method_def decoded by simp
  have "case fst (serve_method prim_lib disp impl m v (prim_put (Tuple args))) of
      Inr bs \<Rightarrow> length bs \<le> 2 ^ 20 | Inl e \<Rightarrow> length (he_message e) \<le> 2 ^ 20" for v
  proof (cases "impl (m_ident m) args v")
    case (Pair r w)
    with C(7) [of v] show ?thesis
      unfolding serve by (cases r) (simp_all add: encode_def prim_lib_def)
  qed
  then show "framed ref_encode (fst (dispatch (served prim_lib disp impl service b)
      \<lparr>rq_id = i, rq_method = wire_method_name service m, rq_payload = prim_put (Tuple args)\<rparr> v))"
    using C(5) by (intro dispatch_framed) (simp_all add: served_method [OF gen C(1)] del: prim_put.simps)
qed

lemma short_call_payload:
  assumes gen: "generated_server prim_base prim_lib service" and call: "short_call disp impl service m args"
  shows "proxy_payload prim_lib (expand_client_fn service m) args = (Inr (prim_put (Tuple args)) :: 'x patina_error + bytes)"
proof -
  note C = short_callD [OF call]
  from C(3,6) show ?thesis
    using generated_server.distinct_args [OF gen C(1)] by (simp add: proxy_payload_expanded encode_def)
qed

end
