(* ===== verification/Shared_World.thy ===== *)
theory Shared_World
  imports Network_Refines
begin

text \<open>
  One connection of a server that others use too. The handlers are shared (\<open>Server\<close> holds them in an
  \<open>Arc\<close>), so between two steps of this connection the state of the service may change. The handlers
  \<open>foreseen hs\<close> take that state from a list of states fixed in advance: with them, a connection among
  others is a connection on its own, and everything proved for one connection applies to it.
\<close>

section \<open>Handlers that find the states they were told\<close>

text \<open>
  The state is the one this connection left behind, with those in which its coming executions will
  find the service; once the list is used up, nobody else interferes.
\<close>

type_synonym 'w foresight = "'w \<times> 'w list"

fun foreseen_state :: "'w foresight \<Rightarrow> 'w" where
  "foreseen_state (v, []) = v"
| "foreseen_state (v, u # us) = u"

definition foreseen :: "(string \<rightharpoonup> 'w handler) \<Rightarrow> string \<rightharpoonup> 'w foresight handler" where
  "foreseen hs m =
     map_option (\<lambda>h f p. case h (foreseen_state f) p of (r, w') \<Rightarrow> (r, (w', tl (snd f)))) (hs m)"

lemma dispatch_foreseen:
  "dispatch (foreseen hs) q f =
     (case dispatch hs q (foreseen_state f) of (e, w') \<Rightarrow>
        (e, if hs (rq_method q) = None then f else (w', tl (snd f))))"
  by (simp add: dispatch_def foreseen_def split: option.splits prod.splits sum.splits)

lemma dispatch_unregistered: "hs (rq_method q) = None \<Longrightarrow> snd (dispatch hs q w) = w"
  by (simp add: dispatch_def)

lemma handle_foreseen:
  "handle (foreseen hs) m p f =
     (case handle hs m p (foreseen_state f) of (r, w') \<Rightarrow>
        (r, if hs m = None then f else (w', tl (snd f))))"
  by (simp add: handle_def foreseen_def split: option.splits prod.splits sum.splits)

section \<open>Changing the service's state of a connection\<close>

definition conn_with :: "'v \<Rightarrow> 'w conn \<Rightarrow> 'v conn" where
  "conn_with v s =
     \<lparr>dispatcher = dispatcher s, workers = workers s, queue = queue s, conn_writer = conn_writer s,
      written = written s, world = v, received = received s, answered = answered s,
      discarded = discarded s, panicked = panicked s\<rparr>"

definition net_with :: "'v \<Rightarrow> ('x, 's, 'w) net \<Rightarrow> ('x, 's, 'v) net" where
  "net_with v n =
     \<lparr>n_client = n_client n, n_server = conn_with v (n_server n), n_ccodec = n_ccodec n,
      n_scodec = n_scodec n, n_up = n_up n, n_down = n_down n, n_log = n_log n\<rparr>"

lemma conn_with_simps [simp]:
  "dispatcher (conn_with v s) = dispatcher s" "workers (conn_with v s) = workers s"
  "queue (conn_with v s) = queue s" "conn_writer (conn_with v s) = conn_writer s"
  "written (conn_with v s) = written s" "world (conn_with v s) = v" "received (conn_with v s) = received s"
  "answered (conn_with v s) = answered s" "discarded (conn_with v s) = discarded s"
  "panicked (conn_with v s) = panicked s"
  "conn_with v (conn_with u s) = conn_with v s" "conn_with (world s) s = s"
  by (simp_all add: conn_with_def)

lemma net_with_simps [simp]:
  "n_client (net_with v n) = n_client n" "n_server (net_with v n) = conn_with v (n_server n)"
  "n_ccodec (net_with v n) = n_ccodec n" "n_scodec (net_with v n) = n_scodec n"
  "n_up (net_with v n) = n_up n" "n_down (net_with v n) = n_down n" "n_log (net_with v n) = n_log n"
  "net_with v (net_with u n) = net_with v n" "net_with (world (n_server n)) n = n"
  by (simp_all add: net_with_def)

lemma net_with_start: "net_with v (net_start new_codec w) = net_start new_codec v"
  by (simp add: net_with_def net_start_def conn_with_def open_conn_def)

lemma new_log_with [simp]:
  "new_log (conn_with v s) (conn_with u t) log log' = new_log s t log log'"
  "new_log (conn_with w s) t log log' = new_log s t log log'"
  by (simp_all add: new_log_def)

lemma close_writer_with: "close_writer (conn_with v s) = conn_with v (close_writer s)"
  by (simp add: close_writer_def conn_with_def)

section \<open>Steps under foresight\<close>

text \<open>
  A step that finds the service in the state \<open>w\<close> and leaves it in \<open>w'\<close>, as a relation between the
  foresight before and after: either it does not look at the service, or it uses up one entry.
\<close>

definition carried :: "'w \<Rightarrow> 'w \<Rightarrow> ('w foresight \<Rightarrow> 'w foresight \<Rightarrow> bool) \<Rightarrow> bool" where
  "carried w w' R \<longleftrightarrow>
     (w' = w \<and> (\<forall>f. R f f)) \<or> (\<forall>f. foreseen_state f = w \<longrightarrow> R f (w', tl (snd f)))"

lemma carried_mono: "carried w w' R \<Longrightarrow> (\<And>f g. R f g \<Longrightarrow> Q f g) \<Longrightarrow> carried w w' Q"
  unfolding carried_def by blast

lemma carriedD:
  assumes "carried w w' R" "foreseen_state f = w"
  shows "\<exists>g. R f g \<and> (g = f \<and> w' = w \<or> g = (w', tl (snd f)))"
  using assms unfolding carried_def by blast

definition spent :: "'w foresight \<Rightarrow> 'w conn \<Rightarrow> 'w foresight \<Rightarrow> bool" where
  "spent f t g \<longleftrightarrow> g = f \<and> world t = foreseen_state f \<or> g = (world t, tl (snd f))"

lemma conn_step_with:
  assumes "conn_step hs (conn_with w s) ev t" "ev \<noteq> Work"
  shows "world t = w \<and> conn_step gs (conn_with v s) ev (conn_with v t)"
  using assms(1)
proof cases
  case read_request
  then show ?thesis using conn_step.read_request [of "conn_with v s" gs] by (simp add: conn_with_def)
next
  case read_other
  then show ?thesis using conn_step.read_other [of "conn_with v s" _ gs] by simp
next
  case read_error
  then show ?thesis using conn_step.read_error [of "conn_with v s" gs] by (simp add: conn_with_def)
next
  case read_eof
  then show ?thesis using conn_step.read_eof [of "conn_with v s" gs] by (simp add: conn_with_def)
next
  case work
  with assms(2) show ?thesis by simp
next
  case panic
  then show ?thesis using conn_step.panic [of "conn_with v s" _ _ gs] by (simp add: conn_with_def)
next
  case enqueue
  then show ?thesis using conn_step.enqueue [of "conn_with v s" _ _ gs] by (simp add: conn_with_def)
next
  case discard
  then show ?thesis using conn_step.discard [of "conn_with v s" _ _ gs] by (simp add: conn_with_def)
next
  case writer_recv
  then show ?thesis using conn_step.writer_recv [of "conn_with v s" _ _ gs] by (simp add: conn_with_def)
next
  case writer_sent
  then show ?thesis using conn_step.writer_sent [of "conn_with v s" _ gs] by (simp add: conn_with_def)
next
  case writer_failed
  then show ?thesis using conn_step.writer_failed [of "conn_with v s" _ gs]
    by (simp add: conn_with_def close_writer_def)
next
  case writer_done
  then show ?thesis using conn_step.writer_done [of "conn_with v s" gs] by (simp add: conn_with_def)
next
  case conn_return
  then show ?thesis using conn_step.conn_return [of "conn_with v s" gs] by (simp add: conn_with_def)
next
  case abort
  then show ?thesis using conn_step.abort [of "conn_with v s" gs] by (simp add: conn_with_def close_writer_def)
qed

inductive_cases work_stepE: "conn_step hs s Work t"

lemma conn_step_foreseen:
  assumes "conn_step hs (conn_with w s) ev t"
  shows "carried w (world t) (\<lambda>f g. conn_step (foreseen hs) (conn_with f s) ev (conn_with g t))"
proof (cases "ev = Work")
  case True
  with assms obtain q W e w' where work: "workers s = add_mset (Running q) W" "dispatch hs q w = (e, w')"
    "t = conn_with w s\<lparr>workers := add_mset (Replying e) W, world := w', answered := add_mset (q, e) (answered s)\<rparr>"
    by (auto elim: work_stepE)
  have step: "conn_step (foreseen hs) (conn_with f s) Work (conn_with g t)"
    if "dispatch (foreseen hs) q f = (e, g)" for f g
    using conn_step.work [of "conn_with f s" q W "foreseen hs" e g] work(1) that by (simp add: work(3) conn_with_def)
  show ?thesis
  proof (cases "hs (rq_method q)")
    case None
    then have "w' = w" "dispatch (foreseen hs) q f = (e, f)" for f
      using work(2) by (auto simp: dispatch_def foreseen_def)
    with step work(3) True show ?thesis by (simp add: carried_def)
  next
    case (Some h)
    then have "dispatch (foreseen hs) q f = (e, (w', tl (snd f)))" if "foreseen_state f = w" for f
      using work(2) that by (simp add: dispatch_foreseen)
    with step work(3) True show ?thesis by (simp add: carried_def)
  qed
next
  case False
  from conn_step_with [OF assms False, of "foreseen hs"] show ?thesis unfolding carried_def by blast
qed

text \<open>And the other way round.\<close>

lemma conn_step_unforeseen:
  assumes "conn_step (foreseen hs) (conn_with f s) ev u"
  shows "\<exists>g t. spent f t g \<and> u = conn_with g t \<and> conn_step hs (conn_with (foreseen_state f) s) ev t"
proof (cases "ev = Work")
  case True
  with assms obtain q W e g where work: "workers s = add_mset (Running q) W"
    "dispatch (foreseen hs) q f = (e, g)"
    "u = conn_with f s\<lparr>workers := add_mset (Replying e) W, world := g, answered := add_mset (q, e) (answered s)\<rparr>"
    by (auto elim: work_stepE)
  obtain w' where w': "dispatch hs q (foreseen_state f) = (e, w')"
    "g = (if hs (rq_method q) = None then f else (w', tl (snd f)))"
    using work(2) by (auto simp: dispatch_foreseen split: prod.splits)
  let ?t = "conn_with (foreseen_state f) s\<lparr>workers := add_mset (Replying e) W, world := w', answered := add_mset (q, e) (answered s)\<rparr>"
  have "conn_step hs (conn_with (foreseen_state f) s) Work ?t"
    using conn_step.work [of "conn_with (foreseen_state f) s" q W hs e w'] work(1) w'(1) by simp
  moreover have "spent f ?t g"
    using dispatch_unregistered [of hs q "foreseen_state f"] w' by (auto simp: spent_def)
  moreover have "u = conn_with g ?t" by (simp add: work(3) conn_with_def)
  ultimately show ?thesis using True by blast
next
  case False
  from conn_step_with [OF assms False, of hs "foreseen_state f"] have
    "world u = f" "conn_step hs (conn_with (foreseen_state f) s) ev (conn_with (foreseen_state f) u)" by auto
  then show ?thesis
    by (intro exI [of _ f] exI [of _ "conn_with (foreseen_state f) u"]) (auto simp: spent_def)
qed

section \<open>The same for the whole connection\<close>

lemma net_step_with_client:
  assumes "net_step enc dec fdec fenc hs (net_with w n) l m" "server_side [l] = []"
  shows "world (n_server m) = w \<and> net_step enc dec fdec fenc gs (net_with v n) l (net_with v m)"
  using assms(1)
proof cases
  case client_local
  then show ?thesis using net_step.client_local [of _ "net_with v n" _ enc dec fdec fenc gs]
    by (simp add: net_with_def)
next
  case client_send
  then show ?thesis using net_step.client_send [of "net_with v n" _ enc fenc _ _ _ dec fdec gs]
    by (simp add: net_with_def)
next
  case client_send_failed
  then show ?thesis using net_step.client_send_failed [of "net_with v n" _ enc fenc _ _ _ _ _ dec fdec gs]
    by (simp add: net_with_def)
next
  case client_read
  then show ?thesis using net_step.client_read [of dec fdec "net_with v n" _ _ _ _ enc fenc gs]
    by (simp add: net_with_def)
next
  case client_wait
  then show ?thesis using net_step.client_wait [of dec fdec "net_with v n" _ _ enc fenc gs]
    by (simp add: net_with_def)
next
  case client_bad
  then show ?thesis using net_step.client_bad [of dec fdec "net_with v n" _ _ _ _ enc fenc gs]
    by (simp add: net_with_def)
next
  case server_wait
  then show ?thesis using net_step.server_wait [of dec fdec "net_with v n" _ _ enc fenc gs]
    by (simp add: net_with_def)
next
  case carry_up
  then show ?thesis using net_step.carry_up [of enc dec fdec fenc gs "net_with v n"]
    by (simp add: net_with_def)
next
  case carry_down
  then show ?thesis using net_step.carry_down [of enc dec fdec fenc gs "net_with v n"]
    by (simp add: net_with_def)
qed (use assms(2) in simp_all)

lemma net_step_foreseen:
  fixes n :: "('x, 's, 'w) net" and hs :: "string \<rightharpoonup> 'w handler"
  assumes "net_step enc dec fdec fenc hs (net_with w n) l m"
  shows "carried w (world (n_server m)) (\<lambda>f g. net_step enc dec fdec fenc (foreseen hs) (net_with f n) l (net_with g m))"
proof (cases "server_side [l] = []")
  case True
  from net_step_with_client [OF assms True, of "foreseen hs"] show ?thesis unfolding carried_def by blast
next
  case False
  from assms show ?thesis
  proof cases
    case (server_local ev t log)
    then have step: "conn_step hs (conn_with w (n_server n)) ev t" by simp
    have "carried w (world t) (\<lambda>f g. net_step enc dec fdec fenc (foreseen hs) (net_with f n) l (net_with g m))"
    proof (rule carried_mono [OF conn_step_foreseen [OF step]])
      fix f g assume "conn_step (foreseen hs) (conn_with f (n_server n)) ev (conn_with g t)"
      with server_local show "net_step enc dec fdec fenc (foreseen hs) (net_with f n) l (net_with g m)"
        using net_step.server_local [of ev "foreseen hs" "net_with f n" "conn_with g t" log enc dec fdec fenc]
        by (simp add: net_with_def)
    qed
    with server_local show ?thesis by simp
  next
    case (server_send e k frame t)
    then have step: "conn_step hs (conn_with w (n_server n)) WriterSent t" by simp
    have "carried w (world t) (\<lambda>f g. net_step enc dec fdec fenc (foreseen hs) (net_with f n) l (net_with g m))"
    proof (rule carried_mono [OF conn_step_foreseen [OF step]])
      fix f g assume "conn_step (foreseen hs) (conn_with f (n_server n)) WriterSent (conn_with g t)"
      with server_send show "net_step enc dec fdec fenc (foreseen hs) (net_with f n) l (net_with g m)"
        using net_step.server_send [of "net_with f n" e enc fenc k frame "foreseen hs" "conn_with g t" dec fdec]
        by (simp add: net_with_def)
    qed
    with server_send show ?thesis by simp
  next
    case (server_send_failed e r k frame bs t)
    then have step: "conn_step hs (conn_with w (n_server n)) WriterFailed t" by simp
    have "carried w (world t) (\<lambda>f g. net_step enc dec fdec fenc (foreseen hs) (net_with f n) l (net_with g m))"
    proof (rule carried_mono [OF conn_step_foreseen [OF step]])
      fix f g assume "conn_step (foreseen hs) (conn_with f (n_server n)) WriterFailed (conn_with g t)"
      with server_send_failed show "net_step enc dec fdec fenc (foreseen hs) (net_with f n) l (net_with g m)"
        using net_step.server_send_failed [of "net_with f n" e enc fenc r k frame bs "foreseen hs" "conn_with g t" dec fdec]
        by (simp add: net_with_def)
    qed
    with server_send_failed show ?thesis by simp
  next
    case (server_read e k buf t)
    then have step: "conn_step hs (conn_with w (n_server n)) (Frame e) t" by simp
    have "carried w (world t) (\<lambda>f g. net_step enc dec fdec fenc (foreseen hs) (net_with f n) l (net_with g m))"
    proof (rule carried_mono [OF conn_step_foreseen [OF step]])
      fix f g assume "conn_step (foreseen hs) (conn_with f (n_server n)) (Frame e) (conn_with g t)"
      with server_read show "net_step enc dec fdec fenc (foreseen hs) (net_with f n) l (net_with g m)"
        using net_step.server_read [of dec fdec "net_with f n" e k buf "foreseen hs" "conn_with g t" enc fenc]
        by (simp add: net_with_def)
    qed
    with server_read show ?thesis by simp
  next
    case (server_bad x k buf t)
    then have step: "conn_step hs (conn_with w (n_server n)) FrameError t" by simp
    have "carried w (world t) (\<lambda>f g. net_step enc dec fdec fenc (foreseen hs) (net_with f n) l (net_with g m))"
    proof (rule carried_mono [OF conn_step_foreseen [OF step]])
      fix f g assume "conn_step (foreseen hs) (conn_with f (n_server n)) FrameError (conn_with g t)"
      with server_bad show "net_step enc dec fdec fenc (foreseen hs) (net_with f n) l (net_with g m)"
        using net_step.server_bad [of dec fdec "net_with f n" x k buf "foreseen hs" "conn_with g t" enc fenc]
        by (simp add: net_with_def)
    qed
    with server_bad show ?thesis by simp
  qed (use False in simp_all)
qed

lemma net_step_unforeseen:
  fixes n :: "('x, 's, 'w) net" and hs :: "string \<rightharpoonup> 'w handler"
  assumes "net_step enc dec fdec fenc (foreseen hs) (net_with f n) l u"
  shows "\<exists>g m. spent f (n_server m) g \<and> u = net_with g m
    \<and> net_step enc dec fdec fenc hs (net_with (foreseen_state f) n) l m"
proof (cases "server_side [l] = []")
  case True
  from net_step_with_client [OF assms True, of hs "foreseen_state f"] have
    *: "world (n_server u) = f" "net_step enc dec fdec fenc hs (net_with (foreseen_state f) n) l (net_with (foreseen_state f) u)"
    by auto
  then have "net_with f u = u" by (metis net_with_simps(9))
  with * show ?thesis
    by (intro exI [of _ f] exI [of _ "net_with (foreseen_state f) u"]) (simp add: spent_def)
next
  case False
  let ?w = "foreseen_state f"
  from assms show ?thesis
  proof cases
    case (server_local ev u' log)
    from conn_step_unforeseen [of hs f "n_server n" ev u'] server_local(4) obtain g t where
      g: "spent f t g" "u' = conn_with g t" "conn_step hs (conn_with ?w (n_server n)) ev t" by auto
    with server_local show ?thesis
      using net_step.server_local [of ev hs "net_with ?w n" t log enc dec fdec fenc]
      by (intro exI [of _ g] exI [of _ "net_with ?w n\<lparr>n_server := t, n_log := log\<rparr>"]) (simp add: net_with_def)
  next
    case (server_send e k frame u')
    from conn_step_unforeseen [of hs f "n_server n" WriterSent u'] server_send(5) obtain g t where
      g: "spent f t g" "u' = conn_with g t" "conn_step hs (conn_with ?w (n_server n)) WriterSent t" by auto
    with server_send show ?thesis
      using net_step.server_send [of "net_with ?w n" e enc fenc k frame hs t dec fdec]
      by (intro exI [of _ g] exI [of _ "net_with ?w n\<lparr>n_server := t, n_scodec := k, n_down := pipe_push frame e (n_down n)\<rparr>"])
        (simp add: net_with_def)
  next
    case (server_send_failed e r k frame bs u')
    from conn_step_unforeseen [of hs f "n_server n" WriterFailed u'] server_send_failed(6) obtain g t where
      g: "spent f t g" "u' = conn_with g t" "conn_step hs (conn_with ?w (n_server n)) WriterFailed t" by auto
    with server_send_failed show ?thesis
      using net_step.server_send_failed [of "net_with ?w n" e enc fenc r k frame bs hs t dec fdec]
      by (intro exI [of _ g] exI [of _ "net_with ?w n\<lparr>n_server := t, n_scodec := k, n_down := pipe_tear bs (n_down n)\<rparr>"])
        (simp add: net_with_def)
  next
    case (server_read e k buf u')
    from conn_step_unforeseen [of hs f "n_server n" "Frame e" u'] server_read(4) obtain g t where
      g: "spent f t g" "u' = conn_with g t" "conn_step hs (conn_with ?w (n_server n)) (Frame e) t" by auto
    with server_read show ?thesis
      using net_step.server_read [of dec fdec "net_with ?w n" e k buf hs t enc fenc]
      by (intro exI [of _ g] exI [of _ "net_with ?w n\<lparr>n_server := t, n_scodec := k, n_up := pipe_pull buf e (n_up n)\<rparr>"])
        (simp add: net_with_def)
  next
    case (server_bad x k buf u')
    from conn_step_unforeseen [of hs f "n_server n" FrameError u'] server_bad(4) obtain g t where
      g: "spent f t g" "u' = conn_with g t" "conn_step hs (conn_with ?w (n_server n)) FrameError t" by auto
    with server_bad show ?thesis
      using net_step.server_bad [of dec fdec "net_with ?w n" x k buf hs t enc fenc]
      by (intro exI [of _ g] exI [of _ "net_with ?w n\<lparr>n_server := t, n_scodec := k, n_up := pipe_keep buf (n_up n)\<rparr>"])
        (simp add: net_with_def)
  qed (use False in simp_all)
qed

end
