(* ===== verification/Shared_Server.thy ===== *)
theory Shared_Server
  imports Shared_World
begin

text \<open>
  A server with any number of connections: the accept loop \<open>serve\<close> of
  \<^verbatim>\<open>crates/patina-rpc/src/server.rs\<close> with the connection tasks it spawns, the clients that connected,
  and the state of the service, which all handlers share through the \<open>Arc\<close> of the registry. A client
  is connected once the operating system has queued it; its server end takes no step before the loop
  has accepted it. When \<open>accept\<close> fails the loop returns, and the tasks it spawned go on.
\<close>

section \<open>State\<close>

datatype 'x accept_loop = Accepting | Serve_Returned "'x patina_error + unit"

record ('x, 's, 'w) host =
  h_loop :: "'x accept_loop"
  h_world :: 'w
  h_conns :: "nat \<rightharpoonup> ('x, 's, 'w) net"
  h_accepted :: "nat set"

definition host_start :: "'w \<Rightarrow> ('x, 's, 'w) host" where
  "host_start w = \<lparr>h_loop = Accepting, h_world = w, h_conns = Map.empty, h_accepted = {}\<rparr>"

section \<open>Steps\<close>

datatype 'x host_event = Connect nat | Accept nat | Accept_Failed 'x | On nat net_event

fun at_server :: "net_event \<Rightarrow> bool" where
  "at_server (Server_Local ev) = True"
| "at_server Server_Send = True"
| "at_server Server_Send_Failed = True"
| "at_server (Server_Read e) = True"
| "at_server Server_Wait = True"
| "at_server Server_Bad = True"
| "at_server _ = False"

inductive host_step ::
  "(envelope \<Rightarrow> 'x + bytes) \<Rightarrow> (bytes \<Rightarrow> 'x + (envelope \<times> nat)) \<Rightarrow> (nat \<Rightarrow> 's) \<Rightarrow>
   ('s \<Rightarrow> bytes \<Rightarrow> ('x + bytes option) \<times> 's \<times> bytes) \<Rightarrow>
   ('s \<Rightarrow> bytes \<Rightarrow> bytes \<Rightarrow> ('x + unit) \<times> 's \<times> bytes) \<Rightarrow> (string \<rightharpoonup> 'w handler) \<Rightarrow>
   ('x, 's, 'w) host \<Rightarrow> 'x host_event \<Rightarrow> ('x, 's, 'w) host \<Rightarrow> bool"
  for enc dec new_codec fdec fenc hs where
  host_connect: "h_conns s k = None \<Longrightarrow>
    host_step enc dec new_codec fdec fenc hs s (Connect k)
      (s\<lparr>h_conns := (h_conns s)(k \<mapsto> net_start new_codec (h_world s))\<rparr>)"
| host_accept: "h_loop s = Accepting \<Longrightarrow> k \<in> dom (h_conns s) \<Longrightarrow> k \<notin> h_accepted s \<Longrightarrow>
    host_step enc dec new_codec fdec fenc hs s (Accept k) (s\<lparr>h_accepted := insert k (h_accepted s)\<rparr>)"
| host_accept_failed: "h_loop s = Accepting \<Longrightarrow>
    host_step enc dec new_codec fdec fenc hs s (Accept_Failed x)
      (s\<lparr>h_loop := Serve_Returned (Inl (patina_from_io x))\<rparr>)"
| host_on: "h_conns s k = Some n \<Longrightarrow> at_server l \<longrightarrow> k \<in> h_accepted s \<Longrightarrow>
    net_step enc dec fdec fenc hs (net_with (h_world s) n) l m \<Longrightarrow>
    host_step enc dec new_codec fdec fenc hs s (On k l)
      (s\<lparr>h_world := world (n_server m), h_conns := (h_conns s)(k \<mapsto> m)\<rparr>)"

inductive_cases host_onE: "host_step enc dec new_codec fdec fenc hs s (On k l) t"

text \<open>The events of one connection.\<close>

fun on_conn :: "nat \<Rightarrow> 'x host_event list \<Rightarrow> net_event list" where
  "on_conn k [] = []"
| "on_conn k (On j l # ls) = (if j = k then l # on_conn k ls else on_conn k ls)"
| "on_conn k (_ # ls) = on_conn k ls"

lemma on_conn_append [simp]: "on_conn k (ls @ ms) = on_conn k ls @ on_conn k ms"
  by (induction k ls rule: on_conn.induct) simp_all

lemma on_conn_iff: "l \<in> set (on_conn k ls) \<longleftrightarrow> On k l \<in> set ls"
  by (induction k ls rule: on_conn.induct) auto

definition few_calls_each :: "'x host_event list \<Rightarrow> bool" where
  "few_calls_each ls \<longleftrightarrow> (\<forall>k. few_calls (on_conn k ls))"

lemma few_calls_eachD: "few_calls_each ls \<Longrightarrow> few_calls (on_conn k ls)"
  by (simp add: few_calls_each_def)

lemma few_calls_append: "few_calls (ls @ ms) \<Longrightarrow> few_calls ls"
  by (simp add: few_calls_def)

lemma few_calls_each_prefix: "few_calls_each (ls @ ms) \<Longrightarrow> few_calls_each ls"
  by (auto simp: few_calls_each_def dest: few_calls_append)

section \<open>Each connection on its own\<close>

lemma not_connected:
  "exec (host_step enc dec new_codec fdec fenc hs) (host_start w) ls s \<Longrightarrow> h_conns s k = None \<Longrightarrow> on_conn k ls = []"
proof (induction rule: exec.induct)
  case (exec_step ls s l t)
  from exec_step.hyps(2) exec_step.prems exec_step.IH show ?case
    by cases (auto split: if_splits)
qed simp

text \<open>
  The execution of a connection among others is its execution alone with foreseeing handlers, started
  with the states in which its executions find the service; \<open>rest\<close> is what they may still find.
\<close>

lemma conn_alone:
  assumes "exec (host_step enc dec new_codec fdec fenc hs) (host_start w) ls s"
    and "h_conns s k = Some n"
  shows "\<exists>f v. exec (net_step enc dec fdec fenc (foreseen hs)) (net_start new_codec f)
    (on_conn k ls) (net_with (v, rest) n)"
  using assms
proof (induction arbitrary: n rest rule: exec.induct)
  case exec_none
  then show ?case by (simp add: host_start_def)
next
  case (exec_step ls s l t)
  from exec_step.hyps(2) show ?case
  proof cases
    case (host_connect j)
    show ?thesis
    proof (cases "j = k")
      case True
      with host_connect exec_step.prems have n: "n = net_start new_codec (h_world s)" by simp
      have none: "on_conn k ls = []" using not_connected [OF exec_step.hyps(1)] host_connect(3) True by simp
      show ?thesis
        by (intro exI [of _ "(undefined, rest)"] exI [of _ undefined])
          (simp add: n host_connect(1) none net_with_start exec.exec_none)
    next
      case False
      with host_connect exec_step show ?thesis by simp
    qed
  next
    case host_accept
    with exec_step show ?thesis by simp
  next
    case host_accept_failed
    with exec_step show ?thesis by simp
  next
    case (host_on j n' l' m)
    show ?thesis
    proof (cases "j = k")
      case False
      with host_on exec_step show ?thesis by simp
    next
      case True
      with host_on exec_step.prems have m: "n = m" "h_conns s k = Some n'" by simp_all
      from net_step_foreseen [OF host_on(5)] have
        "\<exists>us. \<forall>v. \<exists>v'. net_step enc dec fdec fenc (foreseen hs) (net_with (v, us) n') l' (net_with (v', rest) m)"
        unfolding carried_def
      proof (elim disjE conjE)
        assume "\<forall>f. net_step enc dec fdec fenc (foreseen hs) (net_with f n') l' (net_with f m)"
        then show ?thesis by (intro exI [of _ rest]) blast
      next
        assume *: "\<forall>f. foreseen_state f = h_world s \<longrightarrow>
          net_step enc dec fdec fenc (foreseen hs) (net_with f n') l' (net_with (world (n_server m), tl (snd f)) m)"
        have "net_step enc dec fdec fenc (foreseen hs) (net_with (v, h_world s # rest) n') l'
            (net_with (world (n_server m), rest) m)" for v
          using * [rule_format, of "(v, h_world s # rest)"] by simp
        then show ?thesis by blast
      qed
      then obtain us where us: "\<forall>v. \<exists>v'. net_step enc dec fdec fenc (foreseen hs) (net_with (v, us) n') l' (net_with (v', rest) m)" ..
      from exec_step.IH [OF m(2)] obtain f v where
        f: "exec (net_step enc dec fdec fenc (foreseen hs)) (net_start new_codec f) (on_conn k ls) (net_with (v, us) n')"
        by blast
      from us obtain v' where "net_step enc dec fdec fenc (foreseen hs) (net_with (v, us) n') l' (net_with (v', rest) m)" by blast
      from exec.exec_step [OF f this] have
        "exec (net_step enc dec fdec fenc (foreseen hs)) (net_start new_codec f) (on_conn k (ls @ [l])) (net_with (v', rest) n)"
        by (simp add: host_on(1) True m(1))
      then show ?thesis by blast
    qed
  qed
qed

end
