(* ===== verification/Shared_Refines.thy ===== *)
theory Shared_Refines
  imports Shared_Server
begin

text \<open>
  A server with all its connections implements the specification of \<^verbatim>\<open>Rpc_Spec\<close>, with calls named by
  their connection and their number on it.
\<close>

definition host_view :: "('x, 's, 'w) host \<Rightarrow> (nat \<times> chan, 'x, 'w) rpc" where
  "host_view s =
     \<lparr>r_request = (\<lambda>(k, c). Option.bind (h_conns s k) (\<lambda>n. r_request (rpc_view n) c)),
      r_reply = (\<lambda>(k, c). Option.bind (h_conns s k) (\<lambda>n. r_reply (rpc_view n) c)),
      r_outcome = (\<lambda>(k, c). Option.bind (h_conns s k) (\<lambda>n. r_outcome (rpc_view n) c)),
      r_world = h_world s\<rparr>"

text \<open>One connection as a part of the specification's state.\<close>

definition part :: "nat \<Rightarrow> (chan, 'x, 'v) rpc \<Rightarrow> (nat \<times> chan, 'x, 'w) rpc \<Rightarrow> bool" where
  "part k a A \<longleftrightarrow>
     (\<forall>c. r_request A (k, c) = r_request a c \<and> r_reply A (k, c) = r_reply a c \<and> r_outcome A (k, c) = r_outcome a c)"

definition rest_same :: "nat \<Rightarrow> (nat \<times> chan, 'x, 'w) rpc \<Rightarrow> (nat \<times> chan, 'x, 'w) rpc \<Rightarrow> bool" where
  "rest_same k A B \<longleftrightarrow>
     (\<forall>j c. j \<noteq> k \<longrightarrow> r_request B (j, c) = r_request A (j, c) \<and> r_reply B (j, c) = r_reply A (j, c)
        \<and> r_outcome B (j, c) = r_outcome A (j, c))"

lemma part_view: "h_conns s k = Some n \<Longrightarrow> part k (rpc_view (net_with v n)) (host_view s)"
  by (simp add: part_def host_view_def rpc_view_def)

lemma part_eqI:
  assumes "part k a A" "part k b B" "rest_same k A B"
  shows "r_request b = r_request a \<Longrightarrow> r_request B = r_request A"
    "r_reply b = r_reply a \<Longrightarrow> r_reply B = r_reply A"
    "r_outcome b = r_outcome a \<Longrightarrow> r_outcome B = r_outcome A"
    "r_request b = (r_request a)(c \<mapsto> x) \<Longrightarrow> r_request B = (r_request A)((k, c) \<mapsto> x)"
    "r_reply b = (r_reply a)(c \<mapsto> y) \<Longrightarrow> r_reply B = (r_reply A)((k, c) \<mapsto> y)"
    "r_outcome b = (r_outcome a)(c \<mapsto> z) \<Longrightarrow> r_outcome B = (r_outcome A)((k, c) \<mapsto> z)"
proof -
  have *: "g = f" if "\<And>c. g (k, c) = f (k, c)" "\<And>j c. j \<noteq> k \<Longrightarrow> g (j, c) = f (j, c)" for f g :: "nat \<times> chan \<Rightarrow> 'z"
    using that by (metis ext surj_pair)
  note rules = assms [unfolded part_def rest_same_def]
  show "r_request b = r_request a \<Longrightarrow> r_request B = r_request A"
    "r_reply b = r_reply a \<Longrightarrow> r_reply B = r_reply A"
    "r_outcome b = r_outcome a \<Longrightarrow> r_outcome B = r_outcome A"
    "r_request b = (r_request a)(c \<mapsto> x) \<Longrightarrow> r_request B = (r_request A)((k, c) \<mapsto> x)"
    "r_reply b = (r_reply a)(c \<mapsto> y) \<Longrightarrow> r_reply B = (r_reply A)((k, c) \<mapsto> y)"
    "r_outcome b = (r_outcome a)(c \<mapsto> z) \<Longrightarrow> r_outcome B = (r_outcome A)((k, c) \<mapsto> z)"
    by (rule *; simp add: rules)+
qed

text \<open>
  A step of the specification for one connection is a step for all, in the state the service is in.
\<close>

lemma part_step:
  assumes step: "rpc_step (foreseen hs) a l b"
    and parts: "part k a A" "part k b B" "rest_same k A B"
    and found: "foreseen_state (r_world a) = r_world A" "snd (r_world a) \<noteq> []"
    and moved: "r_world b = r_world a \<and> r_world B = r_world A \<or> r_world b = (r_world B, tl (snd (r_world a)))"
  shows "\<exists>m. rpc_step hs A m B"
proof -
  have other: "tl us \<noteq> us" if "us \<noteq> []" for us :: "'w list" using that by (cases us) auto
  then have kept: "r_world B = r_world A" if "r_world b = r_world a"
    using moved found(2) that by (metis snd_conv)
  note eqs = part_eqI [OF parts]
  from step show ?thesis
  proof cases
    case (invoke c m p)
    have "r_request A (k, c) = None" using invoke(3) parts(1) by (simp add: part_def)
    moreover have "B = A\<lparr>r_request := (r_request A)((k, c) \<mapsto> (m, p))\<rparr>"
      using eqs(2-4) kept invoke(2) by (intro rpc.equality) simp_all
    ultimately show ?thesis using rpc_step.invoke by metis
  next
    case (execute c m p r f)
    obtain w' where w': "handle hs m p (r_world A) = (r, w')" "f = (if hs m = None then r_world a else (w', tl (snd (r_world a))))"
      using execute(5) found(1) by (auto simp: handle_foreseen split: prod.splits)
    have "r_world B = w'"
    proof (cases "hs m")
      case None
      then have "r_world b = r_world a" "w' = r_world A" using w' execute(2) by (auto simp: handle_def)
      with kept show ?thesis by simp
    next
      case (Some h)
      then have "r_world b = (w', tl (snd (r_world a)))" using w'(2) execute(2) by simp
      with moved other [OF found(2)] show ?thesis by (metis fst_conv snd_conv)
    qed
    then have "B = A\<lparr>r_reply := (r_reply A)((k, c) \<mapsto> r), r_world := w'\<rparr>"
      using eqs(1,3,5) execute(2) by (intro rpc.equality) simp_all
    moreover have "r_request A (k, c) = Some (m, p)" "r_reply A (k, c) = None"
      using execute(3,4) parts(1) by (simp_all add: part_def)
    ultimately show ?thesis using rpc_step.execute [of A "(k, c)" m p hs r w'] w'(1) by metis
  next
    case (return c r)
    have "r_reply A (k, c) = Some r" "r_outcome A (k, c) = None"
      using return(3,4) parts(1) by (simp_all add: part_def)
    moreover have "B = A\<lparr>r_outcome := (r_outcome A)((k, c) \<mapsto> Returned r)\<rparr>"
      using eqs(1,2,6) kept return(2) by (intro rpc.equality) simp_all
    ultimately show ?thesis using rpc_step.return by metis
  next
    case (close c)
    have "r_outcome A (k, c) = None" using close(3) parts(1) by (simp add: part_def)
    moreover have "B = A\<lparr>r_outcome := (r_outcome A)((k, c) \<mapsto> Returned (Inl Closed))\<rparr>"
      using eqs(1,2,6) kept close(2) by (intro rpc.equality) simp_all
    ultimately show ?thesis using rpc_step.close by metis
  next
    case (give_up c)
    have "r_outcome A (k, c) = None" using give_up(3) parts(1) by (simp add: part_def)
    moreover have "B = A\<lparr>r_outcome := (r_outcome A)((k, c) \<mapsto> Gave_Up)\<rparr>"
      using eqs(1,2,6) kept give_up(2) by (intro rpc.equality) simp_all
    ultimately show ?thesis using rpc_step.give_up by metis
  qed
qed

context envelope_codec
begin

abbreviation "hstep \<equiv> host_step encode_to_vec decode_from_slice new_codec frame_decode frame_encode"

lemma host_step_refines:
  assumes "exec (hstep hs) (host_start w) ls s" "few_calls_each (ls @ [l])" "hstep hs s l t"
  shows "host_view t = host_view s \<or> (\<exists>a. rpc_step hs (host_view s) a (host_view t))"
  using assms(3)
proof cases
  case (host_connect k)
  then have "host_view t = host_view s"
    by (auto simp: host_view_def rpc_view_start rpc_start_def fun_eq_iff)
  then show ?thesis ..
next
  case host_accept
  then show ?thesis by (simp add: host_view_def)
next
  case host_accept_failed
  then show ?thesis by (simp add: host_view_def)
next
  case (host_on k n l' m)
  let ?rest = "[h_world s]"
  obtain f v where alone: "exec (nstep (foreseen hs)) (nstart f) (on_conn k ls) (net_with (v, ?rest) n)"
    using conn_alone [OF assms(1) host_on(3)] by blast
  obtain g where g: "nstep (foreseen hs) (net_with (v, ?rest) n) l' (net_with g m)"
    "g = (v, ?rest) \<and> world (n_server m) = h_world s \<or> g = (world (n_server m), [])"
    using carriedD [OF net_step_foreseen [OF host_on(5)], of "(v, ?rest)"] by auto
  have few: "few_calls (on_conn k ls @ [l'])"
    using few_calls_eachD [OF assms(2), of k] by (simp add: host_on(1))
  have parts: "part k (rpc_view (net_with (v, ?rest) n)) (host_view s)" "part k (rpc_view (net_with g m)) (host_view t)"
    using host_on(2,3) by (simp_all add: part_view)
  have same: "rest_same k (host_view s) (host_view t)" by (simp add: rest_same_def host_view_def host_on(2))
  from net_step_refines [OF alone few g(1)] show ?thesis
  proof
    assume eq: "rpc_view (net_with g m) = rpc_view (net_with (v, ?rest) n)"
    from arg_cong [OF this, of r_world] have "g = (v, ?rest)" by (simp add: rpc_view_def)
    with g(2) have "h_world t = h_world s" by (simp add: host_on(2))
    with part_eqI(1-3) [OF parts same] eq have "host_view t = host_view s"
      by (intro rpc.equality) (simp_all add: host_view_def)
    then show ?thesis ..
  next
    assume "\<exists>a. rpc_step (foreseen hs) (rpc_view (net_with (v, ?rest) n)) a (rpc_view (net_with g m))"
    then obtain a where "rpc_step (foreseen hs) (rpc_view (net_with (v, ?rest) n)) a (rpc_view (net_with g m))" ..
    from part_step [OF this parts same] g(2) show ?thesis
      by (auto simp: rpc_view_def host_view_def host_on(2))
  qed
qed

sublocale host: refinement_map "hstep hs" "host_start w" "rpc_step hs" host_view few_calls_each for hs w
  by unfold_locales (erule few_calls_each_prefix, rule host_step_refines)

lemma host_view_start: "host_view (host_start w) = rpc_start w"
  by (simp add: host_view_def host_start_def rpc_start_def fun_eq_iff)

lemma host_refines:
  "exec (hstep hs) (host_start w) ls s \<Longrightarrow> few_calls_each ls \<Longrightarrow>
   \<exists>ms. exec (rpc_step hs) (rpc_start w) ms (host_view s)"
  using host.exec_refines by (simp add: host_view_start)

lemma host_refines_on:
  assumes "exec (hstep hs) (host_start w) ls s" "exec (hstep hs) s ls' t" "few_calls_each (ls @ ls')"
  shows "\<exists>ms ms'. exec (rpc_step hs) (rpc_start w) ms (host_view s) \<and> exec (rpc_step hs) (rpc_start w) (ms @ ms') (host_view t)"
proof -
  from host.exec_refines_on [OF assms] obtain ms' where
    on: "few_calls_each ls" "exec (rpc_step hs) (host_view s) ms' (host_view t)" by blast
  from host_refines [OF assms(1) on(1)] obtain ms where "exec (rpc_step hs) (rpc_start w) ms (host_view s)" ..
  with exec_trans [OF on(2) this] show ?thesis by blast
qed

end

end
