(* ===== verification/Shared_Props.thy ===== *)
theory Shared_Props
  imports Shared_Refines Network_Props
begin

text \<open>
  The properties of a server with all its connections: it refines the at-most-once specification, its
  calls are linearizable across connections, and its accept loop serves what was accepted. Also what a
  connection can do alone it can do among others.
\<close>

section \<open>One connection runs on\<close>

text \<open>A continuation with foreseeing handlers in which nobody else interferes is a real one.\<close>

lemma exec_unforeseen:
  fixes n :: "('x, 's, 'w) net" and hs :: "string \<rightharpoonup> 'w handler"
  assumes "exec (net_step enc dec fdec fenc (foreseen hs)) (net_with f n) ls u" "length (snd f) \<le> 1"
  shows "\<exists>g (m :: ('x, 's, 'w) net). u = net_with g m \<and> length (snd g) \<le> 1
    \<and> exec (net_step enc dec fdec fenc hs) (net_with (foreseen_state f) n) ls (net_with (foreseen_state g) m)"
  using assms(1)
proof (induction rule: exec.induct)
  case exec_none
  show ?case by (intro exI [of _ f] exI [of _ n]) (use assms(2) in \<open>simp add: exec.exec_none\<close>)
next
  case (exec_step ls u l v)
  then obtain g and m :: "('x, 's, 'w) net" where g: "u = net_with g m" "length (snd g) \<le> 1"
    "exec (net_step enc dec fdec fenc hs) (net_with (foreseen_state f) n) ls (net_with (foreseen_state g) m)"
    by blast
  from net_step_unforeseen [OF exec_step.hyps(2) [unfolded g(1)]] obtain g' and m' :: "('x, 's, 'w) net" where g':
    "spent g (n_server m') g'" "v = net_with g' m'" "net_step enc dec fdec fenc hs (net_with (foreseen_state g) m) l m'"
    by blast
  have "tl (snd g) = []" using g(2) by (cases "snd g") auto
  then have state: "foreseen_state g' = world (n_server m')" "length (snd g') \<le> 1"
    using g'(1) g(2) by (auto simp: spent_def)
  have "net_with (world (n_server m')) m' = m'" by simp
  with exec.exec_step [OF g(3) g'(3)] g'(2) state show ?case
    by (intro exI [of _ g'] exI [of _ m']) simp
qed

text \<open>A connection of the server can take the steps it could take alone.\<close>

lemma host_runs_conn:
  assumes "exec (net_step enc dec fdec fenc hs) (net_with (h_world s) n) ls m"
    and "h_conns s k = Some n" "\<forall>l \<in> set ls. at_server l \<longrightarrow> k \<in> h_accepted s"
  shows "\<exists>t n'. exec (host_step enc dec new_codec fdec fenc hs) s (map (On k) ls) t
    \<and> h_conns t = (h_conns s)(k \<mapsto> n') \<and> m = net_with (h_world t) n'
    \<and> h_accepted t = h_accepted s \<and> h_loop t = h_loop s"
  using assms(1,3)
proof (induction rule: exec.induct)
  case exec_none
  with assms(2) show ?case by (intro exI [of _ s] exI [of _ n]) (auto simp: exec.exec_none fun_upd_idem)
next
  case (exec_step ls m l m')
  have "\<forall>l \<in> set ls. at_server l \<longrightarrow> k \<in> h_accepted s" using exec_step.prems by simp
  from exec_step.IH [OF this] obtain t n' where t: "exec (host_step enc dec new_codec fdec fenc hs) s (map (On k) ls) t"
    "h_conns t = (h_conns s)(k \<mapsto> n')" "m = net_with (h_world t) n'" "h_accepted t = h_accepted s" "h_loop t = h_loop s"
    by blast
  have "host_step enc dec new_codec fdec fenc hs t (On k l)
      (t\<lparr>h_world := world (n_server m'), h_conns := (h_conns t)(k \<mapsto> m')\<rparr>)"
    by (rule host_step.host_on) (use t exec_step.prems exec_step.hyps(2) in simp_all)
  from exec.exec_step [OF t(1) this] t show ?case
    by (intro exI [of _ "t\<lparr>h_world := world (n_server m'), h_conns := (h_conns t)(k \<mapsto> m')\<rparr>"] exI [of _ m']) simp
qed

text \<open>What a connection's state is does not depend on the state of the service it shares.\<close>

lemma healthy_with [simp]: "healthy (net_with v n) = healthy n"
  by (simp add: healthy_def)

lemma dispatch_foreseen_answer: "fst (dispatch (foreseen hs) q f) = fst (dispatch hs q (foreseen_state f))"
  by (simp add: dispatch_foreseen split: prod.splits)

lemma messages_fit_foreseen: "messages_fit enc hs n \<Longrightarrow> messages_fit enc (foreseen hs) (net_with f n)"
  by (simp add: messages_fit_def dispatch_foreseen_answer)

lemma r_reply_with: "r_reply (rpc_view (net_with v n)) = r_reply (rpc_view n)"
  by (simp add: rpc_view_def)

lemma shared_call_completes:
  fixes s :: "('x, 's, 'w) host"
  assumes codec: "envelope_codec enc dec new_codec fdec fenc max_frame held"
    and reach: "exec (host_step enc dec new_codec fdec fenc hs) (host_start w) ls s" "few_calls_each ls"
    and k: "h_conns s k = Some n" "k \<in> h_accepted s"
    and ok: "healthy n" "messages_fit enc hs n" and c: "calls (n_client n) c = Awaiting i g"
  shows "\<exists>ms t m r. exec (host_step enc dec new_codec fdec fenc hs) s (map (On k) (ms @ [Client_Local (EvRecv c)])) t
    \<and> (\<forall>l \<in> set ms. moving l) \<and> h_conns t = (h_conns s)(k \<mapsto> m)
    \<and> calls (n_client m) c = Finished r \<and> r \<noteq> Inl Closed \<and> r_reply (rpc_view m) c = Some r"
proof -
  obtain f v where alone: "exec (net_step enc dec fdec fenc (foreseen hs)) (net_start new_codec f)
      (on_conn k ls) (net_with (v, [h_world s]) n)"
    using conn_alone [OF reach(1) k(1)] by blast
  let ?n = "net_with (v, [h_world s]) n"
  have few: "few_calls (on_conn k ls)" using reach(2) by (rule few_calls_eachD)
  have "calls (n_client ?n) c = Awaiting i g" "healthy ?n" using c ok(1) by simp_all
  with envelope_codec.waiting_call_completes [OF codec alone few _ messages_fit_foreseen [OF ok(2)]]
  obtain ms u r where u: "exec (net_step enc dec fdec fenc (foreseen hs)) ?n (ms @ [Client_Local (EvRecv c)]) u"
    "\<forall>l \<in> set ms. moving l" "calls (n_client u) c = Finished r" "r \<noteq> Inl Closed" "r_reply (rpc_view u) c = Some r"
    by blast
  from exec_unforeseen [OF u(1)] obtain h and m :: "('x, 's, 'w) net" where m: "u = net_with h m"
    "exec (net_step enc dec fdec fenc hs) (net_with (h_world s) n) (ms @ [Client_Local (EvRecv c)]) (net_with (foreseen_state h) m)"
    by auto
  from host_runs_conn [OF m(2) k(1)] k(2) obtain t n' where
    t: "exec (host_step enc dec new_codec fdec fenc hs) s (map (On k) (ms @ [Client_Local (EvRecv c)])) t"
    "h_conns t = (h_conns s)(k \<mapsto> n')" "net_with (foreseen_state h) m = net_with (h_world t) n'"
    by blast
  have "n_client n' = n_client m" "r_reply (rpc_view n') = r_reply (rpc_view m)"
    using arg_cong [OF t(3), of n_client] arg_cong [OF t(3), of "\<lambda>n. r_reply (rpc_view n)"] by (simp_all add: r_reply_with)
  with t(1,2) u(2-5) m(1) show ?thesis by (metis net_with_simps(1) r_reply_with)
qed

section \<open>The order of the calls of all connections\<close>

definition request_on :: "('x, 's, 'w) host \<Rightarrow> nat \<times> chan \<Rightarrow> request_data option" where
  "request_on s = (\<lambda>(k, c). Option.bind (h_conns s k) (\<lambda>n. built (n_client n) c))"

definition result_on :: "('x, 's, 'w) host \<Rightarrow> nat \<times> chan \<Rightarrow> ('x patina_error + bytes) option" where
  "result_on s = (\<lambda>(k, c). Option.bind (h_conns s k) (\<lambda>n. result_of (calls (n_client n) c)))"

lemma r_request_on: "r_request (host_view s) x = map_option (\<lambda>q. (rq_method q, rq_payload q)) (request_on s x)"
  by (cases x) (simp add: host_view_def request_on_def rpc_view_def map_option_bind comp_def)

lemma dom_r_request_on: "dom (r_request (host_view s)) = dom (request_on s)"
  by (auto simp: r_request_on)

lemma r_outcome_on: "result_on s x = Some r \<Longrightarrow> r_outcome (host_view s) x = Some (Returned r)"
  by (cases x) (auto simp: host_view_def result_on_def rpc_view_def outcomes_def bind_eq_Some_conv)

lemma host_effects:
  assumes codec: "envelope_codec enc dec new_codec fdec fenc max_frame held"
    and first: "exec (host_step enc dec new_codec fdec fenc hs) (host_start w) ls s"
    and later: "exec (host_step enc dec new_codec fdec fenc hs) s ls' t" and few: "few_calls_each (ls @ ls')"
  shows "\<exists>cs ds qs rs. distinct (cs @ ds) \<and> map (request_on t) (cs @ ds) = map Some qs
    \<and> run_calls hs (map (\<lambda>q. (rq_method q, rq_payload q)) qs) w = (rs, h_world t)
    \<and> (\<forall>x r. result_on t x = Some r \<and> r \<noteq> Inl Closed \<longrightarrow> (x, r) \<in> set (zip (cs @ ds) rs))
    \<and> (\<forall>x r. result_on s x = Some r \<and> r \<noteq> Inl Closed \<longrightarrow> x \<in> set cs)
    \<and> (\<forall>x \<in> set cs. request_on s x \<noteq> None)"
proof -
  from envelope_codec.host_refines_on [OF codec first later few] obtain ms ms' where
    ms: "exec (rpc_step hs) (rpc_start w) ms (host_view s)" "exec (rpc_step hs) (rpc_start w) (ms @ ms') (host_view t)"
    by blast
  note early = exec_effects [OF ms(1)] and late = exec_effects [OF ms(2), unfolded executions_append]
  let ?cs = "executions ms" and ?ds = "executions ms'"
  have built: "request_on t x \<noteq> None" if "x \<in> set (?cs @ ?ds)" for x
    using that late(3) unfolding dom_r_request_on by auto
  let ?qs = "map (\<lambda>x. the (request_on t x)) (?cs @ ?ds)"
  have qs: "map (request_on t) (?cs @ ?ds) = map Some ?qs" using built by auto
  have reqs: "map (\<lambda>x. the (r_request (host_view t) x)) (?cs @ ?ds) = map (\<lambda>q. (rq_method q, rq_payload q)) ?qs"
    using built by (fastforce simp: r_request_on)
  have run: "run_calls hs (map (\<lambda>q. (rq_method q, rq_payload q)) ?qs) w
      = (map (\<lambda>x. the (r_reply (host_view t) x)) (?cs @ ?ds), h_world t)"
    using late(4) unfolding reqs by (simp add: host_view_def)
  have "x \<in> set ?cs" if "result_on s x = Some r" "r \<noteq> Inl Closed" for x r
    using set_zip_leftD [OF early(5) [OF r_outcome_on [OF that(1)] that(2)]] .
  moreover have "\<forall>x \<in> set ?cs. request_on s x \<noteq> None" using early(3) unfolding dom_r_request_on by blast
  moreover have "\<forall>x r. result_on t x = Some r \<and> r \<noteq> Inl Closed \<longrightarrow>
      (x, r) \<in> set (zip (?cs @ ?ds) (map (\<lambda>x. the (r_reply (host_view t) x)) (?cs @ ?ds)))"
    using late(5) r_outcome_on by blast
  ultimately show ?thesis using late(1) qs run by blast
qed

section \<open>The accept loop\<close>

text \<open>What \<open>accept\<close> returned in an execution, as the argument of \<open>serve\<close>.\<close>

fun accept_results :: "'x host_event list \<Rightarrow> ('x + nat) list" where
  "accept_results [] = []"
| "accept_results (Accept k # ls) = Inr k # accept_results ls"
| "accept_results (Accept_Failed x # ls) = Inl x # accept_results ls"
| "accept_results (_ # ls) = accept_results ls"

lemma accept_results_append [simp]: "accept_results (ls @ ms) = accept_results ls @ accept_results ms"
  by (induction ls rule: accept_results.induct) simp_all

fun loop_of :: "'x patina_error option \<Rightarrow> 'x accept_loop" where
  "loop_of None = Accepting"
| "loop_of (Some e) = Serve_Returned (Inl e)"

lemma serve_append:
  "serve (xs @ ys) = (case serve xs of (ss, Some e) \<Rightarrow> (ss, Some e)
    | (ss, None) \<Rightarrow> (case serve ys of (ts, r) \<Rightarrow> (ss @ ts, r)))"
  by (induction xs rule: serve.induct) (auto split: prod.splits option.splits)

lemma host_serves:
  assumes "exec (host_step enc dec new_codec fdec fenc hs) (host_start w) ls s"
  shows "\<exists>ks r. serve (accept_results ls) = (ks, r) \<and> h_loop s = loop_of r \<and> distinct ks \<and> set ks = h_accepted s
    \<and> h_accepted s \<subseteq> dom (h_conns s)"
  using assms
proof (induction rule: exec.induct)
  case exec_none
  show ?case by (simp add: host_start_def)
next
  case (exec_step ls s l t)
  then obtain ks r where *: "serve (accept_results ls) = (ks, r)" "h_loop s = loop_of r" "distinct ks"
    "set ks = h_accepted s" "h_accepted s \<subseteq> dom (h_conns s)" by blast
  from exec_step.hyps(2) * show ?case
    by cases (cases r; auto simp: serve_append)+
qed

text \<open>The server end of a connection that was not accepted has taken no step.\<close>

lemma at_server_side: "\<not> at_server l \<Longrightarrow> server_side [l] = []"
  by (cases l) simp_all

lemma unaccepted_silent:
  assumes "exec (host_step enc dec new_codec fdec fenc hs) (host_start w) ls s" "k \<notin> h_accepted s"
  shows "server_side (on_conn k ls) = []"
  using assms
proof (induction rule: exec.induct)
  case (exec_step ls s l t)
  from exec_step.hyps(2) exec_step.prems exec_step.IH show ?case
    by cases (auto simp: at_server_side)
qed simp

lemma unaccepted_closed:
  fixes s :: "('x, 's, 'w) host"
  assumes codec: "envelope_codec enc dec new_codec fdec fenc max_frame held"
    and reach: "exec (host_step enc dec new_codec fdec fenc hs) (host_start w) ls s" "few_calls_each ls"
    and k: "k \<notin> h_accepted s" and r: "result_on s (k, c) = Some r"
  shows "r = Inl Closed"
proof (rule ccontr)
  assume reply: "r \<noteq> Inl Closed"
  from r obtain n where n: "h_conns s k = Some n" "calls (n_client n) c = Finished r"
    by (auto simp: result_on_def bind_eq_Some_conv)
  from conn_alone [OF reach(1) n(1), of "[]"] obtain f v where
    alone: "exec (net_step enc dec fdec fenc (foreseen hs)) (net_start new_codec f) (on_conn k ls) (net_with (v, []) n)"
    by blast
  let ?n = "net_with (v, [] :: 'w list) n"
  have few: "few_calls (on_conn k ls)" using reach(2) by (rule few_calls_eachD)
  have fin: "calls (n_client ?n) c = Finished r" using n(2) by simp
  from run_routed [OF net_exec_client [OF alone]] fin reply obtain q where q: "built (n_client ?n) c = Some q"
    unfolding routed_def answers_def by blast
  from envelope_codec.returned_is_logged [OF codec alone few fin reply q] have "n_log ?n \<noteq> []"
    by (auto simp: logged_def)
  moreover have "n_server ?n = open_conn f"
    using net_exec_server [OF alone] unaccepted_silent [OF reach(1) k] by (auto elim: conn_exec.cases)
  moreover have "mset (n_log ?n) = answered (n_server ?n)"
    by (rule envelope_codec.net_okD(8) [OF codec envelope_codec.net_exec_ok [OF codec alone]])
  ultimately show False by (simp add: open_conn_def)
qed

section \<open>Executions to evaluate on\<close>

abbreviation "ref_host_step \<equiv> host_step ref_encode ref_decode ref_new_codec ref_frame_decode ref_frame_encode"

lemma on_conn_map [simp]: "on_conn k (map (On j) ls) = (if j = k then ls else [])"
  by (induction ls) auto

lemma client_opens:
  fixes s :: "('x, 's, 'w) host"
  assumes "h_conns s k = None" "k \<notin> h_accepted s" "h_loop s = Accepting"
  shows "exec (host_step enc dec new_codec fdec fenc hs) s [Connect k, Accept k]
    (s\<lparr>h_conns := (h_conns s)(k \<mapsto> net_start new_codec (h_world s)), h_accepted := insert k (h_accepted s)\<rparr>)"
proof -
  let ?step = "host_step enc dec new_codec fdec fenc hs"
  let ?u = "s\<lparr>h_conns := (h_conns s)(k \<mapsto> net_start new_codec (h_world s))\<rparr>"
  have u: "?step s (Connect k) ?u" by (rule host_step.host_connect) (rule assms(1))
  have "?step ?u (Accept k) (?u\<lparr>h_accepted := insert k (h_accepted ?u)\<rparr>)"
    by (rule host_step.host_accept) (simp_all add: assms)
  from exec.exec_step [of ?step, OF exec_single [of ?step, OF u] this] show ?thesis by simp
qed

lemma few_calls_joining: "few_calls_each ([Connect k, Accept k] @ map (On k) ls) = few_calls ls"
  by (auto simp: few_calls_each_def) (simp add: few_calls_def)

text \<open>What a connection can do alone, a client that joins can do.\<close>

lemma client_runs:
  fixes s :: "('x, 's, 'w) host"
  assumes n: "exec (net_step enc dec fdec fenc hs) (net_start new_codec w) ls n" "h_world s = w"
    and s: "h_conns s k = None" "k \<notin> h_accepted s" "h_loop s = Accepting"
  shows "\<exists>t n'. exec (host_step enc dec new_codec fdec fenc hs) s ([Connect k, Accept k] @ map (On k) ls) t
    \<and> h_conns t = (h_conns s)(k \<mapsto> n') \<and> n = net_with (h_world t) n' \<and> h_accepted t = insert k (h_accepted s) \<and> h_loop t = Accepting"
proof -
  let ?n = "net_start new_codec w :: ('x, 's, 'w) net"
  let ?v = "s\<lparr>h_conns := (h_conns s)(k \<mapsto> ?n), h_accepted := insert k (h_accepted s)\<rparr>"
  have "net_with (h_world ?v) ?n = ?n" by (simp add: net_with_start n(2))
  with n(1) have "exec (net_step enc dec fdec fenc hs) (net_with (h_world ?v) ?n) ls n" by simp
  from host_runs_conn [OF this, of k new_codec] obtain t n' where
    t: "exec (host_step enc dec new_codec fdec fenc hs) ?v (map (On k) ls) t" "h_conns t = (h_conns ?v)(k \<mapsto> n')"
      "n = net_with (h_world t) n'" "h_accepted t = h_accepted ?v" "h_loop t = h_loop ?v"
    by auto
  from exec_trans [OF t(1) client_opens [OF s, of enc dec new_codec fdec fenc hs, unfolded n(2)]] t(2-5) s(3) show ?thesis
    by (intro exI [of _ t] exI [of _ n']) simp
qed

lemma single_client:
  fixes n :: "('x, 's, 'w) net"
  assumes "exec (net_step enc dec fdec fenc hs) (net_start new_codec w) ls n"
  shows "\<exists>s n'. exec (host_step enc dec new_codec fdec fenc hs) (host_start w) ([Connect k, Accept k] @ map (On k) ls) s
    \<and> h_conns s k = Some n' \<and> n = net_with (h_world s) n' \<and> k \<in> h_accepted s"
proof -
  let ?s = "host_start w :: ('x, 's, 'w) host"
  have "h_world ?s = w" "h_conns ?s k = None" "k \<notin> h_accepted ?s" "h_loop ?s = Accepting"
    by (simp_all add: host_start_def)
  from client_runs [OF assms this] show ?thesis by (elim exE conjE) (rule exI, rule exI, auto)
qed

lemma client_joins:
  fixes s :: "('x, 's, 'w) host"
  assumes codec: "envelope_codec enc dec new_codec fdec fenc max_frame held"
    and fits: "framed enc (Request \<lparr>rq_id = 0, rq_method = m, rq_payload = p\<rparr>)"
      "\<And>v. framed enc (fst (dispatch hs \<lparr>rq_id = 0, rq_method = m, rq_payload = p\<rparr> v))"
    and s: "h_conns s k = None" "k \<notin> h_accepted s" "h_loop s = Accepting"
  shows "\<exists>ls t r. exec (host_step enc dec new_codec fdec fenc hs) s ls t \<and> few_calls_each ls
    \<and> (\<forall>j. j \<noteq> k \<longrightarrow> on_conn j ls = [] \<and> h_conns t j = h_conns s j)
    \<and> result_on t (k, c) = Some r \<and> r \<noteq> Inl Closed
    \<and> (\<forall>d. request_on t (k, d) = (if d = c then Some \<lparr>rq_id = 0, rq_method = m, rq_payload = p\<rparr> else None))
    \<and> h_loop t = Accepting \<and> h_accepted t = insert k (h_accepted s)"
proof -
  from one_call_completes [OF codec fits, of "h_world s" c] obtain ls r and n :: "('x, 's, 'w) net" where
    n: "exec (net_step enc dec fdec fenc hs) (net_start new_codec (h_world s)) ls n" "few_calls ls"
      "calls (n_client n) c = Finished r" "r \<noteq> Inl Closed"
      "built (n_client n) = [c \<mapsto> \<lparr>rq_id = 0, rq_method = m, rq_payload = p\<rparr>]"
    by blast
  from client_runs [OF n(1) refl s] obtain t n' where
    t: "exec (host_step enc dec new_codec fdec fenc hs) s ([Connect k, Accept k] @ map (On k) ls) t"
      "h_conns t = (h_conns s)(k \<mapsto> n')" "n = net_with (h_world t) n'" "h_accepted t = insert k (h_accepted s)"
      "h_loop t = Accepting"
    by blast
  have same: "n_client n' = n_client n" using t(3) by simp
  from t(1,2,4,5) few_calls_joining [of k ls] n(2-5) show ?thesis
    by (intro exI [of _ "[Connect k, Accept k] @ map (On k) ls"] exI [of _ t] exI [of _ r])
      (simp add: result_on_def request_on_def same)
qed

text \<open>Two clients, one after the other.\<close>

lemma two_join:
  assumes codec: "envelope_codec enc dec new_codec fdec fenc max_frame held"
    and fits: "framed enc (Request \<lparr>rq_id = 0, rq_method = m, rq_payload = p\<rparr>)"
      "\<And>v. framed enc (fst (dispatch hs \<lparr>rq_id = 0, rq_method = m, rq_payload = p\<rparr> v))"
      "framed enc (Request \<lparr>rq_id = 0, rq_method = m', rq_payload = p'\<rparr>)"
      "\<And>v. framed enc (fst (dispatch hs \<lparr>rq_id = 0, rq_method = m', rq_payload = p'\<rparr> v))"
  shows "\<exists>ls s ls' r r' (t :: ('x, 's, 'w) host).
     exec (host_step enc dec new_codec fdec fenc hs) (host_start w) ls s \<and> exec (host_step enc dec new_codec fdec fenc hs) s ls' t
     \<and> few_calls_each (ls @ ls') \<and> result_on s (0, 3) = Some r \<and> r \<noteq> Inl Closed \<and> request_on s (1, 3) = None
     \<and> result_on t (0, 3) = Some r \<and> result_on t (1, 3) = Some r' \<and> r' \<noteq> Inl Closed
     \<and> request_on t = [(0, 3) \<mapsto> \<lparr>rq_id = 0, rq_method = m, rq_payload = p\<rparr>, (1, 3) \<mapsto> \<lparr>rq_id = 0, rq_method = m', rq_payload = p'\<rparr>]"
proof -
  let ?step = "host_step enc dec new_codec fdec fenc hs"
  let ?init = "host_start w :: ('x, 's, 'w) host"
  have init: "h_conns ?init 0 = None" "0 \<notin> h_accepted ?init" "h_loop ?init = Accepting" by (simp_all add: host_start_def)
  from client_joins [OF codec fits(1,2) init, of 3] obtain ls r and s :: "('x, 's, 'w) host" where
    s: "exec ?step ?init ls s" "few_calls_each ls" "\<forall>j. j \<noteq> 0 \<longrightarrow> on_conn j ls = [] \<and> h_conns s j = h_conns ?init j"
      "result_on s (0, 3) = Some r" "r \<noteq> Inl Closed"
      "\<forall>d. request_on s (0, d) = (if d = 3 then Some \<lparr>rq_id = 0, rq_method = m, rq_payload = p\<rparr> else None)"
      "h_loop s = Accepting" "h_accepted s = {0}"
    by (auto simp: host_start_def)
  have new: "h_conns s 1 = None" "1 \<notin> h_accepted s" using s(3,8) by (simp_all add: host_start_def)
  from client_joins [OF codec fits(3,4) new s(7), of 3] obtain ls' r' and t :: "('x, 's, 'w) host" where
    t: "exec ?step s ls' t" "few_calls_each ls'" "\<forall>j. j \<noteq> 1 \<longrightarrow> on_conn j ls' = [] \<and> h_conns t j = h_conns s j"
      "result_on t (1, 3) = Some r'" "r' \<noteq> Inl Closed"
      "\<forall>d. request_on t (1, d) = (if d = 3 then Some \<lparr>rq_id = 0, rq_method = m', rq_payload = p'\<rparr> else None)"
    by blast
  have "few_calls (on_conn k (ls @ ls'))" for k
    using few_calls_eachD [OF s(2), of k] few_calls_eachD [OF t(2), of k] s(3) t(3) by (cases "k = 1") simp_all
  then have few: "few_calls_each (ls @ ls')" by (simp add: few_calls_each_def)
  have same: "request_on t (0, d) = request_on s (0, d)" "result_on t (0, d) = result_on s (0, d)" for d
    using t(3) by (simp_all add: request_on_def result_on_def)
  have none: "request_on t (k, d) = None" if "k \<noteq> 0" "k \<noteq> 1" for k d
    using that t(3) s(3) by (simp add: request_on_def host_start_def)
  have "request_on t x = ([(0, 3) \<mapsto> \<lparr>rq_id = 0, rq_method = m, rq_payload = p\<rparr>, (1, 3) \<mapsto> \<lparr>rq_id = 0, rq_method = m', rq_payload = p'\<rparr>]) x" for x
    using s(6) t(6) same(1) none by (cases x; cases "fst x = 0"; cases "fst x = 1") auto
  moreover have "request_on s (1, 3) = None" using new by (simp add: request_on_def)
  moreover have "result_on t (0, 3) = Some r" using s(4) same(2) by simp
  ultimately show ?thesis using s(1,4,5) t(1,4,5) few by blast
qed

text \<open>Two clients of the echo server.\<close>

lemma two_clients:
  "\<exists>ls s ls' r r' (t :: (string, framing, nat) host).
     exec (ref_host_step echo_server) (host_start 0) ls s \<and> exec (ref_host_step echo_server) s ls' t
     \<and> few_calls_each (ls @ ls') \<and> result_on s (0, 3) = Some r \<and> r \<noteq> Inl Closed \<and> request_on s (1, 3) = None
     \<and> result_on t (0, 3) = Some r \<and> result_on t (1, 3) = Some r' \<and> r' \<noteq> Inl Closed
     \<and> (\<forall>x q. request_on t x = Some q \<longrightarrow> q = echo_request)"
proof -
  obtain ls s ls' r r' and t :: "(string, framing, nat) host" where
    "exec (ref_host_step echo_server) (host_start 0) ls s" "exec (ref_host_step echo_server) s ls' t"
    "few_calls_each (ls @ ls')" "result_on s (0, 3) = Some r" "r \<noteq> Inl Closed" "request_on s (1, 3) = None"
    "result_on t (0, 3) = Some r" "result_on t (1, 3) = Some r'" "r' \<noteq> Inl Closed"
    and on: "request_on t = [(0, 3) \<mapsto> echo_request, (1, 3) \<mapsto> echo_request]"
    using two_join [OF ref_envelope_codec echo_framed echo_framed] by blast
  moreover have "\<forall>x q. request_on t x = Some q \<longrightarrow> q = echo_request" unfolding on by simp
  ultimately show ?thesis by blast
qed

lemma echo_run:
  "set qs \<subseteq> {echo_request} \<Longrightarrow>
   run_calls echo_server (map (\<lambda>q. (rq_method q, rq_payload q)) qs) w =
     (replicate (length qs) (Inr [7, 8] :: 'x patina_error + bytes), w + length qs)"
proof (induction qs arbitrary: w)
  case (Cons q qs)
  have "handle echo_server ''echo'' [7, 8] w = (Inr [7, 8] :: 'x patina_error + bytes, Suc w)" by (simp add: handle_def echo_server_def)
  with Cons show ?case by simp
qed simp

section \<open>Properties\<close>

text \<open>
  C1. A server refines the at-most-once specification. Take any execution of a server with any number
  of clients, whose connections come and fail at any time, over any codecs that satisfy the
  libraries' laws, with bytes delayed and cut, sends that fail half way, panics, dropped calls and
  teardown at any point, in which each connection numbers at most \<open>2 ^ 64\<close> calls. Seen through the
  mapping to requests, replies, outcomes and service state, it is an execution of the specification:
  a call is invoked once, executed at most once on its own request in the state that all earlier
  executions of all connections have left, and returns the reply of that execution, \<open>Closed\<close>, or
  nothing because its caller gave up.
\<close>

theorem server_refines_rpc:
  assumes "envelope_codec enc dec new_codec fdec fenc max_frame held"
    and "exec (host_step enc dec new_codec fdec fenc hs) (host_start w) ls s" and "few_calls_each ls"
  shows "\<exists>ms. exec (rpc_step hs) (rpc_start w) ms (host_view s)"
  by (rule envelope_codec.host_refines [OF assms])

theorem server_refines_rpc_witness:
  "\<exists>ms r r' s :: (string, framing, nat) host. exec (rpc_step echo_server) (rpc_start 0) ms (host_view s)
     \<and> r_outcome (host_view s) (0, 3) = Some (Returned r) \<and> r_outcome (host_view s) (1, 3) = Some (Returned r')"
proof -
  obtain ls s0 ls' r r' and s :: "(string, framing, nat) host" where s:
    "exec (ref_host_step echo_server) (host_start 0) ls s0" "exec (ref_host_step echo_server) s0 ls' s"
    "few_calls_each (ls @ ls')" "result_on s (0, 3) = Some r" "result_on s (1, 3) = Some r'"
    using two_clients by metis
  from server_refines_rpc [OF ref_envelope_codec exec_trans [OF s(2,1)] s(3)] r_outcome_on [OF s(4)] r_outcome_on [OF s(5)]
  show ?thesis by blast
qed

text \<open>
  C2. The calls of a server are linearizable, across all its connections. For any execution and any
  moment in it there is an order \<open>cs @ ds\<close> of calls, each at most once, such that at the end the state
  of the service is the one after handling exactly these calls' requests one after the other; every
  call that has returned anything but \<open>Closed\<close> has its result in that run; those that had returned by
  the moment are in \<open>cs\<close>; and a call that had not even built its request then is not in \<open>cs\<close>. So a
  call that starts after another has returned takes effect after it.
\<close>

theorem calls_linearizable:
  assumes "envelope_codec enc dec new_codec fdec fenc max_frame held"
    and "exec (host_step enc dec new_codec fdec fenc hs) (host_start w) ls s"
    and "exec (host_step enc dec new_codec fdec fenc hs) s ls' t" and "few_calls_each (ls @ ls')"
  shows "\<exists>cs ds qs rs. distinct (cs @ ds) \<and> map (request_on t) (cs @ ds) = map Some qs
    \<and> run_calls hs (map (\<lambda>q. (rq_method q, rq_payload q)) qs) w = (rs, h_world t)
    \<and> (\<forall>x r. result_on t x = Some r \<and> r \<noteq> Inl Closed \<longrightarrow> (x, r) \<in> set (zip (cs @ ds) rs))
    \<and> (\<forall>x r. result_on s x = Some r \<and> r \<noteq> Inl Closed \<longrightarrow> x \<in> set cs)
    \<and> (\<forall>x \<in> set cs. request_on s x \<noteq> None)"
  by (rule host_effects [OF assms])

theorem calls_linearizable_witness:
  "\<exists>(cs :: (nat \<times> chan) list) ds (rs :: (string patina_error + bytes) list) (t :: (string, framing, nat) host). distinct (cs @ ds) \<and> (0, 3) \<in> set cs \<and> (1, 3) \<in> set ds
     \<and> result_on t (0, 3) = Some (Inr [7, 8]) \<and> result_on t (1, 3) = Some (Inr [7, 8])
     \<and> length rs = length (cs @ ds) \<and> h_world t = length (cs @ ds)"
proof -
  obtain ls s ls' r r' and t :: "(string, framing, nat) host" where
    st: "exec (ref_host_step echo_server) (host_start 0) ls s" "exec (ref_host_step echo_server) s ls' t"
      "few_calls_each (ls @ ls')"
    and on: "result_on s (0, 3) = Some r" "r \<noteq> Inl Closed" "request_on s (1, 3) = None"
      "result_on t (0, 3) = Some r" "result_on t (1, 3) = Some r'" "r' \<noteq> Inl Closed"
    and echo: "\<forall>x q. request_on t x = Some q \<longrightarrow> q = echo_request"
    using two_clients by blast
  from calls_linearizable [OF ref_envelope_codec st] obtain cs ds qs rs where
    L: "distinct (cs @ ds)" "map (request_on t) (cs @ ds) = map Some qs"
      "run_calls echo_server (map (\<lambda>q. (rq_method q, rq_payload q)) qs) 0 = (rs, h_world t)"
      "\<forall>x r. result_on t x = Some r \<and> r \<noteq> Inl Closed \<longrightarrow> (x, r) \<in> set (zip (cs @ ds) rs)"
      "\<forall>x r. result_on s x = Some r \<and> r \<noteq> Inl Closed \<longrightarrow> x \<in> set cs" "\<forall>x \<in> set cs. request_on s x \<noteq> None"
    by blast
  have "q = echo_request" if "q \<in> set qs" for q
  proof -
    from that have "Some q \<in> set (map (request_on t) (cs @ ds))" unfolding L(2) by simp
    with echo show ?thesis by (metis (no_types, lifting) ex_map_conv)
  qed
  then have "set qs \<subseteq> {echo_request}" by blast
  from echo_run [OF this, of 0, where 'x = string] L(3) have rs: "rs = replicate (length qs) (Inr [7, 8])" "h_world t = length qs" by simp_all
  have len: "length qs = length (cs @ ds)" using arg_cong [OF L(2), of length] by simp
  have results: "((0, 3), r) \<in> set (zip (cs @ ds) rs)" "((1, 3), r') \<in> set (zip (cs @ ds) rs)" using L(4) on by blast+
  then have "r = Inr [7, 8]" "r' = Inr [7, 8]" "(1, 3) \<in> set (cs @ ds)"
    using set_zip_rightD [OF results(1)] set_zip_rightD [OF results(2)] set_zip_leftD [OF results(2)]
    by (simp_all only: rs set_replicate_conv_if split: if_splits) auto
  moreover have "(0, 3) \<in> set cs" "(1, 3) \<notin> set cs" using L(5,6) on by blast+
  ultimately show ?thesis using L(1) on rs len
    by (intro exI [of _ cs] exI [of _ ds] exI [of _ rs] exI [of _ t]) auto
qed

text \<open>
  A waiting call can always complete, on a server with other connections too. Take any reachable
  state of a server and a connection of it that has been accepted, whose client tasks both run, whose
  server end reads and whose writer works, on which no worker panicked and no answer was discarded,
  and whose requests and their answers fit in a frame. Then a call that waits on it can still get the
  reply of its own request by steps of this connection alone that only move messages forward, whatever
  the other connections have done or left undone.
\<close>

lemma waiting_call_can_complete_on_server:
  assumes "envelope_codec enc dec new_codec fdec fenc max_frame held"
    and "exec (host_step enc dec new_codec fdec fenc hs) (host_start w) ls s" and "few_calls_each ls"
    and "h_conns s k = Some n" and "k \<in> h_accepted s"
    and "healthy n" and "messages_fit enc hs n" and "calls (n_client n) c = Awaiting i g"
  shows "\<exists>ms t m r. exec (host_step enc dec new_codec fdec fenc hs) s (map (On k) (ms @ [Client_Local (EvRecv c)])) t
    \<and> (\<forall>l \<in> set ms. moving l) \<and> h_conns t = (h_conns s)(k \<mapsto> m)
    \<and> calls (n_client m) c = Finished r \<and> r \<noteq> Inl Closed \<and> r_reply (rpc_view m) c = Some r"
  by (rule shared_call_completes [OF assms])

lemma waiting_call_can_complete_on_server_witness:
  "\<exists>(s :: (string, framing, nat) host) t r. result_on s (5, 3) = None \<and> result_on t (5, 3) = Some r \<and> r \<noteq> Inl Closed
     \<and> (\<exists>ms. exec (ref_host_step echo_server) s (map (On 5) ms) t)"
proof -
  let ?call = "map Client_Local (one_call 3 ''echo'' [7, 8])"
  obtain n :: "(string, framing, nat) net" where n:
    "exec (ref_net_step echo_server) echo_start ?call n"
    "calls (n_client n) 3 = Awaiting 0 (guard_new 0)" "healthy n" "built (n_client n) = [3 \<mapsto> echo_request]"
    using one_call_waits [of ref_encode ref_decode ref_frame_decode ref_frame_encode echo_server ref_new_codec 0 3 "''echo''" "[7, 8]"]
    by blast
  from single_client [OF n(1), of 5] obtain s n' where
    s: "exec (ref_host_step echo_server) (host_start 0) ([Connect 5, Accept 5] @ map (On 5) ?call) s"
      "h_conns s 5 = Some n'" "n = net_with (h_world s) n'" "5 \<in> h_accepted s"
    by blast
  have n': "n_client n' = n_client n" "healthy n'" using s(3) n(3) by simp_all
  have "few_calls ?call" by (simp add: few_calls_def one_call_def)
  note few = iffD2 [OF few_calls_joining this]
  have fit: "messages_fit ref_encode echo_server n'" using echo_framed by (auto simp: messages_fit_def n'(1) n(4))
  have waits: "calls (n_client n') 3 = Awaiting 0 (guard_new 0)" using n(2) n'(1) by simp
  from waiting_call_can_complete_on_server [OF ref_envelope_codec s(1) few s(2,4) n'(2) fit waits] obtain ms t m r where
    "exec (ref_host_step echo_server) s (map (On 5) ms) t" "h_conns t = (h_conns s)(5 \<mapsto> m)"
    "calls (n_client m) 3 = Finished r" "r \<noteq> Inl Closed"
    by blast
  moreover have "result_on s (5, 3) = None" by (simp add: result_on_def s(2) waits)
  ultimately show ?thesis by (intro exI [of _ s] exI [of _ t] exI [of _ r]) (auto simp: result_on_def)
qed

text \<open>
  C5. The accept loop. In every execution of a server the results of \<open>accept\<close> are consumed as \<open>serve\<close>
  says: every socket accepted before the first error gets one connection task, the loop returns that
  error, and nothing is accepted after it. A call on a connection that has not been accepted returns
  nothing but \<open>Closed\<close>.
\<close>

theorem accept_loop_serves:
  assumes "envelope_codec enc dec new_codec fdec fenc max_frame held"
    and "exec (host_step enc dec new_codec fdec fenc hs) (host_start w) ls s" and "few_calls_each ls"
  shows "\<exists>ks r. serve (accept_results ls) = (ks, r) \<and> h_loop s = loop_of r \<and> distinct ks \<and> set ks = h_accepted s
    \<and> (\<forall>k c res. k \<notin> set ks \<and> result_on s (k, c) = Some res \<longrightarrow> res = Inl Closed)"
proof -
  from host_serves [OF assms(2)] obtain ks r where
    "serve (accept_results ls) = (ks, r)" "h_loop s = loop_of r" "distinct ks" "set ks = h_accepted s" by blast
  with unaccepted_closed [OF assms] show ?thesis by blast
qed

theorem accept_loop_serves_witness:
  "\<exists>ls (s :: (string, framing, nat) host). exec (ref_host_step echo_server) (host_start 0) ls s
     \<and> serve (accept_results ls) = ([0], Some (patina_from_io ''emfile'')) \<and> h_accepted s = {0}
     \<and> result_on s (1, 3) = Some (Inl Closed)"
proof -
  let ?init = "host_start 0 :: (string, framing, nat) host"
  let ?n = "net_start ref_new_codec 0 :: (string, framing, nat) net"
  let ?step = "ref_host_step echo_server :: (string, framing, nat) host \<Rightarrow> _"
  let ?v = "?init\<lparr>h_conns := [0 \<mapsto> ?n], h_accepted := {0}\<rparr>"
  let ?u = "?v\<lparr>h_conns := [0 \<mapsto> ?n, 1 \<mapsto> ?n]\<rparr>"
  let ?s = "?u\<lparr>h_loop := Serve_Returned (Inl (patina_from_io ''emfile''))\<rparr>"
  let ?es = "[EvReaderEof, EvReaderCancel, EvCall 3 ''echo'' [7, 8]]"
  have v: "exec ?step ?init [Connect 0, Accept 0] ?v"
    using client_opens [of ?init 0 ref_encode ref_decode ref_new_codec ref_frame_decode ref_frame_encode echo_server]
    by (simp add: host_start_def)
  have "?step ?v (Connect 1) (?v\<lparr>h_conns := (h_conns ?v)(1 \<mapsto> net_start ref_new_codec (h_world ?v))\<rparr>)"
    by (rule host_step.host_connect) simp
  then have u: "?step ?v (Connect 1) ?u" by (simp add: host_start_def)
  have "?step ?u (Accept_Failed ''emfile'') ?s" by (rule host_step.host_accept_failed) (simp add: host_start_def)
  from exec.exec_step [of ?step, OF exec.exec_step [of ?step, OF v u] this]
  have s: "exec ?step ?init [Connect 0, Accept 0, Connect 1, Accept_Failed ''emfile''] ?s" by simp
  obtain c :: "string client" where c: "client_run ?es (n_client ?n) = Some c" "calls c 3 = Finished (Inl Closed)"
    by (simp add: net_start_def client_eval)
  have "exec (ref_net_step echo_server) ?n (map Client_Local ?es) (?n\<lparr>n_client := c\<rparr>)"
    by (rule local_run_exec [OF c(1)]) simp
  moreover have "net_with (h_world ?s) ?n = ?n" by (simp add: net_with_start host_start_def)
  ultimately have "exec (ref_net_step echo_server) (net_with (h_world ?s) ?n) (map Client_Local ?es) (?n\<lparr>n_client := c\<rparr>)"
    by simp
  from host_runs_conn [OF this, of 1 ref_new_codec] obtain t n' where
    t: "exec ?step ?s (map (On 1) (map Client_Local ?es)) t" "h_conns t = (h_conns ?s)(1 \<mapsto> n')"
      "?n\<lparr>n_client := c\<rparr> = net_with (h_world t) n'" "h_accepted t = {0}"
    by auto
  have c': "calls (n_client n') 3 = Finished (Inl Closed)" using arg_cong [OF t(3), of n_client] c(2) by simp
  let ?ls = "[Connect 0, Accept 0, Connect 1, Accept_Failed ''emfile''] @ map (On 1) (map Client_Local ?es)"
  have reach: "exec ?step ?init ?ls t" using t(1) s by (rule exec_trans)
  have "few_calls_each ?ls" by (simp add: few_calls_each_def few_calls_def)
  from accept_loop_serves [OF ref_envelope_codec reach this] show ?thesis
    using reach t(2,4) c' by (intro exI [of _ ?ls] exI [of _ t]) (simp add: result_on_def)
qed

end
