(* ===== verification/Typed_Shared.thy ===== *)
theory Typed_Shared
  imports Rust_Values Shared_Props
begin

text \<open>
  Generated clients of a server: what the callers of all connections see is what they would see calling
  the user's implementation of the trait one after the other, without any network.
\<close>

section \<open>Calls of the implementation itself\<close>

fun run_local ::
  "('b, 'x, 'w) trait_impl \<Rightarrow> (rpc_method \<times> 'b rust_val list) list \<Rightarrow> 'w \<Rightarrow> ('x patina_error + 'b rust_val) list \<times> 'w" where
  "run_local impl [] w = ([], w)"
| "run_local impl ((m, args) # xs) w =
     (case impl (m_ident m) args w of (v, w') \<Rightarrow> (case run_local impl xs w' of (vs, w'') \<Rightarrow> (v # vs, w'')))"

lemma run_local_length: "length (fst (run_local impl xs w)) = length xs"
  by (induction impl xs w rule: run_local.induct) (auto split: prod.splits)

text \<open>A request that the generated client makes for a call.\<close>

definition proxy_request ::
  "('b \<Rightarrow> ty \<Rightarrow> bool) \<Rightarrow> ('b, 'e) serde_lib \<Rightarrow> service_trait \<Rightarrow> rpc_method \<times> 'b rust_val list \<Rightarrow> request_data \<Rightarrow> bool" where
  "proxy_request base L service = (\<lambda>(m, args) q.
     m \<in> set (st_methods service) \<and> typed_list base args (map arg_ty (m_args m))
     \<and> rq_method q = cf_wire_name (expand_client_fn service m)
     \<and> proxy_payload L (expand_client_fn service m) args = (Inr (rq_payload q) :: unit patina_error + bytes))"

text \<open>Results of the implementation are of the declared type and serialise.\<close>

definition results_encode ::
  "('b \<Rightarrow> ty \<Rightarrow> bool) \<Rightarrow> ('b, 'e) serde_lib \<Rightarrow> service_trait \<Rightarrow> ('b, 'x, 'w) trait_impl \<Rightarrow> bool" where
  "results_encode base L service impl \<longleftrightarrow>
     (\<forall>m \<in> set (st_methods service). \<forall>args w. typed_list base args (map arg_ty (m_args m)) \<longrightarrow>
        result_encodes base L m (fst (impl (m_ident m) args w)))"

section \<open>A sequential run of the server is one of the implementation\<close>

lemma handle_typed:
  assumes gen: "generated_server base L service" and q: "proxy_request base L service (m, args) q"
    and encodes: "results_encode base L service impl"
    and run: "handle (served L disp impl service b) (rq_method q) (rq_payload q) w = (r :: 'y patina_error + bytes, w')"
  shows "proxy_result L (expand_client_fn service m) r = map_err (remote_error disp) (fst (impl (m_ident m) args w))
    \<and> w' = snd (impl (m_ident m) args w)"
proof -
  from q have m: "m \<in> set (st_methods service)" and args: "typed_list base args (map arg_ty (m_args m))"
    and name: "rq_method q = wire_method_name service m"
    and payload: "proxy_payload L (expand_client_fn service m) args = (Inr (rq_payload q) :: unit patina_error + bytes)"
    by (simp_all add: proxy_request_def expand_client_fn_def)
  have "length args = length (m_args m)" using typed_list_length [OF args] by simp
  with payload have vec: "to_vec L (Tuple args) = Inr (rq_payload q)"
    using generated_server.distinct_args [OF gen m]
    by (simp add: proxy_payload_expanded encode_def map_err_def split: sum.splits)
  have "result_encodes base L m (fst (impl (m_ident m) args w))"
    using encodes m args by (simp add: results_encode_def)
  from typed_exchange [OF gen m args vec this run [unfolded handle_exchange [where i = 0] name]]
  show ?thesis by (simp add: proxy_result_def expand_client_fn_def map_err_def)
qed

lemma run_calls_typed:
  assumes gen: "generated_server base L service" and encodes: "results_encode base L service impl"
    and qs: "list_all2 (proxy_request base L service) xs qs"
  shows "run_calls (served L disp impl service b) (map (\<lambda>q. (rq_method q, rq_payload q)) qs) w = (rs :: ('y patina_error + bytes) list, w') \<Longrightarrow>
    snd (run_local impl xs w) = w' \<and>
    list_all2 (\<lambda>(call, r) v. proxy_result L (expand_client_fn service (fst call)) r = map_err (remote_error disp) v)
      (zip xs rs) (fst (run_local impl xs w))"
  using qs
proof (induction arbitrary: w rs rule: list_all2_induct)
  case (Cons call xs q qs)
  obtain m args where call: "call = (m, args)" by (cases call)
  obtain r u rs' where r: "handle (served L disp impl service b) (rq_method q) (rq_payload q) w = (r :: 'y patina_error + bytes, u)"
    and rs': "run_calls (served L disp impl service b) (map (\<lambda>q. (rq_method q, rq_payload q)) qs) u = (rs', w')" "rs = r # rs'"
    using Cons.prems by (auto split: prod.splits)
  from handle_typed [OF gen Cons.hyps(1) [unfolded call] encodes r] Cons.IH [OF rs'(1)] show ?case
    by (auto simp: call rs'(2) split: prod.splits)
qed simp

lemma typed_effects:
  fixes t :: "('x, 's, 'w) host"
  assumes codec: "envelope_codec enc dec new_codec fdec fenc max_frame held"
    and gen: "generated_server base L service" and encodes: "results_encode base L service impl"
    and s: "exec (host_step enc dec new_codec fdec fenc (served L disp impl service b)) (host_start w) ls s"
    and t: "exec (host_step enc dec new_codec fdec fenc (served L disp impl service b)) s ls' t" and few: "few_calls_each (ls @ ls')"
    and typed: "\<forall>x q. request_on t x = Some q \<longrightarrow> proxy_request base L service (tc x) q"
  shows "\<exists>cs ds vs. distinct (cs @ ds) \<and> run_local impl (map tc (cs @ ds)) w = (vs, h_world t)
    \<and> (\<forall>x r. result_on t x = Some r \<and> r \<noteq> Inl Closed \<longrightarrow>
        (\<exists>v. (x, v) \<in> set (zip (cs @ ds) vs)
          \<and> proxy_result L (expand_client_fn service (fst (tc x))) r = map_err (remote_error disp) v))
    \<and> (\<forall>x r. result_on s x = Some r \<and> r \<noteq> Inl Closed \<longrightarrow> x \<in> set cs)
    \<and> (\<forall>x \<in> set cs. request_on s x \<noteq> None) \<and> (\<forall>x \<in> set ds. request_on t x \<noteq> None)"
proof -
  from host_effects [OF codec s t few] obtain cs ds qs rs where
    order: "distinct (cs @ ds)" "map (request_on t) (cs @ ds) = map Some qs"
      "run_calls (served L disp impl service b) (map (\<lambda>q. (rq_method q, rq_payload q)) qs) w = (rs, h_world t)"
    and results: "\<forall>x r. result_on t x = Some r \<and> r \<noteq> Inl Closed \<longrightarrow> (x, r) \<in> set (zip (cs @ ds) rs)"
    and early: "\<forall>x r. result_on s x = Some r \<and> r \<noteq> Inl Closed \<longrightarrow> x \<in> set cs" "\<forall>x \<in> set cs. request_on s x \<noteq> None"
    by blast
  have len: "length qs = length (cs @ ds)" using arg_cong [OF order(2), of length] by simp
  have on: "request_on t ((cs @ ds) ! i) = Some (qs ! i)" if "i < length (cs @ ds)" for i
    using arg_cong [OF order(2), of "\<lambda>xs. xs ! i"] that len by (simp del: map_append)
  then have "list_all2 (proxy_request base L service) (map tc (cs @ ds)) qs"
    using typed len by (auto simp: list_all2_conv_all_nth split_paired_all simp del: map_append split_paired_All)
  note local = run_calls_typed [OF gen encodes this order(3)]
  let ?vs = "fst (run_local impl (map tc (cs @ ds)) w)"
  have "\<exists>v. (x, v) \<in> set (zip (cs @ ds) ?vs)
      \<and> proxy_result L (expand_client_fn service (fst (tc x))) r = map_err (remote_error disp) v"
    if "result_on t x = Some r" "r \<noteq> Inl Closed" for x r
  proof -
    from results that have "(x, r) \<in> set (zip (cs @ ds) rs)" by blast
    then obtain i where i: "i < length (cs @ ds)" "i < length rs" "x = (cs @ ds) ! i" "r = rs ! i"
      by (auto simp: in_set_zip)
    with local have "proxy_result L (expand_client_fn service (fst (tc x))) r = map_err (remote_error disp) (?vs ! i)"
      by (auto simp: list_all2_conv_all_nth simp del: map_append)
    moreover have "(x, ?vs ! i) \<in> set (zip (cs @ ds) ?vs)"
      using i(1,3) by (auto simp: in_set_zip run_local_length simp del: map_append)
    ultimately show ?thesis by blast
  qed
  moreover have "run_local impl (map tc (cs @ ds)) w = (?vs, h_world t)" using local by (metis prod.collapse)
  moreover have "\<forall>x \<in> set ds. request_on t x \<noteq> None"
    using on by (metis in_set_conv_nth option.distinct(1) set_append Un_iff)
  ultimately show ?thesis using order(1) early by blast
qed

section \<open>Calls to evaluate on\<close>

text \<open>One client of the \<open>Calc\<close> service adds 10 and 4, then another pings.\<close>

abbreviation "calc_add_method \<equiv> \<lparr>m_ident = ''add'', m_args = [arg ''a'', arg ''b''], m_ok_type = u8_type\<rparr>"
abbreviation "add_request \<equiv> \<lparr>rq_id = 0, rq_method = ''Calc::add'', rq_payload = [10, 4]\<rparr>"
abbreviation "add_response \<equiv> Response \<lparr>rs_id = 0, rs_payload = [14]\<rparr>"
abbreviation "calc_served \<equiv> served ref_lib (\<lambda>e. e) calc_impl calc_trait builder"
abbreviation "calc_ping_method \<equiv> \<lparr>m_ident = ''ping'', m_args = [], m_ok_type = u8_type\<rparr>"
abbreviation "ping_request \<equiv> \<lparr>rq_id = 0, rq_method = ''Calc::ping'', rq_payload = []\<rparr>"

definition calc_calls_of :: "nat \<times> chan \<Rightarrow> rpc_method \<times> u8 rust_val list" where
  "calc_calls_of = (\<lambda>(k, c). if k = 0 then (calc_add_method, [Val 10, Val 4]) else (calc_ping_method, []))"

lemma add_in_calc: "calc_add_method \<in> set (st_methods calc_trait)"
  by (simp add: calc_trait_def)

lemma add_dispatch: "dispatch calc_served add_request v = (add_response, Suc v)"
  using served_method [OF calc_generated_server add_in_calc, where b = builder and disp = "\<lambda>e. e" and impl = calc_impl]
  by (simp add: dispatch_def wire_method_name_def calc_trait_def serve_method_def decode_def encode_def
      ref_lib_def ref_val_decode_def ref_val_encode_def arg_def u8_type_def)

lemma ping_dispatch: "dispatch calc_served ping_request v = (Response \<lparr>rs_id = 0, rs_payload = [112]\<rparr>, Suc v)"
proof -
  have "calc_ping_method \<in> set (st_methods calc_trait)" by (simp add: calc_trait_def)
  from served_method [OF calc_generated_server this, where b = builder and disp = "\<lambda>e. e" and impl = calc_impl]
  show ?thesis
    by (simp add: dispatch_def wire_method_name_def calc_trait_def serve_method_def decode_def encode_def
        ref_lib_def ref_val_decode_def ref_val_encode_def u8_type_def)
qed

lemma calc_framed_requests:
  "framed ref_encode (Request add_request)" "framed ref_encode (fst (dispatch calc_served add_request v))"
  "framed ref_encode (Request ping_request)" "framed ref_encode (fst (dispatch calc_served ping_request v))"
  by (simp_all add: add_dispatch ping_dispatch ref_framed)

lemma calc_proxy_requests:
  "proxy_request ref_base ref_lib calc_trait (calc_add_method, [Val 10, Val 4]) add_request"
  "proxy_request ref_base ref_lib calc_trait (calc_ping_method, []) ping_request"
  by (simp_all add: proxy_request_def calc_trait_def arg_def ref_base_def expand_client_fn_def wire_method_name_def
      proxy_payload_def read_vars_def bindings_def encode_def ref_lib_def ref_val_encode_def)

lemma typed_u8: "typed ref_base v u8_type \<longleftrightarrow> (\<exists>b. v = Val b)"
  by (cases v) (auto simp: ref_base_def u8_type_def)

lemma calc_results_encode: "results_encode ref_base ref_lib calc_trait calc_impl"
  unfolding results_encode_def
proof (intro ballI allI impI)
  fix m args w assume m: "m \<in> set (st_methods calc_trait)" and args: "typed_list ref_base args (map arg_ty (m_args m))"
  from typed_list_length [OF args] have "length args = length (m_args m)" by simp
  with m args show "result_encodes ref_base ref_lib m (fst (calc_impl (m_ident m) args w))"
    by (auto simp: calc_trait_def arg_def result_encodes_def length_Suc_conv
        ref_base_def ref_lib_def ref_val_encode_def typed_u8)
qed

lemma calc_run_add:
  "((0, c), v) \<in> set (zip xs (fst (run_local calc_impl (map calc_calls_of xs) n))) \<Longrightarrow> v = Inr (Val 14)"
proof (induction xs arbitrary: n)
  case (Cons x xs)
  have "calc_impl (m_ident (fst (calc_calls_of x))) (snd (calc_calls_of x)) n
      = (if fst x = 0 then Inr (Val 14) else Inr (Val 112), Suc n)"
    by (simp add: calc_calls_of_def split: prod.splits)
  moreover obtain m args where "calc_calls_of x = (m, args)" by (cases "calc_calls_of x")
  moreover obtain vs k where "run_local calc_impl (map calc_calls_of xs) (Suc n) = (vs, k)"
    by (cases "run_local calc_impl (map calc_calls_of xs) (Suc n)")
  ultimately show ?case using Cons.prems Cons.IH [of "Suc n"] by (auto split: if_splits)
qed simp

end
