(* ===== verification/Any_Schedule.thy ===== *)
theory Any_Schedule
  imports Network_Props
begin

text \<open>
  Liveness without a chosen schedule. \<open>Network_Live\<close> finds steps that answer a waiting call; here every
  sequence of steps that move messages forward is bounded, can be continued until nothing moves any
  more, and leaves each waiting call with its answer when it has come to rest.
\<close>

section \<open>Hops\<close>

text \<open>A step that moves a message on; the other moving steps transport bytes.\<close>

fun hop :: "net_event \<Rightarrow> bool" where
  "hop (Carry_Up i) = False"
| "hop (Carry_Down i) = False"
| "hop l = moving l"

lemma hop_moving: "hop l \<Longrightarrow> moving l"
  by (cases l) simp_all

definition at_rest ::
  "(envelope \<Rightarrow> 'x + bytes) \<Rightarrow> (bytes \<Rightarrow> 'x + (envelope \<times> nat)) \<Rightarrow>
   ('s \<Rightarrow> bytes \<Rightarrow> ('x + bytes option) \<times> 's \<times> bytes) \<Rightarrow>
   ('s \<Rightarrow> bytes \<Rightarrow> bytes \<Rightarrow> ('x + unit) \<times> 's \<times> bytes) \<Rightarrow> (string \<rightharpoonup> 'w handler) \<Rightarrow> ('x, 's, 'w) net \<Rightarrow> bool" where
  "at_rest enc dec fdec fenc hs n \<longleftrightarrow>
     wire (n_up n) = [] \<and> wire (n_down n) = [] \<and> (\<forall>l m. hop l \<longrightarrow> \<not> net_step enc dec fdec fenc hs n l m)"

lemma client_frame_moves:
  "client_step (EvReaderFrame e) s = Some t \<Longrightarrow>
   reader s = RIdle \<and> reader_running (reader t) \<and> alive t = alive s \<and> calls t = calls s \<and> built t = built s \<and> writer t = writer s \<and> outbound t = outbound s"
  by (auto simp: reader_frame_def split: if_splits option.splits prod.splits)

lemma client_recv_moves:
  "client_step EvWriterRecv s = Some t \<Longrightarrow> alive s \<Longrightarrow> alive t \<and> reader t = reader s \<and> calls t = calls s \<and> built t = built s
     \<and> \<not> writer_stopped (writer t)
     \<and> 12 * length (outbound t) + 11 * length (in_writer (writer t)) < 12 * length (outbound s) + 11 * length (in_writer (writer s))"
  by (auto simp: Client.writer_recv_def split: writer_state.splits list.splits if_splits)

lemma deliver_moves:
  "client_step EvReaderDeliver s = Some t \<Longrightarrow> alive t = alive s \<and> reader t = RIdle \<and> reader s \<noteq> RIdle \<and> calls t = calls s
     \<and> built t = built s \<and> writer t = writer s \<and> outbound t = outbound s"
  by (auto simp: reader_deliver_def split: reader_state.splits)

lemma client_sent_moves:
  "client_step EvWriterSent s = Some t \<Longrightarrow> writer s = WSending e \<Longrightarrow> alive t = alive s \<and> reader t = reader s \<and> calls t = calls s
     \<and> built t = built s \<and> writer t = WIdle \<and> outbound t = outbound s"
  by (auto simp: Client.writer_sent_def)

context envelope_codec
begin

lemma pipe_pulled: "pipe_ok c (pipe_pull buf e p) \<Longrightarrow> length (got p) < length (put p)"
  using pipe_behind [of c "pipe_pull buf e p"] by (simp add: pipe_pull_def)

lemma work_moves:
  "conn_step hs s Work t \<Longrightarrow> queue t = queue s \<and> conn_writer t = conn_writer s \<and> dispatcher t = dispatcher s
     \<and> panicked t = panicked s \<and> discarded t = discarded s
     \<and> 9 * size (running t) + 8 * size (replying t) < 9 * size (running s) + 8 * size (replying s)"
  by (erule conn_step.cases) (auto simp: running_def replying_def)

lemma enqueue_moves:
  "conn_step hs s Enqueue t \<Longrightarrow> conn_writer t = conn_writer s \<and> dispatcher t = dispatcher s
     \<and> panicked t = panicked s \<and> discarded t = discarded s \<and> running t = running s
     \<and> 8 * size (replying t) + 7 * length (queue t) < 8 * size (replying s) + 7 * length (queue s)"
  by (erule conn_step.cases) (auto simp: running_def replying_def)

lemma server_recv_moves:
  "conn_step hs s WriterRecv t \<Longrightarrow> conn_writer s = SIdle \<and> conn_writer t \<noteq> SGone \<and> dispatcher t = dispatcher s \<and> workers t = workers s
     \<and> panicked t = panicked s \<and> discarded t = discarded s
     \<and> 7 * length (queue t) + 6 * length (in_flight (conn_writer t)) < 7 * length (queue s)"
  by (erule conn_step.cases) auto

lemma server_sent_moves:
  "conn_step hs s WriterSent t \<Longrightarrow> conn_writer t = SIdle \<and> dispatcher t = dispatcher s \<and> workers t = workers s
     \<and> panicked t = panicked s \<and> discarded t = discarded s \<and> queue t = queue s \<and> length (in_flight (conn_writer s)) = 1"
  by (erule conn_step.cases) auto

lemma server_frame_moves:
  "conn_step hs s (Frame e) t \<Longrightarrow> conn_writer t = conn_writer s \<and> dispatcher t = dispatcher s
     \<and> panicked t = panicked s \<and> discarded t = discarded s \<and> queue t = queue s \<and> replying t = replying s
     \<and> size (running t) \<le> Suc (size (running s))"
  by (erule frame_stepE) (auto simp: running_def replying_def)

lemma moving_step:
  assumes ok: "net_ok n" and healthy: "healthy n" "alive (n_client n)" and step: "nstep hs n l m" and l: "moving l"
  shows "healthy m \<and> alive (n_client m) \<and> calls (n_client m) = calls (n_client n) \<and> built (n_client m) = built (n_client n)
    \<and> distance m + (if hop l then 1 else 0) \<le> distance n"
  using step
proof cases
  case (client_local ev t)
  with l have "ev = EvWriterRecv \<or> ev = EvReaderDeliver" by simp
  with client_local healthy client_recv_moves [of "n_client n" t] deliver_moves [of "n_client n" t] show ?thesis
    by (elim disjE) (auto simp: distance_def healthy_def)
next
  case (client_send e k frame t)
  with client_sent_moves [OF client_send(5,3)] healthy pipe_behind [OF net_okD(1) [OF ok]] show ?thesis
    by (auto simp: distance_def healthy_def pipe_push_def)
next
  case (client_read e k buf t)
  from pipe_pulled [of k buf e "n_down n"] net_okD(2) [OF net_step_ok [OF step ok]] client_read(2)
  have "length (got (n_down n)) < length (put (n_down n))" by simp
  with client_read client_frame_moves [OF client_read(4)] healthy show ?thesis
    by (auto simp: distance_def healthy_def pipe_pull_def)
next
  case (server_local ev t log)
  with l have "ev = Work \<or> ev = Enqueue \<or> ev = WriterRecv" by simp
  with server_local(4) work_moves [of hs "n_server n" t] enqueue_moves [of hs "n_server n" t] server_recv_moves [of hs "n_server n" t]
  show ?thesis using healthy server_local(1,2)
    by (elim disjE) (auto simp: distance_def healthy_def running_def replying_def)
next
  case (server_send e k frame t)
  with server_sent_moves [OF server_send(5)] healthy pipe_behind [OF net_okD(2) [OF ok]] show ?thesis
    by (auto simp: distance_def healthy_def pipe_push_def running_def replying_def)
next
  case (server_read e k buf t)
  from pipe_pulled [of k buf e "n_up n"] net_okD(1) [OF net_step_ok [OF step ok]] server_read(2)
  have "length (got (n_up n)) < length (put (n_up n))" by simp
  with server_read server_frame_moves [OF server_read(4)] healthy show ?thesis
    by (auto simp: distance_def healthy_def pipe_pull_def)
qed (use l healthy in \<open>simp_all add: distance_def healthy_def pipe_carry_def\<close>)

lemma moving_exec:
  assumes "exec (nstep hs) n ms m" "\<forall>l \<in> set ms. moving l" "net_ok n" "healthy n" "alive (n_client n)"
  shows "net_ok m \<and> healthy m \<and> alive (n_client m) \<and> calls (n_client m) = calls (n_client n) \<and> built (n_client m) = built (n_client n)
    \<and> distance m + length (filter hop ms) \<le> distance n"
  using assms
proof (induction rule: exec.induct)
  case (exec_step ms t l u)
  then have t: "net_ok t" "healthy t" "alive (n_client t)" "calls (n_client t) = calls (n_client n)" "built (n_client t) = built (n_client n)"
    "distance t + length (filter hop ms) \<le> distance n" by auto
  from moving_step [OF t(1-3) exec_step.hyps(2)] exec_step.prems(1) t net_step_ok [OF exec_step.hyps(2) t(1)]
  show ?case by auto
qed simp

section \<open>Coming to rest\<close>

lemma rest_stays:
  assumes "exec (nstep hs) n ms m" "\<forall>l \<in> set ms. moving l" "at_rest encode_to_vec decode_from_slice frame_decode frame_encode hs n"
  shows "m = n"
  using assms
proof (induction rule: exec.induct)
  case (exec_step ms t l u)
  then have t: "t = n" and l: "moving l" by auto
  from exec_step.hyps(2) show ?case
    unfolding t
  proof cases
    case (carry_up i)
    with exec_step.prems(2) show ?thesis by (simp add: at_rest_def pipe_carry_def)
  next
    case (carry_down i)
    with exec_step.prems(2) show ?thesis by (simp add: at_rest_def pipe_carry_def)
  qed (use exec_step.prems(2) exec_step.hyps(2) l t in \<open>(auto simp: at_rest_def)\<close>)
qed simp

text \<open>All bytes can be carried over.\<close>

lemma carry_all:
  assumes "net_ok n" "healthy n" "alive (n_client n)"
  shows "\<exists>cs d. exec (nstep hs) n cs d \<and> (\<forall>l \<in> set cs. moving l) \<and> wire (n_up d) = [] \<and> wire (n_down d) = []
    \<and> net_ok d \<and> healthy d \<and> alive (n_client d) \<and> distance d \<le> distance n"
proof -
  let ?u = "n\<lparr>n_up := pipe_carry (length (wire (n_up n))) (n_up n)\<rparr>"
  let ?d = "?u\<lparr>n_down := pipe_carry (length (wire (n_down n))) (n_down n)\<rparr>"
  let ?cs = "[Carry_Up (length (wire (n_up n))), Carry_Down (length (wire (n_down n)))]"
  note up = net_step.carry_up [of encode_to_vec decode_from_slice frame_decode frame_encode hs n "length (wire (n_up n))"]
  note down = net_step.carry_down [of encode_to_vec decode_from_slice frame_decode frame_encode hs ?u "length (wire (n_down n))"]
  have d: "exec (nstep hs) n ?cs ?d"
    using exec.exec_step [of "nstep hs", OF exec_single [of "nstep hs", OF up] down] by simp
  moreover have "\<forall>l \<in> set ?cs. moving l" by simp
  moreover from moving_exec [OF d this assms] have
    "net_ok ?d \<and> healthy ?d \<and> alive (n_client ?d) \<and> distance ?d \<le> distance n" by linarith
  moreover have "wire (n_up ?d) = []" "wire (n_down ?d) = []" by (simp_all add: pipe_carry_def)
  ultimately show ?thesis by blast
qed

lemma can_come_to_rest:
  assumes "net_ok n" "healthy n" "alive (n_client n)"
  shows "\<exists>ms m. exec (nstep hs) n ms m \<and> (\<forall>l \<in> set ms. moving l)
    \<and> at_rest encode_to_vec decode_from_slice frame_decode frame_encode hs m"
  using assms
proof (induction "distance n" arbitrary: n rule: less_induct)
  case less
  from carry_all [OF less.prems] obtain cs d where d: "exec (nstep hs) n cs d" "\<forall>l \<in> set cs. moving l"
    "wire (n_up d) = []" "wire (n_down d) = []"
    and ok: "net_ok d" "healthy d" "alive (n_client d)" "distance d \<le> distance n" by blast
  show ?case
  proof (cases "\<exists>l m. hop l \<and> nstep hs d l m")
    case False
    with d show ?thesis unfolding at_rest_def by blast
  next
    case True
    then obtain l m where l: "hop l" "nstep hs d l m" by blast
    note moved = moving_step [OF ok(1-3) l(2) hop_moving [OF l(1)]]
    have less_m: "distance m < distance n" using moved l(1) ok(4) by simp
    from moved have "healthy m" "alive (n_client m)" by blast+
    from less.hyps [OF less_m net_step_ok [OF l(2) ok(1)] this] obtain ms k where
      k: "exec (nstep hs) m ms k" "\<forall>l \<in> set ms. moving l"
        "at_rest encode_to_vec decode_from_slice frame_decode frame_encode hs k" by blast
    from exec_trans [OF k(1) exec.exec_step [of "nstep hs", OF d(1) l(2)]] have "exec (nstep hs) n ((cs @ [l]) @ ms) k" .
    moreover have "\<forall>l \<in> set ((cs @ [l]) @ ms). moving l" using d(2) k(2) hop_moving [OF l(1)] by auto
    ultimately show ?thesis using k(3) by blast
  qed
qed

lemma woken_at_rest:
  assumes n: "exec (nstep hs) (nstart w) ls n" "few_calls ls" "healthy n" "messages_fit encode_to_vec hs n"
    and rest: "at_rest encode_to_vec decode_from_slice frame_decode frame_encode hs n"
    and c: "calls (n_client n) c = Awaiting i g"
  shows "chans (n_client n) c \<noteq> Empty"
proof
  assume "chans (n_client n) c = Empty"
  from waiting_call_advances [OF n c this] obtain m ms where
    "exec (nstep hs) n ms m" "\<forall>l \<in> set ms. moving l" "distance m < distance n" unfolding advances_def by blast
  with rest_stays [OF _ _ rest] show False by blast
qed

lemma any_schedule:
  assumes n: "exec (nstep hs) (nstart w) ls n" "few_calls ls" "healthy n" "messages_fit encode_to_vec hs n" "alive (n_client n)"
    and ms: "exec (nstep hs) n ms m" "\<forall>l \<in> set ms. moving l"
  shows "length (filter hop ms) \<le> distance n
    \<and> (\<exists>ms' m'. exec (nstep hs) m ms' m' \<and> (\<forall>l \<in> set ms'. moving l)
        \<and> at_rest encode_to_vec decode_from_slice frame_decode frame_encode hs m')
    \<and> (at_rest encode_to_vec decode_from_slice frame_decode frame_encode hs m \<longrightarrow>
        (\<forall>c i g. calls (n_client n) c = Awaiting i g \<longrightarrow>
          (\<exists>t r. client_step (EvRecv c) (n_client m) = Some t \<and> calls t c = Finished r \<and> r \<noteq> Inl Closed
            \<and> r_reply (rpc_view m) c = Some r)))"
proof -
  from moving_exec [OF ms net_exec_ok [OF n(1)] n(3,5)] have m: "net_ok m" "healthy m" "alive (n_client m)"
    "calls (n_client m) = calls (n_client n)" "built (n_client m) = built (n_client n)"
    "length (filter hop ms) \<le> distance n" by auto
  have reach: "exec (nstep hs) (nstart w) (ls @ ms) m" "few_calls (ls @ ms)"
    using exec_trans [OF ms(1) n(1)] n(2) by (simp_all add: moving_few_calls [OF ms(2)])
  have fit: "messages_fit encode_to_vec hs m" using n(4) by (simp add: messages_fit_def m(5))
  have "\<exists>t r. client_step (EvRecv c) (n_client m) = Some t \<and> calls t c = Finished r \<and> r \<noteq> Inl Closed
      \<and> r_reply (rpc_view m) c = Some r"
    if rest: "at_rest encode_to_vec decode_from_slice frame_decode frame_encode hs m" and c: "calls (n_client n) c = Awaiting i g"
    for c i g
  proof -
    have c': "calls (n_client m) c = Awaiting i g" by (simp add: m(4) c)
    from woken_call_receives [OF reach m(2) c' woken_at_rest [OF reach m(2) fit rest c']] obtain t r where
      "client_step (EvRecv c) (n_client m) = Some t" "calls t c = Finished r" "r \<noteq> Inl Closed"
      "r_reply (rpc_view (m\<lparr>n_client := t\<rparr>)) c = Some r" "built t = built (n_client m)" by blast
    then show ?thesis by (auto simp: rpc_view_def)
  qed
  with m(6) can_come_to_rest [OF m(1-3)] show ?thesis by blast
qed

end

text \<open>
  Every schedule answers. Take any reachable state of a connection whose client has not been
  dropped and runs both tasks, whose server end reads and whose writer works, on which no worker panicked, and whose requests and
  their answers fit in a frame. Then however the scheduler and the network order the steps that move
  messages, at most \<open>distance\<close> of them can be taken; the connection can always come to rest, with no byte
  on the wire and no message to move; and once it has come to rest, in whatever way it did, each call
  that was waiting can receive the reply of its own request.
\<close>

lemma every_schedule_answers:
  assumes "envelope_codec enc dec new_codec fdec fenc max_frame held"
    and "exec (net_step enc dec fdec fenc hs) (net_start new_codec w) ls n" and "few_calls ls"
    and "healthy n" and "messages_fit enc hs n" and "alive (n_client n)"
    and "exec (net_step enc dec fdec fenc hs) n ms m" and "\<forall>l \<in> set ms. moving l"
  shows "length (filter hop ms) \<le> distance n
    \<and> (\<exists>ms' m'. exec (net_step enc dec fdec fenc hs) m ms' m' \<and> (\<forall>l \<in> set ms'. moving l)
        \<and> at_rest enc dec fdec fenc hs m')
    \<and> (at_rest enc dec fdec fenc hs m \<longrightarrow>
        (\<forall>c i g. calls (n_client n) c = Awaiting i g \<longrightarrow>
          (\<exists>t r. client_step (EvRecv c) (n_client m) = Some t \<and> calls t c = Finished r \<and> r \<noteq> Inl Closed
            \<and> r_reply (rpc_view m) c = Some r)))"
  by (rule envelope_codec.any_schedule [OF assms])

lemma every_schedule_answers_witness:
  "\<exists>(m :: (string, framing, nat) net) t r. at_rest ref_encode ref_decode ref_frame_decode ref_frame_encode echo_server m
     \<and> client_step (EvRecv 3) (n_client m) = Some t \<and> calls t 3 = Finished r \<and> r \<noteq> Inl Closed"
proof -
  obtain n :: "(string, framing, nat) net" where n: "exec (ref_net_step echo_server) echo_start (map Client_Local (one_call 3 ''echo'' [7, 8])) n"
    "calls (n_client n) 3 = Awaiting 0 (guard_new 0)" "healthy n" "built (n_client n) = [3 \<mapsto> echo_request]"
    using one_call_waits [of ref_encode ref_decode ref_frame_decode ref_frame_encode echo_server ref_new_codec 0 3 "''echo''" "[7, 8]"]
    by blast
  have few: "few_calls (map Client_Local (one_call 3 ''echo'' [7, 8]))" by (simp add: few_calls_def one_call_def)
  have fit: "messages_fit ref_encode echo_server n" using echo_framed by (auto simp: messages_fit_def n(4))
  have "alive (n_client n)"
    using arg_cong [OF net_exec_client [OF n(1)], of "map_option alive"] by (simp add: one_call_def client_eval)
  note here = every_schedule_answers [OF ref_envelope_codec n(1) few n(3) fit this]
  from here [OF exec.exec_none] obtain ms m where m: "exec (ref_net_step echo_server) n ms m" "\<forall>l \<in> set ms. moving l"
    "at_rest ref_encode ref_decode ref_frame_decode ref_frame_encode echo_server m" by auto
  from here [OF m(1,2)] m(3) n(2) show ?thesis by blast
qed

end
