(* ===== verification/Shared_Schedule.thy ===== *)
theory Shared_Schedule
  imports Shared_Props Any_Schedule
begin

text \<open>
  Liveness without a chosen schedule, on a server with other connections. Callers of the connection
  considered go on making, sending and dropping calls; whatever the scheduler, the network and the
  other connections do in between, the connection takes a bounded number of hops for each request sent,
  can come to rest, and leaves every waiting call with its answer once it has.
\<close>

section \<open>A connection in use\<close>

text \<open>What the callers of a connection do, and a read that finds no complete frame.\<close>

fun callers :: "event \<Rightarrow> bool" where
  "callers (EvCall c m p) = True"
| "callers (EvFetchAdd c) = True"
| "callers (EvInsert c) = True"
| "callers (EvSend c) = True"
| "callers (EvRecv c) = True"
| "callers (EvDrop c) = True"
| "callers _ = False"

fun calm :: "net_event \<Rightarrow> bool" where
  "calm (Client_Local ev) = (moving (Client_Local ev) \<or> callers ev)"
| "calm Client_Wait = True"
| "calm Server_Wait = True"
| "calm l = moving l"

lemma moving_calm: "moving l \<Longrightarrow> calm l"
  by (cases l) auto

fun submits :: "net_event \<Rightarrow> bool" where
  "submits (Client_Local (EvSend c)) = True"
| "submits _ = False"

lemma callers_kept:
  assumes "client_step ev s = Some t" "callers ev" "writer s \<noteq> WGone"
  shows "alive t = alive s \<and> writer t = writer s \<and> reader t = reader s
    \<and> length (outbound t) \<le> length (outbound s) + (if submits (Client_Local ev) then 1 else 0)"
  using assms
  by (cases ev) (auto simp: client_eval call_end_def split: call_state.splits if_splits prod.splits oneshot.splits)

text \<open>The state of the service plays no part.\<close>

lemma distance_with [simp]: "distance (net_with v n) = distance n"
  by (simp add: distance_def running_def replying_def)

text \<open>No byte of the connection is on the wire, and none of its messages can move.\<close>

definition conn_rests ::
  "(envelope \<Rightarrow> 'x + bytes) \<Rightarrow> (bytes \<Rightarrow> 'x + (envelope \<times> nat)) \<Rightarrow> (nat \<Rightarrow> 's) \<Rightarrow>
   ('s \<Rightarrow> bytes \<Rightarrow> ('x + bytes option) \<times> 's \<times> bytes) \<Rightarrow>
   ('s \<Rightarrow> bytes \<Rightarrow> bytes \<Rightarrow> ('x + unit) \<times> 's \<times> bytes) \<Rightarrow> (string \<rightharpoonup> 'w handler) \<Rightarrow>
   ('x, 's, 'w) host \<Rightarrow> nat \<Rightarrow> ('x, 's, 'w) net \<Rightarrow> bool" where
  "conn_rests enc dec new_codec fdec fenc hs s k n \<longleftrightarrow>
     h_conns s k = Some n \<and> wire (n_up n) = [] \<and> wire (n_down n) = []
     \<and> (\<forall>l t. hop l \<longrightarrow> \<not> host_step enc dec new_codec fdec fenc hs s (On k l) t)"

lemma accepted_kept:
  "exec (host_step enc dec new_codec fdec fenc hs) s ls t \<Longrightarrow> h_accepted s \<subseteq> h_accepted t"
proof (induction rule: exec.induct)
  case (exec_step ls t l u)
  from exec_step.hyps(2) exec_step.IH show ?case by cases auto
qed simp

context envelope_codec
begin

lemma net_ok_with [simp]: "net_ok (net_with v n) = net_ok n"
  by (simp add: net_ok_def)

lemma calm_step:
  assumes ok: "net_ok n" and healthy: "healthy n" "alive (n_client n)" and step: "nstep hs n l m" and l: "calm l"
  shows "healthy m \<and> alive (n_client m)
    \<and> distance m + (if hop l then 1 else 0) \<le> distance n + (if submits l then 12 else 0)"
proof (cases "moving l")
  case True
  from moving_step [OF ok healthy step True] show ?thesis by auto
next
  case False
  from step show ?thesis
  proof cases
    case (client_local ev t)
    with l False have ev: "callers ev" by simp
    have "writer (n_client n) \<noteq> WGone" using healthy(1) by (auto simp: healthy_def)
    from callers_kept [OF client_local(4) ev this] client_local healthy False show ?thesis
      by (auto simp: distance_def healthy_def split: if_splits dest: hop_moving)
  qed (use l False healthy in \<open>simp_all add: distance_def healthy_def pipe_keep_def\<close>)
qed

lemma host_conn_ok:
  assumes "exec (hstep hs) (host_start w) ls s"
    and "h_conns s k = Some n"
  shows "net_ok n"
proof -
  from conn_alone [OF assms, of "[]"] obtain f v where
    "exec (nstep (foreseen hs)) (nstart f) (on_conn k ls) (net_with (v, []) n)" by blast
  from net_exec_ok [OF this] show ?thesis by simp
qed

lemma calm_exec:
  assumes s: "exec (hstep hs) (host_start w) ls s"
    and n: "h_conns s k = Some n" "healthy n" "alive (n_client n)"
    and t: "exec (hstep hs) s ls' t"
    and calm: "\<forall>l \<in> set (on_conn k ls'). calm l"
  shows "\<exists>m. h_conns t k = Some m \<and> healthy m \<and> alive (n_client m)
    \<and> length (filter hop (on_conn k ls')) + distance m \<le> distance n + 12 * length (filter submits (on_conn k ls'))"
  using t calm
proof (induction rule: exec.induct)
  case exec_none
  with n show ?case by simp
next
  case (exec_step ls' t l u)
  then obtain m where m: "h_conns t k = Some m" "healthy m" "alive (n_client m)"
    "length (filter hop (on_conn k ls')) + distance m \<le> distance n + 12 * length (filter submits (on_conn k ls'))" by auto
  from exec_step.hyps(2) show ?case
  proof cases
    case (host_on j n' l' m')
    show ?thesis
    proof (cases "j = k")
      case True
      have ok: "net_ok (net_with (h_world t) m)" using host_conn_ok [OF exec_trans [OF exec_step.hyps(1) s] m(1)] by simp
      have "nstep hs (net_with (h_world t) m) l' m'" "calm l'"
        using host_on(3,5) m(1) exec_step.prems by (simp_all add: host_on(1) True)
      from calm_step [OF ok _ _ this] m host_on show ?thesis by (auto simp: True)
    next
      case False
      with host_on m show ?thesis by simp
    qed
  qed (use m in auto)
qed

text \<open>A connection at rest among others is at rest alone, with foreseeing handlers too.\<close>

lemma rests_alone:
  assumes "conn_rests encode_to_vec decode_from_slice new_codec frame_decode frame_encode hs s k n"
    and "k \<in> h_accepted s" "foreseen_state f = h_world s"
  shows "at_rest encode_to_vec decode_from_slice frame_decode frame_encode (foreseen hs) (net_with f n)"
  unfolding at_rest_def
proof (intro conjI allI impI notI)
  fix l u assume l: "hop l" and step: "nstep (foreseen hs) (net_with f n) l u"
  from net_step_unforeseen [OF step] assms(3) obtain m where "nstep hs (net_with (h_world s) n) l m" by metis
  moreover have "h_conns s k = Some n" using assms(1) by (simp add: conn_rests_def)
  ultimately have "hstep hs s (On k l) (s\<lparr>h_world := world (n_server m), h_conns := (h_conns s)(k \<mapsto> m)\<rparr>)"
    using assms(2) by (intro host_step.host_on) simp_all
  with assms(1) l show False unfolding conn_rests_def by blast
qed (use assms(1) in \<open>simp_all add: conn_rests_def\<close>)

lemma rested_call_receives:
  assumes s: "exec (hstep hs) (host_start w) ls s" "few_calls_each ls"
    and rest: "conn_rests encode_to_vec decode_from_slice new_codec frame_decode frame_encode hs s k n" "k \<in> h_accepted s"
    and ok: "healthy n" "messages_fit encode_to_vec hs n" and c: "calls (n_client n) c = Awaiting i g"
  shows "\<exists>t r. client_step (EvRecv c) (n_client n) = Some t \<and> calls t c = Finished r \<and> r \<noteq> Inl Closed
    \<and> r_reply (rpc_view n) c = Some r"
proof -
  have n: "h_conns s k = Some n" using rest(1) by (simp add: conn_rests_def)
  from conn_alone [OF s(1) n] obtain f v where
    alone: "exec (nstep (foreseen hs)) (nstart f) (on_conn k ls) (net_with (v, [h_world s]) n)" by blast
  let ?n = "net_with (v, [h_world s]) n"
  have few: "few_calls (on_conn k ls)" using s(2) by (rule few_calls_eachD)
  have ok': "healthy ?n" "messages_fit encode_to_vec (foreseen hs) ?n" "calls (n_client ?n) c = Awaiting i g"
    using ok c by (simp_all add: messages_fit_foreseen)
  from rests_alone [OF rest, of "(v, [h_world s])"] have
    "at_rest encode_to_vec decode_from_slice frame_decode frame_encode (foreseen hs) ?n" by simp
  from woken_call_receives [OF alone few ok'(1,3) woken_at_rest [OF alone few ok'(1,2) this ok'(3)]] obtain t r where
    t: "client_step (EvRecv c) (n_client n) = Some t" "calls t c = Finished r" "r \<noteq> Inl Closed"
      "r_reply (rpc_view (?n\<lparr>n_client := t\<rparr>)) c = Some r" "built t = built (n_client n)" by auto
  then have "r_reply (rpc_view n) c = Some r" by (simp add: rpc_view_def)
  with t(1-3) show ?thesis by blast
qed

lemma conn_comes_to_rest:
  assumes s: "exec (hstep hs) (host_start w) ls s"
    and n: "h_conns s k = Some n" "k \<in> h_accepted s" "healthy n" "alive (n_client n)"
  shows "\<exists>ms t m. exec (hstep hs) s (map (On k) ms) t \<and> (\<forall>l \<in> set ms. moving l)
    \<and> conn_rests encode_to_vec decode_from_slice new_codec frame_decode frame_encode hs t k m
    \<and> calls (n_client m) = calls (n_client n) \<and> built (n_client m) = built (n_client n)"
proof -
  let ?n = "net_with (h_world s) n"
  have "net_ok ?n" "healthy ?n" "alive (n_client ?n)" using host_conn_ok [OF s n(1)] n(3,4) by simp_all
  note here = this
  from can_come_to_rest [OF here] obtain ms m where m: "exec (nstep hs) ?n ms m" "\<forall>l \<in> set ms. moving l"
    "at_rest encode_to_vec decode_from_slice frame_decode frame_encode hs m" by blast
  from host_runs_conn [OF m(1) n(1)] n(2) obtain t n' where
    t: "exec (hstep hs) s (map (On k) ms) t" "h_conns t = (h_conns s)(k \<mapsto> n')" "m = net_with (h_world t) n'" by blast
  have "conn_rests encode_to_vec decode_from_slice new_codec frame_decode frame_encode hs t k n'"
    unfolding conn_rests_def using m(3) t(2) by (auto simp: at_rest_def t(3) elim!: host_onE)
  with moving_exec [OF m(1,2) here] m(2) t(1,3) show ?thesis by (metis net_with_simps(1))
qed

lemma any_schedule_on_server:
  assumes s: "exec (hstep hs) (host_start w) ls s"
    and n: "h_conns s k = Some n" "k \<in> h_accepted s" "healthy n" "alive (n_client n)"
    and t: "exec (hstep hs) s ls' t" "few_calls_each (ls @ ls')" and calm: "\<forall>l \<in> set (on_conn k ls'). calm l"
    and m: "h_conns t k = Some m"
  shows "length (filter hop (on_conn k ls')) + distance m \<le> distance n + 12 * length (filter submits (on_conn k ls'))
    \<and> (\<exists>ms u m'. exec (hstep hs) t (map (On k) ms) u \<and> (\<forall>l \<in> set ms. moving l)
        \<and> conn_rests encode_to_vec decode_from_slice new_codec frame_decode frame_encode hs u k m'
        \<and> calls (n_client m') = calls (n_client m) \<and> built (n_client m') = built (n_client m))
    \<and> (conn_rests encode_to_vec decode_from_slice new_codec frame_decode frame_encode hs t k m \<and> messages_fit encode_to_vec hs m \<longrightarrow>
        (\<forall>c i g. calls (n_client m) c = Awaiting i g \<longrightarrow>
          (\<exists>u r. client_step (EvRecv c) (n_client m) = Some u \<and> calls u c = Finished r \<and> r \<noteq> Inl Closed
            \<and> r_reply (rpc_view m) c = Some r)))"
proof -
  from calm_exec [OF s n(1,3,4) t(1) calm] m have M: "healthy m" "alive (n_client m)"
    "length (filter hop (on_conn k ls')) + distance m \<le> distance n + 12 * length (filter submits (on_conn k ls'))" by auto
  note reach = exec_trans [OF t(1) s] and accepted = subsetD [OF accepted_kept [OF t(1)] n(2)]
  from M(3) conn_comes_to_rest [OF reach m accepted M(1,2)] rested_call_receives [OF reach t(2) _ accepted M(1)]
  show ?thesis by blast
qed

end
text \<open>
  C4. Every schedule answers, on a server with other connections. Take any reachable state of a server
  and a connection of it that has been accepted, whose client has not been dropped and runs both tasks,
  whose server end reads and whose writer works, and on which no worker panicked and no answer was
  discarded. Let anything happen, except that on this connection only its callers act and messages
  move: other connections connect, send, fail, panic and are torn down as they like, and the accept
  loop may return. Then, however these steps are ordered, the messages of the connection make at most
  \<open>distance\<close> hops and twelve more for each request sent meanwhile; by steps of its own the connection
  can come to rest with every call where it was; and once it is at rest, in whatever way it got there,
  and its requests and their answers fit in a frame, each waiting call can receive the reply of its own
  request.
\<close>

theorem every_schedule_answers_on_server:
  assumes "envelope_codec enc dec new_codec fdec fenc max_frame held"
    and "exec (host_step enc dec new_codec fdec fenc hs) (host_start w) ls s"
    and "h_conns s k = Some n" and "k \<in> h_accepted s" and "healthy n" and "alive (n_client n)"
    and "exec (host_step enc dec new_codec fdec fenc hs) s ls' t" and "few_calls_each (ls @ ls')"
    and "\<forall>l \<in> set (on_conn k ls'). calm l" and "h_conns t k = Some m"
  shows "length (filter hop (on_conn k ls')) + distance m \<le> distance n + 12 * length (filter submits (on_conn k ls'))
    \<and> (\<exists>ms u m'. exec (host_step enc dec new_codec fdec fenc hs) t (map (On k) ms) u \<and> (\<forall>l \<in> set ms. moving l)
        \<and> conn_rests enc dec new_codec fdec fenc hs u k m'
        \<and> calls (n_client m') = calls (n_client m) \<and> built (n_client m') = built (n_client m))
    \<and> (conn_rests enc dec new_codec fdec fenc hs t k m \<and> messages_fit enc hs m \<longrightarrow>
        (\<forall>c i g. calls (n_client m) c = Awaiting i g \<longrightarrow>
          (\<exists>u r. client_step (EvRecv c) (n_client m) = Some u \<and> calls u c = Finished r \<and> r \<noteq> Inl Closed
            \<and> r_reply (rpc_view m) c = Some r)))"
  by (rule envelope_codec.any_schedule_on_server [OF assms])

theorem every_schedule_answers_on_server_witness:
  "\<exists>(t :: (string, framing, nat) host) m u r. h_conns t 5 = Some m \<and> calls (n_client m) 3 = Awaiting 0 (guard_new 0)
     \<and> client_step (EvRecv 3) (n_client m) = Some u \<and> calls u 3 = Finished r \<and> r \<noteq> Inl Closed"
proof -
  let ?init = "host_start 0 :: (string, framing, nat) host"
  let ?n = "net_start ref_new_codec 0 :: (string, framing, nat) net"
  let ?s = "?init\<lparr>h_conns := [5 \<mapsto> ?n], h_accepted := {5}\<rparr>"
  let ?call = "map Client_Local (one_call 3 ''echo'' [7, 8])"
  have s: "exec (ref_host_step echo_server) ?init [Connect 5, Accept 5] ?s"
    using client_opens [of ?init 5 ref_encode ref_decode ref_new_codec ref_frame_decode ref_frame_encode echo_server]
    by (simp add: host_start_def)
  have fresh: "h_conns ?s 5 = Some ?n" "5 \<in> h_accepted ?s" "healthy ?n" "alive (n_client ?n)"
    by (simp_all add: healthy_def net_start_def from_stream_def open_conn_def)
  obtain n :: "(string, framing, nat) net" where n: "exec (ref_net_step echo_server) ?n ?call n"
    "calls (n_client n) 3 = Awaiting 0 (guard_new 0)" "built (n_client n) = [3 \<mapsto> echo_request]"
    using one_call_waits [of ref_encode ref_decode ref_frame_decode ref_frame_encode echo_server ref_new_codec 0 3 "''echo''" "[7, 8]"]
    by blast
  have "net_with (h_world ?s) ?n = ?n" by (simp add: net_with_start host_start_def)
  with n(1) have "exec (ref_net_step echo_server) (net_with (h_world ?s) ?n) ?call n" by simp
  from host_runs_conn [OF this fresh(1)] fresh(2) obtain t m where
    t: "exec (ref_host_step echo_server) ?s (map (On 5) ?call) t" "h_conns t = (h_conns ?s)(5 \<mapsto> m)" "n = net_with (h_world t) m"
    by blast
  have few: "few_calls_each ([Connect 5, Accept 5] @ map (On 5) ?call @ map (On 5) ms)"
    if "\<forall>l \<in> set ms. moving l" for ms
    using moving_few_calls [OF that, of ?call] by (simp add: few_calls_each_def) (simp add: few_calls_def one_call_def)
  have calm: "\<forall>l \<in> set (on_conn 5 (map (On 5) ?call @ map (On 5) ms)). calm l" if "\<forall>l \<in> set ms. moving l" for ms
    using that by (auto simp: one_call_def intro: moving_calm)
  note here = every_schedule_answers_on_server [OF ref_envelope_codec s fresh]
  have tm: "h_conns t 5 = Some m" by (simp add: t(2))
  have "few_calls_each ([Connect 5, Accept 5] @ map (On 5) ?call)" "\<forall>l \<in> set (on_conn 5 (map (On 5) ?call)). calm l"
    using few [of "[]"] calm [of "[]"] by simp_all
  from here [OF t(1) this tm] obtain ms u m' where
    u: "exec (ref_host_step echo_server) t (map (On 5) ms) u" "\<forall>l \<in> set ms. moving l"
      "conn_rests ref_encode ref_decode ref_new_codec ref_frame_decode ref_frame_encode echo_server u 5 m'"
      "calls (n_client m') = calls (n_client m)" "built (n_client m') = built (n_client m)" by blast
  have m': "calls (n_client m') 3 = Awaiting 0 (guard_new 0)" "built (n_client m') = [3 \<mapsto> echo_request]"
    using n(2,3) u(4,5) by (simp_all add: t(3))
  have fit: "messages_fit ref_encode echo_server m'" using echo_framed by (auto simp: messages_fit_def m'(2))
  have on: "h_conns u 5 = Some m'" using u(3) by (simp add: conn_rests_def)
  from here [OF exec_trans [OF u(1) t(1)] few [OF u(2)] calm [OF u(2)] on] u(3) fit m'(1) on show ?thesis by blast
qed

end
