(* ===== verification/Shared_Conn.thy ===== *)
theory Shared_Conn
  imports Shared_Props Closed_Calls Any_Schedule
begin

text \<open>
  What holds on each connection of a server, whatever happens on the others: its streams are never
  misread, its calls return their handler's replies for as long as it lasts, and a handler that panicked
  or a send that failed strands the callers that wait for the answers.
\<close>



text \<open>
  C7. As long as a connection lasts, every call on it that returns has the server's answer. Take an
  execution of a server and a connection of it on which the client's reader meets neither the end of the
  stream nor an error, no send of the client fails and the client is not dropped, whatever else happens
  on either side and on the other connections. Then a call that has finished returned what the handler
  of its method computed for the payload it was given, or the 404 of an unknown method; and once no
  call is in flight the client has no pending entry.
\<close>

theorem replies_while_connected_on_server:
  assumes "envelope_codec enc dec new_codec fdec fenc max_frame held"
    and "exec (host_step enc dec new_codec fdec fenc hs) (host_start w) ls (s :: ('x, 's, 'w) host)" and "few_calls_each ls"
    and "h_conns s k = Some n" and "lasting (on_conn k ls)"
  shows "(\<forall>c r. calls (n_client n) c = Finished r \<longrightarrow> r \<noteq> Inl Closed
      \<and> (\<exists>m p v. EvCall c m p \<in> set (client_side (on_conn k ls)) \<and> r = fst (handle hs m p v)))
    \<and> ((\<forall>c. slot (calls (n_client n) c) = None) \<longrightarrow> pending_count (n_client n) = 0)"
proof -
  from conn_alone [OF assms(2,4), of "[]"] obtain f v where
    alone: "exec (net_step enc dec fdec fenc (foreseen hs)) (net_start new_codec f) (on_conn k ls) (net_with (v, []) n)" by blast
  have "fst (handle (foreseen hs) m p g) = (fst (handle hs m p (foreseen_state g)) :: 'x patina_error + bytes)" for m p and g :: "'w foresight"
    by (simp add: handle_foreseen split: prod.splits)
  with replies_while_connected [OF assms(1) alone few_calls_eachD [OF assms(3)] assms(5)] show ?thesis
    by (metis net_with_simps(1))
qed

theorem replies_while_connected_on_server_witness:
  "\<exists>ls (s :: (string, framing, nat) host) n m p v. exec (ref_host_step echo_server) (host_start 0) ls s \<and> h_conns s 5 = Some n
     \<and> lasting (on_conn 5 ls) \<and> calls (n_client n) 3 = Finished (fst (handle echo_server m p v))
     \<and> EvCall 3 m p \<in> set (client_side (on_conn 5 ls))"
proof -
  obtain ls r and n :: "(string, framing, nat) net" and ms where n: "exec (ref_net_step echo_server) echo_start ls n"
    "few_calls ls" "calls (n_client n) 3 = Finished r"
    and ls: "ls = map Client_Local (one_call 3 ''echo'' [7, 8]) @ ms @ [Client_Local (EvRecv 3)]" "\<forall>l \<in> set ms. moving l"
    using one_call_completes [OF ref_envelope_codec echo_framed, of 0 3] by blast
  from single_client [OF n(1), of 5] obtain s n' where s:
    "exec (ref_host_step echo_server) (host_start 0) ([Connect 5, Accept 5] @ map (On 5) ls) s"
    "h_conns s 5 = Some n'" "n = net_with (h_world s) n'" by blast
  have "lasting ls" using one_call_lasting [OF ls(2)] ls(1) by simp
  then have "lasting (on_conn 5 ([Connect 5, Accept 5] @ map (On 5) ls))" by simp
  note lasts = this and here = replies_while_connected_on_server [OF ref_envelope_codec s(1) iffD2 [OF few_calls_joining n(2)] s(2) this]
  have "calls (n_client n') 3 = Finished r" using s(3) n(3) by simp
  with here s(1,2) lasts show ?thesis by blast
qed

text \<open>
  C9. A handler that panics strands its caller. Once the worker of a request has panicked on some
  connection, in every state that follows the call that built the request has no reply: it can only end
  as \<open>Closed\<close>, and while the reader of its client has not ended it cannot end by itself at all, although
  the connection and the server go on. The server sends no error in place of the answer.
\<close>

theorem panicked_handler_strands_call_on_server:
  assumes "envelope_codec enc dec new_codec fdec fenc max_frame held"
    and "exec (host_step enc dec new_codec fdec fenc hs) (host_start w) ls s" and "few_calls_each ls"
    and "h_conns s k = Some n" and "q \<in># panicked (n_server n)" and "built (n_client n) c = Some q"
  shows "r_reply (rpc_view n) c = None
    \<and> (\<forall>r. calls (n_client n) c = Finished r \<longrightarrow> r = Inl Closed)
    \<and> (\<forall>i g. calls (n_client n) c = Awaiting i g \<and> reader (n_client n) \<noteq> RGone \<longrightarrow>
          client_step (EvRecv c) (n_client n) = None)"
proof -
  from conn_alone [OF assms(2,4), of "[]"] obtain f v where
    alone: "exec (net_step enc dec fdec fenc (foreseen hs)) (net_start new_codec f) (on_conn k ls) (net_with (v, []) n)" by blast
  from panicked_handler_strands_call [OF assms(1) alone few_calls_eachD [OF assms(3)], of q c] assms(5,6)
  show ?thesis by (simp add: r_reply_with)
qed

theorem panicked_handler_strands_call_on_server_witness:
  "\<exists>ls (s :: (string, framing, nat) host) n c. exec (ref_host_step echo_server) (host_start 0) ls s \<and> h_conns s 5 = Some n
     \<and> echo_request \<in># panicked (n_server n) \<and> built (n_client n) c = Some echo_request \<and> r_reply (rpc_view n) c = None"
proof -
  obtain ls c and n :: "(string, framing, nat) net" where n: "exec (ref_net_step echo_server) echo_start ls n" "few_calls ls"
    "echo_request \<in># panicked (n_server n)" "built (n_client n) c = Some echo_request"
    using panicked_echo by blast
  from single_client [OF n(1), of 5] obtain s n' where s:
    "exec (ref_host_step echo_server) (host_start 0) ([Connect 5, Accept 5] @ map (On 5) ls) s"
    "h_conns s 5 = Some n'" "n = net_with (h_world s) n'" by blast
  have "echo_request \<in># panicked (n_server n')" "built (n_client n') c = Some echo_request" using s(3) n(3,4) by simp_all
  with panicked_handler_strands_call_on_server [OF ref_envelope_codec s(1) iffD2 [OF few_calls_joining n(2)] s(2)] s(1,2)
  show ?thesis by blast
qed

text \<open>A writer that has ended writes nothing more, whatever the server goes on to do.\<close>

lemma host_writer_gone:
  assumes "exec (host_step enc dec new_codec fdec fenc hs) s ls t"
    and "h_conns s k = Some n" "conn_writer (n_server n) = SGone"
  shows "\<exists>m. h_conns t k = Some m \<and> conn_writer (n_server m) = SGone \<and> written (n_server m) = written (n_server n)"
  using assms(1)
proof (induction rule: exec.induct)
  case exec_none
  with assms(2,3) show ?case by simp
next
  case (exec_step ls t l u)
  then obtain m where m: "h_conns t k = Some m" "conn_writer (n_server m) = SGone" "written (n_server m) = written (n_server n)"
    by blast
  from exec_step.hyps(2) show ?case
  proof cases
    case (host_on j n' l' m')
    show ?thesis
    proof (cases "j = k")
      case True
      with host_on m have "net_step enc dec fdec fenc hs (net_with (h_world t) m) l' m'" by simp
      from exec_writer_gone [OF net_step_server [OF this]] m host_on show ?thesis by (simp add: True)
    qed (use host_on m in simp)
  qed (use m in auto)
qed

text \<open>
  C10. A failed send loses every answer not yet written. Once the writer task of a connection has ended,
  for instance because an answer was larger than the frame cap, then in every state that follows a call
  on it whose answer had not been written, or that is only made later, can only end as \<open>Closed\<close>, and
  while the reader of its client has not ended it cannot end by itself at all. Nothing tells the client:
  the dispatch loop goes on reading, and the call may well have been executed.
\<close>

theorem lost_answers_strand_calls:
  assumes "envelope_codec enc dec new_codec fdec fenc max_frame held"
    and "exec (host_step enc dec new_codec fdec fenc hs) (host_start w) ls s"
    and "h_conns s k = Some n" and "conn_writer (n_server n) = SGone"
    and "exec (host_step enc dec new_codec fdec fenc hs) s ls' t" and "few_calls_each (ls @ ls')"
    and "h_conns t k = Some m" and "built (n_client m) c = Some q"
    and "\<forall>e \<in> set (written (n_server n)). reply_id e \<noteq> Some (rq_id q)"
  shows "(\<forall>r. calls (n_client m) c = Finished r \<longrightarrow> r = Inl Closed)
    \<and> (\<forall>i g. calls (n_client m) c = Awaiting i g \<and> reader (n_client m) \<noteq> RGone \<longrightarrow>
          client_step (EvRecv c) (n_client m) = None)"
proof -
  from conn_alone [OF exec_trans [OF assms(5,2)] assms(7), of "[]"] obtain f v where alone:
    "exec (net_step enc dec fdec fenc (foreseen hs)) (net_start new_codec f) (on_conn k (ls @ ls')) (net_with (v, []) m)" by blast
  from host_writer_gone [OF assms(5,3,4)] assms(7,9) have
    "\<forall>e \<in> set (written (n_server (net_with (v, []) m))). reply_id e \<noteq> Some (rq_id q)" by simp
  from envelope_codec.unwritten_call_stuck [OF assms(1) alone few_calls_eachD [OF assms(6)] _ this] assms(8)
  show ?thesis by simp
qed

text \<open>The witness: a call of the echo server is executed, but sending its answer fails.\<close>

lemma first_write_is_a_send:
  "net_step enc dec fdec fenc hs n l m \<Longrightarrow> written (n_server n) = [] \<Longrightarrow> written (n_server m) \<noteq> [] \<Longrightarrow>
   l = Server_Send \<and> (\<exists>e. conn_writer (n_server n) = SSending e)"
  by (cases rule: net_step.cases) (auto elim: conn_step.cases simp: close_writer_def)

lemma echo_about_to_send:
  "\<exists>ls e (n :: (string, framing, nat) net). exec (ref_net_step echo_server) echo_start ls n \<and> few_calls ls
     \<and> conn_writer (n_server n) = SSending e \<and> written (n_server n) = [] \<and> healthy n
     \<and> calls (n_client n) 3 = Awaiting 0 (guard_new 0) \<and> built (n_client n) = [3 \<mapsto> echo_request]"
proof -
  let ?call = "map Client_Local (one_call 3 ''echo'' [7, 8])"
  let ?start = "echo_start :: (string, framing, nat) net"
  obtain n :: "(string, framing, nat) net" where n: "exec (ref_net_step echo_server) ?start ?call n"
    "calls (n_client n) 3 = Awaiting 0 (guard_new 0)" "healthy n" "built (n_client n) = [3 \<mapsto> echo_request]"
    using one_call_waits [of ref_encode ref_decode ref_frame_decode ref_frame_encode echo_server ref_new_codec 0 3 "''echo''" "[7, 8]"]
    by blast
  have few: "few_calls ?call" by (simp add: few_calls_def one_call_def)
  have fit: "messages_fit ref_encode echo_server n" using echo_framed by (auto simp: messages_fit_def n(4))
  have unwritten: "written (n_server n) = []" and alive: "alive (n_client n)"
    using net_exec_server [OF n(1)] arg_cong [OF net_exec_client [OF n(1)], of "map_option alive"]
    by (auto simp: one_call_def open_conn_def client_eval elim: conn_exec.cases)
  from ref.waiting_call_completes [OF n(1) few n(3) fit n(2)] obtain ms r and m :: "(string, framing, nat) net" where
    m: "exec (ref_net_step echo_server) n (ms @ [Client_Local (EvRecv 3)]) m" "\<forall>l \<in> set ms. moving l"
      "calls (n_client m) 3 = Finished r" "r \<noteq> Inl Closed" "built (n_client m) = built (n_client n)" by blast
  have "few_calls (?call @ ms @ [Client_Local (EvRecv 3)])"
    using moving_few_calls [OF m(2), of ?call] few by (simp add: few_calls_def)
  from ref.unwritten_call_stuck(1) [OF exec_trans [OF m(1) n(1)] this, of 3 echo_request r] m(3-5) n(4)
  have "written (n_server m) \<noteq> []" by auto
  from exec_first_change [OF m(1), of "\<lambda>n. written (n_server n) = []"] unwritten this obtain ks l ks' k u where
    k: "ms @ [Client_Local (EvRecv 3)] = ks @ l # ks'" "exec (ref_net_step echo_server) n ks k"
      "written (n_server k) = []" "ref_net_step echo_server k l u" "written (n_server u) \<noteq> []" by blast
  note send = first_write_is_a_send [OF k(4,3,5)]
  with k(1) have "set ks \<subseteq> set ms" by (cases ks' rule: rev_cases) auto
  with m(2) have ks: "\<forall>l \<in> set ks. moving l" by blast
  have "few_calls (?call @ ks)" using moving_few_calls [OF ks] few by simp
  moreover from send obtain e where "conn_writer (n_server k) = SSending e" by blast
  ultimately show ?thesis
    using ref.moving_exec [OF k(2) ks ref.net_exec_ok [OF n(1)] n(3) alive] exec_trans [OF k(2) n(1)] k(3) n(2,4)
    by (intro exI [of _ "?call @ ks"] exI [of _ e] exI [of _ k]) simp
qed

lemma failed_echo:
  "\<exists>ls (n :: (string, framing, nat) net). exec (ref_net_step echo_server) echo_start ls n \<and> few_calls ls
     \<and> conn_writer (n_server n) = SGone \<and> written (n_server n) = [] \<and> dispatcher (n_server n) = Reading
     \<and> calls (n_client n) 3 = Awaiting 0 (guard_new 0) \<and> reader (n_client n) \<noteq> RGone
     \<and> built (n_client n) = [3 \<mapsto> echo_request] \<and> echo_request \<in># image_mset fst (answered (n_server n))"
proof -
  obtain ls e and n :: "(string, framing, nat) net" where n: "exec (ref_net_step echo_server) echo_start ls n" "few_calls ls"
    "conn_writer (n_server n) = SSending e" "written (n_server n) = []" "healthy n"
    "calls (n_client n) 3 = Awaiting 0 (guard_new 0)" "built (n_client n) = [3 \<mapsto> echo_request]"
    using echo_about_to_send by blast
  obtain r c frame where enc: "wire_encode ref_encode ref_frame_encode (n_scodec n) e [] = (r :: string wire_error + unit, c, frame)"
    by (rule prod_cases3)
  have leaves: "leaves r frame []"
  proof (cases r)
    case (Inr u)
    with ref.wire_encode_InrD [of "n_scodec n" e "[]" c frame] enc have "frame \<noteq> []" by (auto simp: frame_of_def)
    then show ?thesis by (simp add: Inr strict_prefix_def)
  qed simp
  let ?m = "n\<lparr>n_server := close_writer (n_server n), n_scodec := c, n_down := pipe_tear [] (n_down n)\<rparr>"
  have "ref_net_step echo_server n Server_Send_Failed ?m"
    by (rule net_step.server_send_failed [OF n(3) enc leaves conn_step.writer_failed [OF n(3)]])
  with n(1) have reach: "exec (ref_net_step echo_server) echo_start (ls @ [Server_Send_Failed]) ?m" by (rule exec.exec_step)
  have few: "few_calls (ls @ [Server_Send_Failed])" using n(2) by (simp add: few_calls_def)
  have inv: "conn_inv echo_server (n_server n)" by (rule conn_exec_inv [OF net_exec_server [OF n(1)]])
  then have "e \<in># image_mset snd (answered (n_server n))" by (simp add: conn_inv_def n(3))
  then obtain q where q: "q \<in># image_mset fst (answered (n_server n))" by auto
  then have "q \<in># received (n_server n)" using inv by (simp add: conn_inv_def)
  from ref.net_exec_requests(2) [OF n(1,2) this] n(7) have "q = echo_request" by (auto split: if_splits)
  with q reach few n(4-7) show ?thesis
    by (intro exI [of _ "ls @ [Server_Send_Failed]"] exI [of _ ?m]) (auto simp: close_writer_def healthy_def)
qed

theorem lost_answers_strand_calls_witness:
  "\<exists>(s :: (string, framing, nat) host) n i g. h_conns s 5 = Some n \<and> dispatcher (n_server n) = Reading
     \<and> echo_request \<in># image_mset fst (answered (n_server n)) \<and> calls (n_client n) 3 = Awaiting i g
     \<and> client_step (EvRecv 3) (n_client n) = None"
proof -
  obtain ls and n :: "(string, framing, nat) net" where n: "exec (ref_net_step echo_server) echo_start ls n" "few_calls ls"
    "conn_writer (n_server n) = SGone" "written (n_server n) = []" "dispatcher (n_server n) = Reading"
    "calls (n_client n) 3 = Awaiting 0 (guard_new 0)" "reader (n_client n) \<noteq> RGone"
    "built (n_client n) = [3 \<mapsto> echo_request]" "echo_request \<in># image_mset fst (answered (n_server n))"
    using failed_echo by blast
  from single_client [OF n(1), of 5] obtain s n' where s:
    "exec (ref_host_step echo_server) (host_start 0) ([Connect 5, Accept 5] @ map (On 5) ls) s"
    "h_conns s 5 = Some n'" "n = net_with (h_world s) n'" by blast
  have n': "conn_writer (n_server n') = SGone" "written (n_server n') = []" "dispatcher (n_server n') = Reading"
    "calls (n_client n') 3 = Awaiting 0 (guard_new 0)" "reader (n_client n') \<noteq> RGone"
    "built (n_client n') 3 = Some echo_request" "echo_request \<in># image_mset fst (answered (n_server n'))"
    using s(3) n(3-9) by simp_all
  have "few_calls_each (([Connect 5, Accept 5] @ map (On 5) ls) @ [])" using iffD2 [OF few_calls_joining n(2)] by simp
  from lost_answers_strand_calls [OF ref_envelope_codec s(1,2) n'(1) exec.exec_none this s(2) n'(6)] n'(2,4,5)
  have "client_step (EvRecv 3) (n_client n') = None" by auto
  with s(2) n'(3,4,7) show ?thesis by blast
qed

end
