(* ===== verification/Ping_Pong.thy ===== *)
theory Ping_Pong
  imports Program_Live
begin

text \<open>
  The program \<^verbatim>\<open>crates/patina-rpc/examples/ping_pong.rs\<close>: its two handlers, its server, and its
  main function as the calls it makes and the checks each task runs on its result. The state of the
  service is the counter of \<open>CountingPing\<close>; the call with number \<open>i\<close> is that of the task \<open>i\<close>, and
  the one with number 10 is the call of main itself.
\<close>

section \<open>The server\<close>

definition counting_ping_handle :: "u64 handler" where
  "counting_ping_handle invocations payload = (Inr payload, invocations + 1)"

definition upper_handler :: "u64 fn_handler" where
  "upper_handler = handler_fn (\<lambda>w payload. (Inr (map to_ascii_uppercase payload), w))"

definition ping_pong_server :: "u64 server" where
  "ping_pong_server =
     build (register ''upper'' (fn_handler_handle upper_handler) (register ''ping'' counting_ping_handle builder))"

section \<open>The main function\<close>

definition ping_payload :: "nat \<Rightarrow> bytes" where
  "ping_payload i = text_bytes (''ping-'' @ dec_digits i)"

definition ping_pong_main :: "(string \<times> bytes) list" where
  "ping_pong_main = map (\<lambda>i. (''ping'', ping_payload i)) [0..<10] @ [(''upper'', text_bytes ''shout'')]"

text \<open>
  What a spawned task does with the result of its call: the \<open>?\<close>, the \<open>assert_eq!\<close> (\<open>None\<close> is its
  panic), and the increment of the shared counter.
\<close>

definition ping_task :: "nat \<Rightarrow> 'x patina_error + bytes \<Rightarrow> u64 \<Rightarrow> ('x patina_error + unit) option \<times> u64" where
  "ping_task i result counter =
     (case result of
        Inl e \<Rightarrow> (Some (Inl e), counter)
      | Inr response \<Rightarrow> if response = ping_payload i then (Some (Inr ()), counter + 1) else (None, counter))"

text \<open>
  Main itself, over the result of its setup and those of its eleven calls: the \<open>?\<close> on \<open>upper\<close>, then
  the loop over the handles. \<open>completed\<close> is the shared counter after the tasks have run in some order.
\<close>

definition main_result :: "'x main_error + 'c \<Rightarrow> (nat \<Rightarrow> 'x patina_error + bytes) \<Rightarrow> 'x main_error + unit" where
  "main_result client results =
     and_then client (\<lambda>_. and_then (map_err Rpc_Err (results 10)) (\<lambda>upper.
       and_then (join_all (map (\<lambda>i. fst (ping_task i (results i) 0)) [0..<10])) (\<lambda>_. Inr ())))"

definition completed :: "nat list \<Rightarrow> (nat \<Rightarrow> 'x patina_error + bytes) \<Rightarrow> u64" where
  "completed order results = fold (\<lambda>i counter. snd (ping_task i (results i) counter)) order 0"

section \<open>Its run over a connection\<close>

lemma ping_pong_main_nth:
  "c < 10 \<Longrightarrow> ping_pong_main ! c = (''ping'', ping_payload c)" "ping_pong_main ! 10 = (''upper'', text_bytes ''shout'')"
  "length ping_pong_main = 11"
  by (simp_all add: ping_pong_main_def nth_append)

lemma ping_pong_handle:
  "handle (handlers ping_pong_server) ''ping'' p w = (Inr p, w + 1)"
  "handle (handlers ping_pong_server) ''upper'' p w = (Inr (map to_ascii_uppercase p), w)"
  by (simp_all add: handle_def ping_pong_server_def counting_ping_handle_def upper_handler_def handler_fn_def)

definition expected :: "nat \<Rightarrow> bytes" where
  "expected c = (if c < 10 then ping_payload c else map to_ascii_uppercase (text_bytes ''shout''))"

lemma ping_pong_run:
  assumes "\<forall>c \<in> set cs. c < 11"
    and "run_calls (handlers ping_pong_server) (map ((!) ping_pong_main) cs) w = (rs, w')"
  shows "rs = map (\<lambda>c. Inr (expected c)) cs \<and> w' = w + word_of_nat (length (filter (\<lambda>c. c < 10) cs))"
  using assms
proof (induction cs arbitrary: w rs)
  case Nil
  then show ?case by simp
next
  case (Cons c cs)
  have c: "c < 10 \<or> c = 10" using Cons.prems(1) by auto
  define u where "u = (if c < 10 then w + 1 else w)"
  obtain rs' where rs': "run_calls (handlers ping_pong_server) (map ((!) ping_pong_main) cs) u = (rs', w')"
    "rs = Inr (expected c) # rs'"
    using Cons.prems(2) c
    by (auto simp: ping_pong_main_nth ping_pong_handle expected_def u_def split: prod.splits)
  from Cons.IH [OF _ rs'(1)] Cons.prems(1) show ?case by (auto simp: rs'(2) u_def)
qed

lemma built_by_main:
  assumes "client_run (client_side ls) from_stream = Some s" "made_calls ping_pong_main ls" "built s c = Some q"
  shows "c < 11 \<and> ping_pong_main ! c = (rq_method q, rq_payload q)"
  using run_asked_ok [OF assms(1)] assms(2,3) ping_pong_main_nth(3)
  unfolding asked_ok_def made_calls_def by metis

lemma ping_pong_calls:
  assumes "envelope_codec enc dec new_codec fdec fenc max_frame held"
    and "exec (net_step enc dec fdec fenc (handlers ping_pong_server)) (net_start new_codec 0) ls n"
    and "few_calls ls" and "made_calls ping_pong_main ls"
  shows "\<exists>cs. distinct cs \<and> set cs \<subseteq> {..10}
    \<and> world (n_server n) = word_of_nat (length (filter (\<lambda>c. c < 10) cs))
    \<and> (\<forall>c r. calls (n_client n) c = Finished r \<and> r \<noteq> Inl Closed \<longrightarrow> c \<in> set cs \<and> r = Inr (expected c))"
proof -
  from connection_effects [OF assms(1-3)] obtain cs qs rs where
    cs: "distinct cs" "map (built (n_client n)) cs = map Some qs"
    "run_calls (handlers ping_pong_server) (map (\<lambda>q. (rq_method q, rq_payload q)) qs) 0 = (rs, world (n_server n))"
    "\<forall>c r. calls (n_client n) c = Finished r \<and> r \<noteq> Inl Closed \<longrightarrow> (c, r) \<in> set (zip cs rs)"
    by blast
  note main = built_by_main [OF net_exec_client [OF assms(2)] assms(4)]
  have len: "length qs = length cs" using arg_cong [OF cs(2), of length] by simp
  have nth: "built (n_client n) (cs ! i) = Some (qs ! i)" if "i < length cs" for i
    using arg_cong [OF cs(2), of "\<lambda>xs. xs ! i"] that len by simp
  have "map (\<lambda>q. (rq_method q, rq_payload q)) qs = map ((!) ping_pong_main) cs"
    using main [OF nth] by (intro nth_equalityI) (simp_all add: len)
  moreover have small: "\<forall>c \<in> set cs. c < 11" using main [OF nth] by (auto simp: in_set_conv_nth)
  ultimately have rs: "rs = map (\<lambda>c. Inr (expected c)) cs"
    and w: "world (n_server n) = word_of_nat (length (filter (\<lambda>c. c < 10) cs))"
    using ping_pong_run [of cs 0 rs "world (n_server n)"] cs(3) by simp_all
  have "c \<in> set cs \<and> r = Inr (expected c)" if "calls (n_client n) c = Finished r" "r \<noteq> Inl Closed" for c r
  proof -
    have "(c, r) \<in> set (zip cs rs)" using cs(4) that by blast
    then show ?thesis by (auto simp: rs in_set_zip)
  qed
  moreover have "set cs \<subseteq> {..10}" using small by auto
  ultimately show ?thesis using cs(1) w by blast
qed

lemma expected_checks:
  "c < 10 \<Longrightarrow> ping_task c (Inr (expected c)) k = (Some (Inr ()), k + 1)"
  "expected 10 = text_bytes ''SHOUT''"
  by (simp_all add: ping_task_def expected_def) (simp add: text_bytes_def to_ascii_uppercase_def)

lemma main_succeeds:
  assumes "\<forall>c \<le> 10. results c = Inr (expected c)"
  shows "main_result (Inr client) results = Inr ()"
    and "mset order = mset [0..<10] \<Longrightarrow> completed order results = 10"
proof -
  have "map (\<lambda>i. fst (ping_task i (results i) 0)) [0..<10] = map (\<lambda>a. Some (Inr a)) (replicate 10 ())"
    using assms by (intro nth_equalityI) (simp_all add: expected_checks)
  then show "main_result (Inr client) results = Inr ()"
    using assms unfolding main_result_def by (simp only: join_all_Inr) simp
  have count: "fold (\<lambda>i counter. snd (ping_task i (results i) counter)) tasks k = k + word_of_nat (length tasks)"
    if "set tasks \<subseteq> {0..<10}" for tasks k
    using that
  proof (induction tasks arbitrary: k)
    case (Cons i tasks)
    then have "results i = Inr (expected i)" "i < 10" using assms by auto
    with Cons show ?case by (simp add: expected_checks)
  qed simp
  assume order: "mset order = mset [0..<10]"
  then have "set order = {0..<10}" by (metis set_mset_mset atLeastLessThan_upt)
  moreover from order have "length order = 10" by (metis size_mset length_upt diff_zero)
  ultimately show "completed order results = 10" using count [of order 0] by (simp add: completed_def)
qed

text \<open>
  C30. The ping-pong program is correct. In every execution of the whole system in which the calls are
  those of main, whatever is delayed, fails or is cancelled: no assertion of a task fails, a ping call
  that returns anything but \<open>Closed\<close> ends its task well, the call of main returns \<open>SHOUT\<close>, and the
  counter of the server is the number of pings executed, each at most once and at least those that
  returned. And if the connection lasts and all eleven calls return, main returns \<open>Ok\<close>, in whatever order
  its tasks ran it has counted ten of them, the client has nothing pending, and the server has counted
  ten pings.
\<close>

theorem ping_pong_correct:
  assumes "envelope_codec enc dec new_codec fdec fenc max_frame held"
    and "exec (net_step enc dec fdec fenc (handlers ping_pong_server)) (net_start new_codec 0) ls n"
    and "few_calls ls" and "made_calls ping_pong_main ls"
  shows "(\<exists>cs. distinct cs \<and> set cs \<subseteq> {..10}
      \<and> world (n_server n) = word_of_nat (length (filter (\<lambda>c. c < 10) cs))
      \<and> (\<forall>c r. calls (n_client n) c = Finished r \<and> r \<noteq> Inl Closed \<longrightarrow>
          c \<in> set cs \<and> (if c < 10 then ping_task c r k = (Some (Inr ()), k + 1) else r = Inr (text_bytes ''SHOUT''))))
    \<and> (lasting ls \<and> (\<forall>c \<le> 10. calls (n_client n) c = Finished (results c)) \<longrightarrow>
        main_result (main_setup (Inr listener) (Inr addr) (Inr client)) results = Inr ()
        \<and> (\<forall>order. mset order = mset [0..<10] \<longrightarrow> completed order results = 10)
        \<and> pending_count (n_client n) = 0 \<and> world (n_server n) = 10)"
proof -
  from ping_pong_calls [OF assms] obtain cs where cs: "distinct cs" "set cs \<subseteq> {..10}"
    "world (n_server n) = word_of_nat (length (filter (\<lambda>c. c < 10) cs))"
    and result: "calls (n_client n) c = Finished r \<Longrightarrow> r \<noteq> Inl Closed \<Longrightarrow> c \<in> set cs \<and> r = Inr (expected c)" for c r
    by blast
  have "c \<in> set cs \<and> (if c < 10 then ping_task c r k = (Some (Inr ()), k + 1) else r = Inr (text_bytes ''SHOUT''))"
    if "calls (n_client n) c = Finished r" "r \<noteq> Inl Closed" for c r
  proof -
    note result [OF that]
    moreover from this cs(2) have "c < 10 \<or> c = 10" by auto
    ultimately show ?thesis by (auto simp: expected_checks)
  qed
  moreover have "main_result (main_setup (Inr listener) (Inr addr) (Inr client)) results = Inr ()
      \<and> (\<forall>order. mset order = mset [0..<10] \<longrightarrow> completed order results = 10)
      \<and> pending_count (n_client n) = 0 \<and> world (n_server n) = 10"
    if "lasting ls" and fin: "\<forall>c \<le> 10. calls (n_client n) c = Finished (results c)"
  proof -
    have all: "c \<in> set cs" "results c = Inr (expected c)" if "c \<le> 10" for c
      using result envelope_codec.lasting_result [OF assms(1-3) \<open>lasting ls\<close>] fin that by blast+
    then have "set (filter (\<lambda>c. c < 10) cs) = {0..<10}" by fastforce
    then have "length (filter (\<lambda>c. c < 10) cs) = 10"
      using distinct_card [of "filter (\<lambda>c. c < 10) cs"] cs(1) by (metis card_atLeastLessThan diff_zero distinct_filter)
    moreover have "pending_count (n_client n) = 0"
    proof (rule finished_table_idle [OF assms(2), of 11])
      show "EvCall c m p \<in> set (client_side ls) \<Longrightarrow> c < 11" for c m p
        using made_callsD [OF assms(4)] ping_pong_main_nth(3) by metis
      show "\<forall>c < 11. \<exists>r. calls (n_client n) c = Finished r" using fin by auto
    qed
    ultimately show ?thesis using main_succeeds [of results] all(2) cs(3) by (simp add: main_setup_def)
  qed
  ultimately show ?thesis using cs by blast
qed

lemma ping_pong_framed:
  "\<forall>(m, p) \<in> set ping_pong_main. \<forall>i. framed ref_encode (Request \<lparr>rq_id = i, rq_method = m, rq_payload = p\<rparr>)
     \<and> (\<forall>v. framed ref_encode (fst (dispatch (handlers ping_pong_server) \<lparr>rq_id = i, rq_method = m, rq_payload = p\<rparr> v)))"
proof -
  have "length (ping_payload i) \<le> k" if "i < 10" "10 \<le> k" for i k
    using that by (simp add: ping_payload_def text_bytes_def dec_digits.simps)
  then show ?thesis
    by (auto simp: ping_pong_main_def ping_pong_server_def counting_ping_handle_def upper_handler_def handler_fn_def
        text_bytes_def intro!: ref_framed(1) dispatch_framed)
qed

theorem ping_pong_correct_witness:
  "\<exists>ls results (n :: (string, framing, u64) net).
     exec (ref_net_step (handlers ping_pong_server)) (net_start ref_new_codec 0) ls n
     \<and> (\<forall>c \<le> 10. calls (n_client n) c = Finished (results c))
     \<and> main_result (main_setup (Inr ()) (Inr ()) (Inr ())) results = Inr () \<and> world (n_server n) = 10"
proof -
  from table_completes [OF ref_envelope_codec ping_pong_framed, of 0] obtain ls and n :: "(string, framing, u64) net" where
    n: "exec (ref_net_step (handlers ping_pong_server)) (net_start ref_new_codec 0) ls n" "few_calls ls"
      "lasting ls" "made_calls ping_pong_main ls" "\<forall>c < 11. \<exists>r. calls (n_client n) c = Finished r"
    by (auto simp: ping_pong_main_nth CLIENT_WRITER_CHANNEL_CAPACITY_def)
  then have "\<forall>c. \<exists>r. c \<le> 10 \<longrightarrow> calls (n_client n) c = Finished r" by auto
  then obtain results where fin: "\<forall>c \<le> 10. calls (n_client n) c = Finished (results c)" by metis
  from ping_pong_correct [OF ref_envelope_codec n(1,2,4), of 0 results "()" "()" "()"] n(1,3) fin show ?thesis by blast
qed

end
