(* ===== verification/Calc_Example.thy ===== *)
theory Calc_Example
  imports Rust_Values
begin

text \<open>
  The program \<^verbatim>\<open>crates/patina-rpc/examples/calc_service.rs\<close>: the trait \<open>Calc\<close>, its implementation
  \<open>MyCalc\<close>, the server made from it, and the typed calls of main through the generated client, over a
  connection. A call is numbered by its place in main; the sixth one is \<open>greet\<close>.
\<close>

section \<open>The service\<close>

definition add_method :: rpc_method where
  "add_method =
     \<lparr>m_ident = ''add'', m_args = [\<lparr>arg_name = ''a'', arg_ty = i64_type\<rparr>, \<lparr>arg_name = ''b'', arg_ty = i64_type\<rparr>],
      m_ok_type = i64_type\<rparr>"

definition greet_method :: rpc_method where
  "greet_method =
     \<lparr>m_ident = ''greet'', m_args = [\<lparr>arg_name = ''name'', arg_ty = string_type\<rparr>], m_ok_type = string_type\<rparr>"

definition calc_service :: service_trait where
  "calc_service =
     \<lparr>st_vis = ''pub'', st_attrs = [], st_supertraits = [''Send'', ''Sync'', ''static''], st_ident = ''Calc'',
      st_methods = [add_method, greet_method]\<rparr>"

text \<open>
  \<open>a + b\<close> is the wrapping addition of a release build; where it overflows, a debug build panics. The
  last equation is for arguments that the types of the trait exclude.
\<close>

fun my_calc :: "(prim_val, 'x, unit) trait_impl" where
  "my_calc m [Val (I64 a), Val (I64 b)] w = (Inr (Val (I64 (a + b))), w)"
| "my_calc m [Val (Text name)] w = (Inr (Val (Text (''hello, '' @ name))), w)"
| "my_calc m args w = (Inl Closed, w)"

definition calc_server :: "(prim_val, 'e) serde_lib \<Rightarrow> ('x \<Rightarrow> string) \<Rightarrow> unit server" where
  "calc_server L disp =
     build (add_service (wrapper_service L disp (ex_server (expand calc_service)) (wrapper_new my_calc)) builder)"

section \<open>The main function\<close>

definition calc_main :: "(rpc_method \<times> prim_val rust_val list) list" where
  "calc_main =
     map (\<lambda>i. (add_method, [Val (I64 i), Val (I64 (i * 10))])) [0, 1, 2, 3, 4]
     @ [(greet_method, [Val (Text ''patina'')])]"

text \<open>The sums and the greeting that main logs.\<close>

definition calc_results :: "prim_val list" where
  "calc_results = map I64 [0, 11, 22, 33, 44] @ [Text ''hello, patina'']"

text \<open>
  Main over what binding the listener, its address and connecting give and the values its calls return:
  the sums in order, each of a task that cannot panic after its call, and then the greeting. The result
  is what it logs. The task that serves the listener only logs when \<open>serve\<close> returns an error.
\<close>

definition calc_main_result ::
  "'x + 'listener \<Rightarrow> 'x + 'addr \<Rightarrow> 'x patina_error + 'c \<Rightarrow> (nat \<Rightarrow> 'x patina_error + 'v) \<Rightarrow> 'x main_error + 'v list \<times> 'v" where
  "calc_main_result bound addr client results =
     and_then (main_setup bound addr client) (\<lambda>_. and_then (join_all (map (\<lambda>i. Some (results i)) [0..<5])) (\<lambda>sums.
       and_then (map_err Rpc_Err (results 5)) (\<lambda>greeting. Inr (sums, greeting))))"

text \<open>The calls a connection carries are those the generated client makes for main.\<close>

definition calc_calls :: "(prim_val, 'e) serde_lib \<Rightarrow> net_event list \<Rightarrow> bool" where
  "calc_calls L ls \<longleftrightarrow>
     (\<forall>ev \<in> set (client_side ls). \<forall>c name p. ev = EvCall c name p \<longrightarrow>
        c < length calc_main \<and>
        (case calc_main ! c of (m, args) \<Rightarrow>
           name = cf_wire_name (expand_client_fn calc_service m) \<and>
           proxy_payload L (expand_client_fn calc_service m) args = (Inr p :: unit patina_error + bytes)))"

section \<open>Its run over a connection\<close>

lemma calc_generated: "payload_codec prim_base L \<Longrightarrow> generated_server prim_base L calc_service"
  by (intro generated_server.intro generated_server_axioms.intro)
    (auto simp: calc_service_def add_method_def greet_method_def)

lemma stateless_run:
  "run_calls hs xs (w :: unit) = (map (\<lambda>(m, p). fst (handle hs m p ())) xs, ())"
  by (induction xs) (auto split: prod.splits)

lemma calc_main_length: "length calc_main = 6"
  by (simp add: calc_main_def)

lemma calc_main_typed:
  assumes "c < 6" "calc_main ! c = (m, args)"
  shows "m \<in> set (st_methods calc_service)" "typed_list prim_base args (map arg_ty (m_args m))"
    "length args = length (m_args m)" "distinct (map arg_name (m_args m))"
    "my_calc (m_ident m) args w = (Inr (Val (calc_results ! c)), w)"
    "typed prim_base (Val (calc_results ! c)) (m_ok_type m)"
proof -
  have "c \<in> {0, 1, 2, 3, 4, 5}" using assms(1) by auto
  with assms(2) show "m \<in> set (st_methods calc_service)" "typed_list prim_base args (map arg_ty (m_args m))"
    "length args = length (m_args m)" "distinct (map arg_name (m_args m))"
    "my_calc (m_ident m) args w = (Inr (Val (calc_results ! c)), w)"
    "typed prim_base (Val (calc_results ! c)) (m_ok_type m)"
    by (auto simp: calc_main_def calc_results_def calc_service_def add_method_def greet_method_def)
qed

lemma calc_server_served: "handlers (calc_server L disp) = served L disp my_calc calc_service builder"
  by (simp add: calc_server_def wrapper_service_def wrapper_new_def served_def)

text \<open>What one of main's calls returns, for any reply of the server to it.\<close>

lemma calc_call_result:
  assumes codec: "payload_codec prim_base L" and c: "c < 6" "calc_main ! c = (m, args)"
    and payload: "proxy_payload L (expand_client_fn calc_service m) args = (Inr p :: unit patina_error + bytes)"
    and encodes: "to_vec L (Val (calc_results ! c)) = Inr bs"
  shows "proxy_result L (expand_client_fn calc_service m)
      (fst (handle (handlers (calc_server L (disp :: 'x \<Rightarrow> string))) (cf_wire_name (expand_client_fn calc_service m)) p ()))
    = (Inr (Val (calc_results ! c)) :: 'y patina_error + prim_val rust_val)"
proof -
  note T = calc_main_typed [OF c]
  have "result_encodes prim_base L m (fst (my_calc (m_ident m) args () :: ('x patina_error + prim_val rust_val) \<times> unit))"
    using T(6) encodes by (simp add: T(5) result_encodes_def)
  from typed_call_result [where impl = my_calc and w = "()", OF calc_generated [OF codec] T(1,2) payload this] show ?thesis
    by (simp add: calc_server_served T(5))
qed

lemma calc_calls_return:
  assumes "envelope_codec enc dec new_codec fdec fenc max_frame held" and "payload_codec prim_base L"
    and "\<forall>v \<in> set calc_results. \<not> isl (to_vec L (Val v))"
    and "exec (net_step enc dec fdec fenc (handlers (calc_server L (disp :: 'd \<Rightarrow> string)))) (net_start new_codec ()) ls n"
    and "few_calls ls" and "calc_calls L ls"
    and "calls (n_client n) c = Finished r" and "r \<noteq> Inl Closed"
  shows "c < length calc_main \<and>
    proxy_result L (expand_client_fn calc_service (fst (calc_main ! c))) r = Inr (Val (calc_results ! c))"
proof -
  let ?hs = "handlers (calc_server L disp)"
  from connection_effects [OF assms(1,4,5)] obtain cs qs rs where
    cs: "map (built (n_client n)) cs = map Some qs"
      "run_calls ?hs (map (\<lambda>q. (rq_method q, rq_payload q)) qs) () = (rs, world (n_server n))"
      "\<forall>c r. calls (n_client n) c = Finished r \<and> r \<noteq> Inl Closed \<longrightarrow> (c, r) \<in> set (zip cs rs)"
    by blast
  from cs(3) assms(7,8) obtain i where i: "i < length cs" "cs ! i = c" "i < length rs" "rs ! i = r"
    by (auto simp: in_set_zip)
  have "rs = map (\<lambda>(m, p). fst (handle ?hs m p ())) (map (\<lambda>q. (rq_method q, rq_payload q)) qs)"
    using cs(2) unfolding stateless_run by simp
  with i have r: "r = fst (handle ?hs (rq_method (qs ! i)) (rq_payload (qs ! i)) ())" by auto
  have len: "length cs = length qs" using arg_cong [OF cs(1), of length] by simp
  have "built (n_client n) c = Some (qs ! i)"
    using arg_cong [OF cs(1), of "\<lambda>xs. xs ! i"] i(1,2) len by simp
  with run_asked_ok [OF net_exec_client [OF assms(4)]]
  have "EvCall c (rq_method (qs ! i)) (rq_payload (qs ! i)) \<in> set (client_side ls)" by (simp add: asked_ok_def)
  with assms(6) obtain m args where c: "c < 6" "calc_main ! c = (m, args)"
    "rq_method (qs ! i) = cf_wire_name (expand_client_fn calc_service m)"
    "proxy_payload L (expand_client_fn calc_service m) args = (Inr (rq_payload (qs ! i)) :: unit patina_error + bytes)"
    by (cases "calc_main ! c") (auto simp: calc_calls_def calc_main_def)
  have "length calc_results = 6" by (simp add: calc_results_def)
  with c(1) have "calc_results ! c \<in> set calc_results" by simp
  with assms(3) obtain bs where "to_vec L (Val (calc_results ! c)) = Inr bs" by (metis isl_def sum.collapse(2))
  from calc_call_result [OF assms(2) c(1,2,4) this, of disp] c r show ?thesis
    by (simp add: calc_main_def)
qed

text \<open>
  C31. The calc program is correct. Let the calls on a connection be those that main makes through the
  generated client, to the server made from \<open>MyCalc\<close>, over any serialiser that keeps the laws of typed
  values. In every execution of the whole system each of them that returns anything but \<open>Closed\<close> gives
  the sum of its two numbers, or the greeting, as a typed value: never another call's result, and no
  error. If the connection lasts and all six return, main logs the five sums in order and the greeting,
  returns \<open>Ok\<close>, and leaves nothing pending.
\<close>

theorem calc_program_correct:
  assumes "envelope_codec enc dec new_codec fdec fenc max_frame held" and "payload_codec prim_base L"
    and "\<forall>v \<in> set calc_results. \<not> isl (to_vec L (Val v))"
    and "exec (net_step enc dec fdec fenc (handlers (calc_server L (disp :: 'd \<Rightarrow> string)))) (net_start new_codec ()) ls n"
    and "few_calls ls" and "calc_calls L ls"
  shows "(\<forall>c r. calls (n_client n) c = Finished r \<and> r \<noteq> Inl Closed \<longrightarrow> c < length calc_main \<and>
      proxy_result L (expand_client_fn calc_service (fst (calc_main ! c))) r = Inr (Val (calc_results ! c)))
    \<and> (lasting ls \<and> (\<forall>c < 6. calls (n_client n) c = Finished (results c)) \<longrightarrow>
      calc_main_result (Inr listener) (Inr addr) (Inr client)
          (\<lambda>c. proxy_result L (expand_client_fn calc_service (fst (calc_main ! c))) (results c))
        = Inr (map (\<lambda>n. Val (I64 n)) [0, 11, 22, 33, 44], Val (Text ''hello, patina''))
      \<and> pending_count (n_client n) = 0)"
proof (intro conjI allI impI; (elim conjE)?)
  note returned = calc_calls_return [OF assms]
  show "c < length calc_main"
      "proxy_result L (expand_client_fn calc_service (fst (calc_main ! c))) r = Inr (Val (calc_results ! c))"
    if "calls (n_client n) c = Finished r" "r \<noteq> Inl Closed" for c r
    using returned [OF that] by blast+
  assume "lasting ls" and fin: "\<forall>c < 6. calls (n_client n) c = Finished (results c)"
  then have "proxy_result L (expand_client_fn calc_service (fst (calc_main ! c))) (results c) = Inr (Val (calc_results ! c))"
    if "c < 6" for c
    using returned envelope_codec.lasting_result [OF assms(1,4,5)] that by blast
  then show "calc_main_result (Inr listener) (Inr addr) (Inr client)
        (\<lambda>c. proxy_result L (expand_client_fn calc_service (fst (calc_main ! c))) (results c))
      = Inr (map (\<lambda>n. Val (I64 n)) [0, 11, 22, 33, 44], Val (Text ''hello, patina''))"
    by (simp add: calc_main_result_def main_setup_def upt_rec numeral_eq_Suc calc_results_def)
  show "pending_count (n_client n) = 0"
  proof (rule finished_table_idle [OF assms(4), of 6])
    show "EvCall c m p \<in> set (client_side ls) \<Longrightarrow> c < 6" for c m p
      using assms(6) by (auto simp: calc_calls_def calc_main_def)
    show "\<forall>c < 6. \<exists>r. calls (n_client n) c = Finished r" using fin by auto
  qed
qed

section \<open>A complete run\<close>

text \<open>The calls of main as entries of a table.\<close>

definition calc_table :: "(string \<times> bytes) list" where
  "calc_table = map (\<lambda>(m, args). (wire_method_name calc_service m, prim_put (Tuple args))) calc_main"

lemma calc_short:
  assumes "c < 6" "calc_main ! c = (m, args)"
  shows "short_call (\<lambda>e :: string. e) my_calc calc_service m args"
proof -
  note T = calc_main_typed [OF assms]
  have "c \<in> {0, 1, 2, 3, 4, 5}" using assms(1) by auto
  then have "prim_fits (Tuple args) \<and> length (prim_put (Tuple args)) \<le> 100 \<and> length (wire_method_name calc_service m) \<le> 100
      \<and> prim_fits (Val (calc_results ! c)) \<and> length (prim_put (Val (calc_results ! c))) \<le> 100"
    using assms(2)
    by (auto simp: calc_main_def calc_results_def put_vec_def put_varint_def wire_method_name_def calc_service_def
        add_method_def greet_method_def)
  then show ?thesis by (simp add: short_call_def T)
qed

lemma calc_framed:
  "\<forall>(m, p) \<in> set calc_table. \<forall>i. framed ref_encode (Request \<lparr>rq_id = i, rq_method = m, rq_payload = p\<rparr>)
     \<and> (\<forall>v. framed ref_encode (fst (dispatch (handlers (calc_server prim_lib (\<lambda>e :: string. e))) \<lparr>rq_id = i, rq_method = m, rq_payload = p\<rparr> v)))"
proof (intro ballI)
  fix x assume "x \<in> set calc_table"
  then obtain m args where "(m, args) \<in> set calc_main" and x: "x = (wire_method_name calc_service m, prim_put (Tuple args))"
    by (auto simp: calc_table_def)
  then obtain c where "c < 6" "calc_main ! c = (m, args)"
    using calc_main_length by (metis in_set_conv_nth)
  from short_call_framed [OF calc_generated [OF prim_payload.payload_codec_axioms] calc_short [OF this]]
  show "case x of (m, p) \<Rightarrow> \<forall>i. framed ref_encode (Request \<lparr>rq_id = i, rq_method = m, rq_payload = p\<rparr>)
     \<and> (\<forall>v. framed ref_encode (fst (dispatch (handlers (calc_server prim_lib (\<lambda>e :: string. e))) \<lparr>rq_id = i, rq_method = m, rq_payload = p\<rparr> v)))"
    unfolding x calc_server_served prod.case by blast
qed

lemma calc_table_calls:
  assumes "made_calls calc_table ls"
  shows "calc_calls prim_lib ls"
  unfolding calc_calls_def
proof (intro ballI allI impI)
  fix ev c name p assume "ev \<in> set (client_side ls)" "ev = EvCall c name p"
  with made_callsD [OF assms] have c: "c < length calc_table" "calc_table ! c = (name, p)" by blast+
  obtain m args where m: "calc_main ! c = (m, args)" by (cases "calc_main ! c")
  have len: "c < length calc_main" "c < 6" using c(1) by (simp_all add: calc_table_def calc_main_def)
  have "name = wire_method_name calc_service m" "p = prim_put (Tuple args)"
    using c(2) len(1) m by (simp_all add: calc_table_def del: prim_put.simps)
  moreover note short_call_payload [OF calc_generated [OF prim_payload.payload_codec_axioms] calc_short [OF len(2) m], where 'x = unit]
  ultimately show "c < length calc_main \<and> (case calc_main ! c of (m, args) \<Rightarrow>
      name = cf_wire_name (expand_client_fn calc_service m) \<and>
      proxy_payload prim_lib (expand_client_fn calc_service m) args = (Inr p :: unit patina_error + bytes))"
    using len(1) by (simp add: m expand_client_fn_def)
qed

theorem calc_program_correct_witness:
  "\<exists>ls results (n :: (string, framing, unit) net).
     exec (ref_net_step (handlers (calc_server prim_lib (\<lambda>e :: string. e)))) (net_start ref_new_codec ()) ls n
     \<and> (\<forall>c < 6. calls (n_client n) c = Finished (results c))
     \<and> calc_main_result (Inr ()) (Inr ()) (Inr ())
           (\<lambda>c. proxy_result prim_lib (expand_client_fn calc_service (fst (calc_main ! c))) (results c))
         = Inr (map (\<lambda>n. Val (I64 n)) [0, 11, 22, 33, 44], Val (Text ''hello, patina''))"
proof -
  have len: "length calc_table = 6" by (simp add: calc_table_def calc_main_length)
  from table_completes [OF ref_envelope_codec calc_framed, of "()"] obtain ls and n :: "(string, framing, unit) net" where
    n: "exec (ref_net_step (handlers (calc_server prim_lib (\<lambda>e :: string. e)))) (net_start ref_new_codec ()) ls n" "few_calls ls"
      "lasting ls" "made_calls calc_table ls" "\<forall>c < 6. \<exists>r. calls (n_client n) c = Finished r"
    by (auto simp: len CLIENT_WRITER_CHANNEL_CAPACITY_def)
  then have "\<forall>c. \<exists>r. c < 6 \<longrightarrow> calls (n_client n) c = Finished r" by auto
  then obtain results where fin: "\<forall>c < 6. calls (n_client n) c = Finished (results c)" by metis
  have "\<forall>v \<in> set calc_results. \<not> isl (to_vec prim_lib (Val v))"
    by (simp add: calc_results_def prim_lib_def)
  from calc_program_correct [OF ref_envelope_codec prim_payload.payload_codec_axioms this n(1,2) calc_table_calls [OF n(4)],
      of results "()" "()" "()"] n(1,3) fin show ?thesis by blast
qed

end
