(* ===== verification/Echo.thy ===== *)
theory Echo
  imports Codec_Props
begin

text \<open>
  The program \<^verbatim>\<open>crates/patina-rpc/examples/echo.rs\<close>: a server task that sends every envelope it
  decodes back, and a client that sends four envelopes and compares each with its echo. The two talk
  over \<open>Framed\<close> streams; how the bytes are cut on their way is the parameter \<open>split\<close>. At the end of a
  stream \<open>Framed\<close> asks \<open>decode_eof\<close> of \<^verbatim>\<open>tokio_util\<close> instead of \<open>decode\<close>, which is the parameter \<open>eof\<close>.
\<close>

section \<open>The server task\<close>

text \<open>
  \<open>Inl\<close> is the panic of an \<open>expect\<close>; \<open>Inr\<close> is the state in which the task waits for more bytes: its
  codec, its buffer and the bytes sent.
\<close>

partial_function (option) echo_server_loop ::
  "('s wire_codec \<Rightarrow> bytes \<Rightarrow> ('x wire_error + envelope option) \<times> 's wire_codec \<times> bytes) \<Rightarrow>
   ('s wire_codec \<Rightarrow> envelope \<Rightarrow> bytes \<Rightarrow> ('x wire_error + unit) \<times> 's wire_codec \<times> bytes) \<Rightarrow>
   's wire_codec \<Rightarrow> bytes \<Rightarrow> bytes list \<Rightarrow> bytes \<Rightarrow> ('x wire_error + 's wire_codec \<times> bytes \<times> bytes) option"
where
  "echo_server_loop dec enc c buf chunks out =
     (case dec c buf of
        (Inl e, c', buf') \<Rightarrow> Some (Inl e)
      | (Inr (Some envelope), c', buf') \<Rightarrow>
          (case enc c' envelope out of
             (Inl e, c'', out') \<Rightarrow> Some (Inl e)
           | (Inr _, c'', out') \<Rightarrow> echo_server_loop dec enc c'' buf' chunks out')
      | (Inr None, c', buf') \<Rightarrow>
          (case chunks of
             [] \<Rightarrow> Some (Inr (c', buf', out))
           | chunk # rest \<Rightarrow> echo_server_loop dec enc c' (buf' @ chunk) rest out))"

text \<open>The rest of its loop, once the stream has ended.\<close>

partial_function (option) echo_server_end ::
  "('s wire_codec \<Rightarrow> bytes \<Rightarrow> ('x wire_error + envelope option) \<times> 's wire_codec \<times> bytes) \<Rightarrow>
   ('s wire_codec \<Rightarrow> envelope \<Rightarrow> bytes \<Rightarrow> ('x wire_error + unit) \<times> 's wire_codec \<times> bytes) \<Rightarrow>
   's wire_codec \<Rightarrow> bytes \<Rightarrow> bytes \<Rightarrow> ('x wire_error + unit) option"
where
  "echo_server_end eof enc c buf out =
     (case eof c buf of
        (Inl e, c', buf') \<Rightarrow> Some (Inl e)
      | (Inr (Some envelope), c', buf') \<Rightarrow>
          (case enc c' envelope out of
             (Inl e, c'', out') \<Rightarrow> Some (Inl e)
           | (Inr _, c'', out') \<Rightarrow> echo_server_end eof enc c'' buf' out')
      | (Inr None, c', buf') \<Rightarrow> Some (Inr ()))"

text \<open>
  What \<^verbatim>\<open>tokio_util\<close> documents of \<open>decode_eof\<close> where a codec does not define it: if \<open>decode\<close> finds
  nothing and no byte is left, neither does it.
\<close>

definition ends_quietly ::
  "('s wire_codec \<Rightarrow> bytes \<Rightarrow> ('x wire_error + envelope option) \<times> 's wire_codec \<times> bytes) \<Rightarrow>
   ('s wire_codec \<Rightarrow> bytes \<Rightarrow> ('x wire_error + envelope option) \<times> 's wire_codec \<times> bytes) \<Rightarrow> bool" where
  "ends_quietly dec eof \<longleftrightarrow>
     (\<forall>c buf c'. dec c buf = (Inr None, c', []) \<longrightarrow> eof c buf = (Inr None, c', []))"

section \<open>The client\<close>

text \<open>\<open>client.next()\<close>: the next envelope, or what \<open>decode_eof\<close> says when the stream ends before one is complete.\<close>

fun next_envelope ::
  "('s wire_codec \<Rightarrow> bytes \<Rightarrow> ('x wire_error + envelope option) \<times> 's wire_codec \<times> bytes) \<Rightarrow>
   ('s wire_codec \<Rightarrow> bytes \<Rightarrow> ('x wire_error + envelope option) \<times> 's wire_codec \<times> bytes) \<Rightarrow>
   's wire_codec \<Rightarrow> bytes \<Rightarrow> bytes list \<Rightarrow> ('x wire_error + envelope) option \<times> 's wire_codec \<times> bytes \<times> bytes list" where
  "next_envelope dec eof c buf chunks =
     (case dec c buf of
        (Inl e, c', buf') \<Rightarrow> (Some (Inl e), c', buf', chunks)
      | (Inr (Some envelope), c', buf') \<Rightarrow> (Some (Inr envelope), c', buf', chunks)
      | (Inr None, c', buf') \<Rightarrow>
          (case chunks of
             [] \<Rightarrow> (case eof c' buf' of
                      (Inl e, c'', buf'') \<Rightarrow> (Some (Inl e), c'', buf'', [])
                    | (Inr (Some envelope), c'', buf'') \<Rightarrow> (Some (Inr envelope), c'', buf'', [])
                    | (Inr None, c'', buf'') \<Rightarrow> (None, c'', buf'', []))
           | chunk # rest \<Rightarrow> next_envelope dec eof c' (buf' @ chunk) rest))"

datatype 'x echo_result =
    All_Echoed
  | Setup_Failed 'x
  | Accept_Panicked 'x
  | Wire_Failed "'x wire_error"
  | Closed_Before_Echo
  | Not_Equal envelope envelope
  | Server_Panicked "'x wire_error"

text \<open>
  The loop of main over its envelopes, with the codecs and buffers of both ends; bytes that have not
  been read yet when an envelope was complete stay on the wire. \<open>Inr\<close>: all were echoed, with the state in
  which the server task waits. \<open>None\<close>: the server task never waits.
\<close>

fun echo_client_loop ::
  "('s wire_codec \<Rightarrow> bytes \<Rightarrow> ('x wire_error + envelope option) \<times> 's wire_codec \<times> bytes) \<Rightarrow>
   ('s wire_codec \<Rightarrow> envelope \<Rightarrow> bytes \<Rightarrow> ('x wire_error + unit) \<times> 's wire_codec \<times> bytes) \<Rightarrow>
   ('s wire_codec \<Rightarrow> bytes \<Rightarrow> ('x wire_error + envelope option) \<times> 's wire_codec \<times> bytes) \<Rightarrow>
   (bytes \<Rightarrow> bytes list) \<Rightarrow> 's wire_codec \<Rightarrow> bytes \<Rightarrow> bytes list \<Rightarrow> 's wire_codec \<Rightarrow> bytes \<Rightarrow> envelope list \<Rightarrow>
   ('x echo_result + 's wire_codec \<times> bytes) option" where
  "echo_client_loop dec enc eof split c cbuf wire s sbuf [] = Some (Inr (s, sbuf))"
| "echo_client_loop dec enc eof split c cbuf wire s sbuf (envelope # envelopes) =
     (case enc c envelope [] of
        (Inl e, _, _) \<Rightarrow> Some (Inl (Wire_Failed e))
      | (Inr _, c', frame) \<Rightarrow>
          (case echo_server_loop dec enc s sbuf (split frame) [] of
             None \<Rightarrow> None
           | Some (Inl e) \<Rightarrow> Some (Inl (Server_Panicked e))
           | Some (Inr (s', sbuf', reply)) \<Rightarrow>
               (case next_envelope dec eof c' cbuf (wire @ split reply) of
                  (None, _) \<Rightarrow> Some (Inl Closed_Before_Echo)
                | (Some (Inl e), _) \<Rightarrow> Some (Inl (Wire_Failed e))
                | (Some (Inr echoed), c'', cbuf', wire') \<Rightarrow>
                    if echoed = envelope then echo_client_loop dec enc eof split c'' cbuf' wire' s' sbuf' envelopes
                    else Some (Inl (Not_Equal echoed envelope)))))"

definition echo_envelopes :: "envelope list" where
  "echo_envelopes =
     [Request \<lparr>rq_id = 1, rq_method = ''ping'', rq_payload = map byte_of_char ''hi''\<rparr>,
      Response \<lparr>rs_id = 1, rs_payload = map byte_of_char ''pong''\<rparr>,
      Error \<lparr>er_id = 2, er_code = 418, er_message = ''i am a teapot''\<rparr>,
      Heartbeat]"

text \<open>
  Main, over what binding the listener, its address, accepting and connecting give. Dropping the client
  ends the server's stream; \<open>server.await\<close> is an error when the task has panicked.
\<close>

definition echo_main ::
  "('s wire_codec \<Rightarrow> bytes \<Rightarrow> ('x wire_error + envelope option) \<times> 's wire_codec \<times> bytes) \<Rightarrow>
   ('s wire_codec \<Rightarrow> envelope \<Rightarrow> bytes \<Rightarrow> ('x wire_error + unit) \<times> 's wire_codec \<times> bytes) \<Rightarrow>
   ('s wire_codec \<Rightarrow> bytes \<Rightarrow> ('x wire_error + envelope option) \<times> 's wire_codec \<times> bytes) \<Rightarrow>
   (nat \<Rightarrow> 's) \<Rightarrow> (bytes \<Rightarrow> bytes list) \<Rightarrow> 'x + 'listener \<Rightarrow> 'x + 'addr \<Rightarrow> 'x + 'socket \<Rightarrow> 'x + 'tcp \<Rightarrow> 'x echo_result option" where
  "echo_main dec enc eof new_codec split bound addr accepted connected =
     (case (bound, addr, connected, accepted) of
        (Inl e, _, _, _) \<Rightarrow> Some (Setup_Failed e)
      | (Inr _, Inl e, _, _) \<Rightarrow> Some (Setup_Failed e)
      | (Inr _, Inr _, Inl e, _) \<Rightarrow> Some (Setup_Failed e)
      | (Inr _, Inr _, Inr _, Inl e) \<Rightarrow> Some (Accept_Panicked e)
      | (Inr _, Inr _, Inr _, Inr _) \<Rightarrow>
          (case echo_client_loop dec enc eof split (wire_new new_codec) [] [] (wire_new new_codec) [] echo_envelopes of
             None \<Rightarrow> None
           | Some (Inl failed) \<Rightarrow> Some failed
           | Some (Inr (s, sbuf)) \<Rightarrow>
               map_option (case_sum Server_Panicked (\<lambda>_. All_Echoed)) (echo_server_end eof enc s sbuf [])))"

section \<open>Correctness\<close>

context envelope_codec
begin

text \<open>With one frame to come, in whatever pieces, both loops read it and are back where they started.\<close>

lemma frame_pieces:
  assumes "rest_of c buf @ concat chunks = frame_of p"
  shows "strict_prefix (rest_of c buf) (frame_of p) \<or> rest_of c buf = frame_of p \<and> concat chunks = []"
  using assms by (metis append_Nil2 prefixI prefix_order.le_neq_trans same_append_eq)

lemma idle_wire_decode:
  assumes "rest_of c buf = []" "cap c < 2 ^ 32"
  shows "\<exists>c' buf'. wdec c buf = (Inr None, c', buf') \<and> cap c' = cap c \<and> rest_of c' buf' = []"
proof -
  have "strict_prefix (rest_of c buf) (frame_of [])" unfolding assms(1) by (rule strict_prefix_Nil_frame)
  from wire_decode_incomplete [OF this _ assms(2)] show ?thesis by (simp add: assms(1))
qed

lemma idle_eof:
  assumes "rest_of c buf = []" "cap c < 2 ^ 32" "ends_quietly wdec eof"
  shows "\<exists>c'. eof c buf = (Inr None, c', [])"
proof -
  from idle_wire_decode [OF assms(1,2)] obtain c' buf' where
    "wdec c buf = (Inr None, c', buf')" "rest_of c' buf' = []" by blast
  then show ?thesis using assms(3) by (auto simp: ends_quietly_def)
qed

lemma echo_server_ends:
  assumes "rest_of c buf = []" "cap c < 2 ^ 32" "ends_quietly wdec eof"
  shows "echo_server_end eof wenc c buf out = Some (Inr ())"
  using idle_eof [OF assms] by (subst echo_server_end.simps) auto

lemma echo_server_idle:
  assumes "rest_of c buf = []" "concat chunks = []" "cap c < 2 ^ 32"
  shows "\<exists>c' buf'. echo_server_loop wdec wenc c buf chunks out = Some (Inr (c', buf', out))
    \<and> cap c' = cap c \<and> rest_of c' buf' = []"
  using assms
proof (induction chunks arbitrary: c buf)
  case Nil
  from idle_wire_decode [OF Nil.prems(1,3)] show ?case
    by (subst echo_server_loop.simps) auto
next
  case (Cons chunk chunks)
  from idle_wire_decode [OF Cons.prems(1,3)] obtain c1 buf1 where
    1: "wdec c buf = (Inr None, c1, buf1)" "cap c1 = cap c" "rest_of c1 buf1 = []" by auto
  have "rest_of c1 (buf1 @ chunk) = []" "concat chunks = []" "cap c1 < 2 ^ 32" using 1(2,3) Cons.prems(2,3) by auto
  from Cons.IH [OF this] 1(1,2) show ?case by (subst echo_server_loop.simps) simp
qed

lemma echo_server_frame:
  assumes "rest_of c buf @ concat chunks = frame_of p" "sends (cap c) e p" "cap c < 2 ^ 32"
  shows "\<exists>c' buf'. echo_server_loop wdec wenc c buf chunks out = Some (Inr (c', buf', out @ frame_of p))
    \<and> cap c' = cap c \<and> rest_of c' buf' = []"
  using assms
proof (induction chunks arbitrary: c buf)
  case (Nil c buf)
  then have "rest_of c buf = frame_of p @ []" by simp
  from wire_decode_envelope [OF this Nil.prems(2,3)] obtain c1 buf1 where
    1: "wdec c buf = (Inr (Some e), c1, buf1)" "cap c1 = cap c" "rest_of c1 buf1 = []" by blast
  from wire_encode_ok [of c1 e p out] Nil.prems(2) 1(2) obtain c2 where
    2: "wenc c1 e out = (Inr (), c2, out @ frame_of p)" "cap c2 = cap c" "held (inner c2) = held (inner c1)" by auto
  have "rest_of c2 buf1 = []" "cap c2 < 2 ^ 32" using 1(3) 2(2,3) Nil.prems(3) by auto
  from echo_server_idle [OF this(1) _ this(2), of "[]" "out @ frame_of p"] 1(1) 2(1,2) show ?case
    by (subst echo_server_loop.simps) simp
next
  case (Cons chunk chunks c buf)
  from frame_pieces [OF Cons.prems(1)] show ?case
  proof (elim disjE conjE)
    assume "strict_prefix (rest_of c buf) (frame_of p)"
    from wire_decode_incomplete [OF this _ Cons.prems(3)] Cons.prems(2) obtain c1 buf1 where
      1: "wdec c buf = (Inr None, c1, buf1)" "cap c1 = cap c" "rest_of c1 buf1 = rest_of c buf"
      by (auto simp: sends_def)
    have "rest_of c1 (buf1 @ chunk) @ concat chunks = frame_of p"
      using Cons.prems(1) 1(3) by (metis append.assoc concat.simps(2))
    from Cons.IH [OF this] Cons.prems(2,3) 1(1,2) show ?thesis by (subst echo_server_loop.simps) simp
  next
    assume complete: "rest_of c buf = frame_of p" "concat (chunk # chunks) = []"
    then have "rest_of c buf = frame_of p @ []" by simp
    from wire_decode_envelope [OF this Cons.prems(2,3)] obtain c1 buf1 where
      1: "wdec c buf = (Inr (Some e), c1, buf1)" "cap c1 = cap c" "rest_of c1 buf1 = []" by blast
    from wire_encode_ok [of c1 e p out] Cons.prems(2) 1(2) obtain c2 where
      2: "wenc c1 e out = (Inr (), c2, out @ frame_of p)" "cap c2 = cap c" "held (inner c2) = held (inner c1)" by auto
    have "rest_of c2 buf1 = []" "cap c2 < 2 ^ 32" using 1(3) 2(2,3) Cons.prems(3) by auto
    from echo_server_idle [OF this(1) complete(2) this(2), of "out @ frame_of p"] 1(1) 2(1,2) show ?thesis
      by (subst echo_server_loop.simps) simp
  qed
qed

text \<open>The next envelope of a stream: whatever follows its frame is still to be read.\<close>

lemma next_envelope_complete:
  assumes "rest_of c buf @ concat chunks = frame_of p @ rest" "\<not> strict_prefix (rest_of c buf) (frame_of p)"
    and "sends (cap c) e p" "cap c < 2 ^ 32"
  shows "\<exists>c' buf' left. next_envelope wdec eof c buf chunks = (Some (Inr e), c', buf', left)
    \<and> cap c' = cap c \<and> rest_of c' buf' @ concat left = rest"
proof -
  from append_split [OF assms(1,2)] obtain more where
    more: "rest_of c buf = frame_of p @ more" "more @ concat chunks = rest" by blast
  from wire_decode_envelope [OF more(1) assms(3,4)] more(2) show ?thesis by (cases chunks) auto
qed

lemma next_envelope_stream:
  assumes "rest_of c buf @ concat chunks = frame_of p @ rest" "sends (cap c) e p" "cap c < 2 ^ 32"
  shows "\<exists>c' buf' left. next_envelope wdec eof c buf chunks = (Some (Inr e), c', buf', left)
    \<and> cap c' = cap c \<and> rest_of c' buf' @ concat left = rest"
  using assms
proof (induction chunks arbitrary: c buf)
  case Nil
  have "\<not> strict_prefix (rest_of c buf) (frame_of p)" using Nil.prems(1) by (auto simp: strict_prefix_def prefix_def)
  from next_envelope_complete [OF Nil.prems(1) this Nil.prems(2,3)] show ?case .
next
  case (Cons chunk chunks)
  show ?case
  proof (cases "strict_prefix (rest_of c buf) (frame_of p)")
    case True
    from wire_decode_incomplete [OF this _ Cons.prems(3)] Cons.prems(2) obtain c1 buf1 where
      1: "wdec c buf = (Inr None, c1, buf1)" "cap c1 = cap c" "rest_of c1 buf1 = rest_of c buf"
      by (auto simp: sends_def)
    have "rest_of c1 (buf1 @ chunk) @ concat chunks = frame_of p @ rest"
      using Cons.prems(1) 1(3) by (metis append.assoc concat.simps(2))
    from Cons.IH [OF this] Cons.prems(2,3) 1(1,2) show ?thesis by simp
  qed (rule next_envelope_complete [OF Cons.prems(1) _ Cons.prems(2,3)])
qed

lemma next_envelope_frame:
  assumes "rest_of c buf @ concat chunks = frame_of p" "sends (cap c) e p" "cap c < 2 ^ 32"
  shows "\<exists>c' buf' left. next_envelope wdec eof c buf chunks = (Some (Inr e), c', buf', left)
    \<and> cap c' = cap c \<and> rest_of c' buf' = [] \<and> concat left = []"
  using next_envelope_stream [of c buf chunks p "[]"] assms by simp

text \<open>At the end of the stream, with nothing left over, there is none.\<close>

lemma next_envelope_end:
  assumes "rest_of c buf = []" "concat chunks = []" "cap c < 2 ^ 32"
    and eof: "ends_quietly wdec eof"
  shows "fst (next_envelope wdec eof c buf chunks) = None"
  using assms(1-3)
proof (induction chunks arbitrary: c buf)
  case Nil
  from idle_wire_decode [OF Nil(1,3)] obtain c1 buf1 where
    1: "wdec c buf = (Inr None, c1, buf1)" "cap c1 = cap c" "rest_of c1 buf1 = []" by auto
  from idle_eof [OF 1(3) _ eof] 1 Nil(3) show ?case by auto
next
  case (Cons chunk chunks)
  from idle_wire_decode [OF Cons.prems(1,3)] obtain c1 buf1 where
    1: "wdec c buf = (Inr None, c1, buf1)" "cap c1 = cap c" "rest_of c1 buf1 = []" by auto
  have "rest_of c1 (buf1 @ chunk) = []" "concat chunks = []" "cap c1 < 2 ^ 32" using 1(2,3) Cons.prems(2,3) by auto
  from Cons.IH [OF this] 1(1) show ?case by simp
qed

declare next_envelope.simps [simp del]

lemma echo_client_all:
  assumes "list_all2 (sends mx) es ps" "\<And>bs. concat (split bs) = bs" "mx < 2 ^ 32"
    and "cap c = mx" "rest_of c cbuf = []" "concat wire = []" "cap s = mx" "rest_of s sbuf = []"
  shows "\<exists>s' sbuf'. echo_client_loop wdec wenc eof split c cbuf wire s sbuf es = Some (Inr (s', sbuf'))
    \<and> cap s' = mx \<and> rest_of s' sbuf' = []"
  using assms(1,4-8)
proof (induction es ps arbitrary: c cbuf wire s sbuf rule: list_all2_induct)
  case (Cons e es p ps)
  from wire_encode_ok [of c e p "[]"] Cons.hyps(1) Cons.prems(1) obtain c1 where
    1: "wenc c e [] = (Inr (), c1, frame_of p)" "cap c1 = mx" "held (inner c1) = held (inner c)" by auto
  have "rest_of s sbuf @ concat (split (frame_of p)) = frame_of p"
    using Cons.prems(5) assms(2) by simp
  from echo_server_frame [OF this, of e "[]"] Cons.hyps(1) Cons.prems(4) assms(3) obtain s1 sbuf1 where
    2: "echo_server_loop wdec wenc s sbuf (split (frame_of p)) [] = Some (Inr (s1, sbuf1, frame_of p))"
    "cap s1 = mx" "rest_of s1 sbuf1 = []" by auto
  have "rest_of c1 cbuf @ concat (wire @ split (frame_of p)) = frame_of p"
    using Cons.prems(2,3) assms(2) 1(3) by simp
  from next_envelope_frame [OF this, of e eof] Cons.hyps(1) 1(2) assms(3) obtain c2 cbuf2 wire2 where
    3: "next_envelope wdec eof c1 cbuf (wire @ split (frame_of p)) = (Some (Inr e), c2, cbuf2, wire2)"
    "cap c2 = mx" "rest_of c2 cbuf2 = []" "concat wire2 = []" by auto
  from Cons.IH [OF 3(2-4) 2(2,3)] 1(1) 2(1) 3(1) show ?case by simp
qed simp

end


text \<open>A \<open>decode_eof\<close> like that of the library, with an error of its own for a rest.\<close>

definition eof_of ::
  "('s wire_codec \<Rightarrow> bytes \<Rightarrow> (string wire_error + envelope option) \<times> 's wire_codec \<times> bytes) \<Rightarrow>
   's wire_codec \<Rightarrow> bytes \<Rightarrow> (string wire_error + envelope option) \<times> 's wire_codec \<times> bytes" where
  "eof_of dec c buf =
     (case dec c buf of
        (Inr None, c', b # bs) \<Rightarrow> (Inl (Io ''bytes remaining on stream''), c', b # bs)
      | r \<Rightarrow> r)"

lemma eof_of_ends_quietly: "ends_quietly dec (eof_of dec)"
  by (simp add: ends_quietly_def eof_of_def)


end
