(* ===== verification/Codec_Tests.thy ===== *)
theory Codec_Tests
  imports Codec_Props
begin

text \<open>
  The unit tests of \<^verbatim>\<open>crates/patina-rpc/src/codec.rs\<close> as functions over the two libraries: each
  runs what the test runs and is \<open>True\<close> when no assertion, \<open>unwrap\<close> or \<open>expect\<close> of it fails.
\<close>

section \<open>The tests\<close>

record ('x, 's) codec_libs =
  to_bytes :: "envelope \<Rightarrow> 'x + bytes"
  of_bytes :: "bytes \<Rightarrow> 'x + (envelope \<times> nat)"
  new_framing :: "nat \<Rightarrow> 's"
  unframe :: "'s \<Rightarrow> bytes \<Rightarrow> ('x + bytes option) \<times> 's \<times> bytes"
  enframe :: "'s \<Rightarrow> bytes \<Rightarrow> bytes \<Rightarrow> ('x + unit) \<times> 's \<times> bytes"
  invalid_data :: "'x \<Rightarrow> bool"

abbreviation "encode_with L \<equiv> wire_encode (to_bytes L) (enframe L)"
abbreviation "decode_with L \<equiv> wire_decode (of_bytes L) (unframe L)"

text \<open>\<open>.unwrap()\<close> of an encoding and \<open>.unwrap().expect()\<close> of a decoding, with the rest of the test.\<close>

definition encoded :: "('x wire_error + unit) \<times> 's wire_codec \<times> bytes \<Rightarrow> ('s wire_codec \<Rightarrow> bytes \<Rightarrow> bool) \<Rightarrow> bool" where
  "encoded r k = (case r of (Inl e, codec, buf) \<Rightarrow> False | (Inr _, codec, buf) \<Rightarrow> k codec buf)"

definition decoded ::
  "('x wire_error + envelope option) \<times> 's wire_codec \<times> bytes \<Rightarrow> (envelope \<Rightarrow> 's wire_codec \<Rightarrow> bytes \<Rightarrow> bool) \<Rightarrow> bool" where
  "decoded r k = (case r of (Inr (Some e), codec, buf) \<Rightarrow> k e codec buf | _ \<Rightarrow> False)"

definition test_roundtrip :: "('x, 's) codec_libs \<Rightarrow> envelope \<Rightarrow> bool" where
  "test_roundtrip L envelope =
     encoded (encode_with L (wire_new (new_framing L)) envelope []) (\<lambda>codec buf.
       decoded (decode_with L codec buf) (\<lambda>d _ buf. d = envelope \<and> buf = []))"

definition test_roundtrip_request :: "('x, 's) codec_libs \<Rightarrow> bool" where
  "test_roundtrip_request L =
     test_roundtrip L (Request \<lparr>rq_id = 42, rq_method = ''store.put'', rq_payload = [1, 2, 3, 4, 5]\<rparr>)"

definition test_roundtrip_response :: "('x, 's) codec_libs \<Rightarrow> bool" where
  "test_roundtrip_response L = test_roundtrip L (Response \<lparr>rs_id = 42, rs_payload = [9, 8, 7]\<rparr>)"

definition test_roundtrip_error :: "('x, 's) codec_libs \<Rightarrow> bool" where
  "test_roundtrip_error L = test_roundtrip L (Error \<lparr>er_id = 42, er_code = 404, er_message = ''not found''\<rparr>)"

definition test_roundtrip_heartbeat :: "('x, 's) codec_libs \<Rightarrow> bool" where
  "test_roundtrip_heartbeat L = test_roundtrip L Heartbeat"

definition heartbeat_is_tiny :: "('x, 's) codec_libs \<Rightarrow> bool" where
  "heartbeat_is_tiny L =
     encoded (encode_with L (wire_new (new_framing L)) Heartbeat []) (\<lambda>_ buf. length buf = 5)"

abbreviation "partial_request \<equiv> \<lparr>rq_id = 1, rq_method = ''m'', rq_payload = replicate 16 0\<rparr>"

definition partial_frame_yields_none_until_complete :: "('x, 's) codec_libs \<Rightarrow> bool" where
  "partial_frame_yields_none_until_complete L =
     encoded (encode_with L (wire_new (new_framing L)) (Request partial_request) []) (\<lambda>codec full.
       let mid = length full div 2; head = take mid full; tail = drop mid full
       in case decode_with L codec head of
            (Inr None, codec, staging) \<Rightarrow>
              decoded (decode_with L codec (staging @ tail)) (\<lambda>d _ staging. is_request d \<and> staging = [])
          | _ \<Rightarrow> False)"

definition back_to_back_frames_decode_independently :: "('x, 's) codec_libs \<Rightarrow> bool" where
  "back_to_back_frames_decode_independently L =
     encoded (encode_with L (wire_new (new_framing L)) Heartbeat []) (\<lambda>codec buf.
       encoded (encode_with L codec (Response \<lparr>rs_id = 7, rs_payload = [0xab, 0xcd]\<rparr>) buf) (\<lambda>codec buf.
         decoded (decode_with L codec buf) (\<lambda>first codec buf. first = Heartbeat \<and>
           decoded (decode_with L codec buf) (\<lambda>second _ buf.
             (case second of Response r \<Rightarrow> rs_id r = 7 \<and> rs_payload r = [0xab, 0xcd] | _ \<Rightarrow> False) \<and> buf = []))))"

definition oversized_frame_prefix_is_rejected :: "('x, 's) codec_libs \<Rightarrow> bool" where
  "oversized_frame_prefix_is_rejected L =
     (case decode_with L (with_max_frame_length (new_framing L) 100) ([] @ be32 1000) of
        (Inl (Io e), _) \<Rightarrow> invalid_data L e
      | _ \<Rightarrow> False)"

definition corrupted_body_surfaces_decode_error :: "('x, 's) codec_libs \<Rightarrow> bool" where
  "corrupted_body_surfaces_decode_error L =
     (case decode_with L (wire_new (new_framing L)) (([] @ be32 3) @ [0xff, 0xff, 0xff]) of
        (Inl (Decode _), _) \<Rightarrow> True
      | _ \<Rightarrow> False)"

definition codec_tests :: "('x, 's) codec_libs \<Rightarrow> bool list" where
  "codec_tests L =
     [test_roundtrip_request L, test_roundtrip_response L, test_roundtrip_error L, test_roundtrip_heartbeat L,
      heartbeat_is_tiny L, partial_frame_yields_none_until_complete L, back_to_back_frames_decode_independently L,
      oversized_frame_prefix_is_rejected L, corrupted_body_surfaces_decode_error L]"

section \<open>They pass\<close>

definition test_envelopes :: "envelope list" where
  "test_envelopes =
     [Request \<lparr>rq_id = 42, rq_method = ''store.put'', rq_payload = [1, 2, 3, 4, 5]\<rparr>,
      Response \<lparr>rs_id = 42, rs_payload = [9, 8, 7]\<rparr>, Error \<lparr>er_id = 42, er_code = 404, er_message = ''not found''\<rparr>,
      Request partial_request, Response \<lparr>rs_id = 7, rs_payload = [0xab, 0xcd]\<rparr>]"

text \<open>
  What the tests assume of the libraries beyond the laws: their envelopes fit in a frame, a heartbeat is
  one byte, three continuation bytes are no envelope, and a framing error has the kind \<open>InvalidData\<close>.
\<close>

definition test_libs :: "('x, 's) codec_libs \<Rightarrow> bool" where
  "test_libs L \<longleftrightarrow>
     (\<forall>e \<in> set test_envelopes. \<exists>p. to_bytes L e = Inr p \<and> length p \<le> DEFAULT_MAX_FRAME_LEN) \<and>
     (\<exists>b. to_bytes L Heartbeat = Inr [b]) \<and> (\<exists>x. of_bytes L [0xff, 0xff, 0xff] = Inl x) \<and>
     (\<forall>s src x r. unframe L s src = (Inl x, r) \<longrightarrow> invalid_data L x)"

lemma encoded_Inr [simp]: "encoded (Inr u, c, buf) k = k c buf"
  by (simp add: encoded_def)

lemma decoded_Some [simp]: "decoded (Inr (Some e), c, buf) k = k e c buf"
  by (simp add: decoded_def)

context envelope_codec
begin

lemma new_encodes:
  assumes "encode_to_vec e = Inr p" "length p \<le> DEFAULT_MAX_FRAME_LEN"
  shows "\<exists>c. wenc (wire_new new_codec) e dst = (Inr (), c, dst @ frame_of p)
    \<and> cap c = DEFAULT_MAX_FRAME_LEN \<and> held (inner c) = []"
  using wire_encode_ok [of "wire_new new_codec" e p dst] assms by (simp add: sends_def wire_new_fresh)

lemma cap_below: "cap c = DEFAULT_MAX_FRAME_LEN \<Longrightarrow> cap c < 2 ^ 32"
  by (simp only: default_cap_less)

lemma decodes:
  assumes "encode_to_vec e = Inr p" "length p \<le> DEFAULT_MAX_FRAME_LEN" "cap c = DEFAULT_MAX_FRAME_LEN"
    and "held (inner c) @ buf = frame_of p @ rest"
  shows "\<exists>c' buf'. wdec c buf = (Inr (Some e), c', buf') \<and> cap c' = DEFAULT_MAX_FRAME_LEN \<and> held (inner c') @ buf' = rest"
  using wire_decode_envelope [OF assms(4) _ cap_below [OF assms(3)], of e] assms(1-3) by (auto simp: sends_def)

lemma roundtrip_passes:
  assumes "encode_to_vec e = Inr p" "length p \<le> DEFAULT_MAX_FRAME_LEN"
  shows "encoded (wenc (wire_new new_codec) e []) (\<lambda>codec buf. decoded (wdec codec buf) (\<lambda>d _ buf. d = e \<and> buf = []))"
proof -
  from new_encodes [OF assms, of "[]"] obtain c where
    c: "wenc (wire_new new_codec) e [] = (Inr (), c, frame_of p)" "cap c = DEFAULT_MAX_FRAME_LEN" "held (inner c) = []" by auto
  from decodes [OF assms c(2), of "frame_of p" "[]"] c show ?thesis by auto
qed

lemma partial_passes:
  assumes "encode_to_vec (Request q) = Inr p" "length p \<le> DEFAULT_MAX_FRAME_LEN"
  shows "encoded (wenc (wire_new new_codec) (Request q) []) (\<lambda>codec full.
       let mid = length full div 2; head = take mid full; tail = drop mid full
       in case wdec codec head of
            (Inr None, codec, staging) \<Rightarrow>
              decoded (wdec codec (staging @ tail)) (\<lambda>d _ staging. is_request d \<and> staging = [])
          | _ \<Rightarrow> False)"
proof -
  from new_encodes [OF assms, of "[]"] obtain c where c: "wenc (wire_new new_codec) (Request q) [] = (Inr (), c, frame_of p)"
    "cap c = DEFAULT_MAX_FRAME_LEN" "held (inner c) = []" by auto
  let ?mid = "length (frame_of p) div 2"
  have "take ?mid (frame_of p) @ drop ?mid (frame_of p) = frame_of p" "drop ?mid (frame_of p) \<noteq> []" by simp_all
  then have "strict_prefix (take ?mid (frame_of p)) (frame_of p)" by (metis append_Nil2 prefixI prefix_order.le_neq_trans same_append_eq)
  with c(3) have "strict_prefix (rest_of c (take ?mid (frame_of p))) (frame_of p)" by simp
  from wire_decode_incomplete [OF this _ cap_below [OF c(2)]] assms(2) c(2,3) obtain c1 staging where
    1: "wdec c (take ?mid (frame_of p)) = (Inr None, c1, staging)" "cap c1 = DEFAULT_MAX_FRAME_LEN"
    "held (inner c1) @ staging = take ?mid (frame_of p)" by auto
  have "held (inner c1) @ staging @ drop ?mid (frame_of p) = frame_of p @ []"
    unfolding append_assoc [symmetric] 1(3) by simp
  from decodes [OF assms 1(2) this] 1(1) c(1) show ?thesis by (auto simp: Let_def)
qed

lemma back_to_back_passes:
  assumes "encode_to_vec e = Inr p" "length p \<le> DEFAULT_MAX_FRAME_LEN"
    and "encode_to_vec d = Inr r" "length r \<le> DEFAULT_MAX_FRAME_LEN" "P d"
  shows "encoded (wenc (wire_new new_codec) e []) (\<lambda>codec buf. encoded (wenc codec d buf) (\<lambda>codec buf.
         decoded (wdec codec buf) (\<lambda>first codec buf. first = e \<and>
           decoded (wdec codec buf) (\<lambda>second _ buf. P second \<and> buf = []))))"
proof -
  from new_encodes [OF assms(1,2), of "[]"] obtain c where
    c: "wenc (wire_new new_codec) e [] = (Inr (), c, frame_of p)" "cap c = DEFAULT_MAX_FRAME_LEN" "held (inner c) = []" by auto
  from wire_encode_ok [of c d r "frame_of p"] assms(3,4) c(2,3) obtain c1 where
    c1: "wenc c d (frame_of p) = (Inr (), c1, frame_of p @ frame_of r)" "cap c1 = DEFAULT_MAX_FRAME_LEN" "held (inner c1) = []"
    by (auto simp: sends_def)
  from decodes [OF assms(1,2) c1(2), of "frame_of p @ frame_of r" "frame_of r"] c1(3) obtain c2 buf where
    c2: "wdec c1 (frame_of p @ frame_of r) = (Inr (Some e), c2, buf)" "cap c2 = DEFAULT_MAX_FRAME_LEN"
    "held (inner c2) @ buf = frame_of r @ []" by auto
  from decodes [OF assms(3,4) c2(2,3)] c(1) c1(1) c2(1) assms(5) show ?thesis by auto
qed

end


definition ref_libs :: "(string, framing) codec_libs" where
  "ref_libs =
     \<lparr>to_bytes = ref_encode, of_bytes = ref_decode, new_framing = ref_new_codec, unframe = ref_frame_decode,
      enframe = ref_frame_encode, invalid_data = (\<lambda>x. x = ''frame size too big'')\<rparr>"


end
