(* ===== verification/Pending_Tests.thy ===== *)
theory Pending_Tests
  imports Pending_Map
begin

text \<open>
  The unit tests of \<^verbatim>\<open>crates/patina-rpc/src/client.rs\<close> for the pending map and its guard, as
  functions that are \<open>True\<close> when no assertion fails. A sender is the number of its channel; the
  receiver is dropped at once, which the map does not notice.
\<close>

definition dummy_sender :: "nat \<Rightarrow> chan" where
  "dummy_sender n = n"

definition pending_map_insert_take_round_trips :: bool where
  "pending_map_insert_take_round_trips =
     (let m = pm_default; (_, m1) = pm_insert 7 (dummy_sender 0) m;
          (first, m2) = pm_take 7 m1; (second, m3) = pm_take 7 m2
      in pm_len m = 0 \<and> pm_len m1 = 1 \<and> first \<noteq> None \<and> pm_len m2 = 0 \<and> second = None)"

definition pending_map_drain_returns_all_and_empties :: bool where
  "pending_map_drain_returns_all_and_empties =
     (let (_, m1) = pm_insert 1 (dummy_sender 0) pm_default; (_, m2) = pm_insert 2 (dummy_sender 1) m1;
          (_, m3) = pm_insert 3 (dummy_sender 2) m2;
          (drained, m4) = pm_drain m3; (again, m5) = pm_drain m4
      in length drained = 3 \<and> pm_len m4 = 0 \<and> again = [])"

definition armed_guard_removes_entry_on_drop :: bool where
  "armed_guard_removes_entry_on_drop =
     (let (_, m1) = pm_insert 42 (dummy_sender 0) pm_default;
          (_, m2) = guard_drop \<lparr>pg_id = 42, pg_armed = True\<rparr> m1
      in pm_len m2 = 0)"

definition disarmed_guard_leaves_entry_on_drop :: bool where
  "disarmed_guard_leaves_entry_on_drop =
     (let (_, m1) = pm_insert 42 (dummy_sender 0) pm_default;
          (_, m2) = guard_drop (guard_disarm \<lparr>pg_id = 42, pg_armed = True\<rparr>) m1
      in pm_len m2 = 1)"

text \<open>
  The pending map and its guard pass their unit tests: all four tests of the module run to their end
  without a failed assertion.
\<close>

lemma pending_tests_pass:
  "[pending_map_insert_take_round_trips, pending_map_drain_returns_all_and_empties,
    armed_guard_removes_entry_on_drop, disarmed_guard_leaves_entry_on_drop] = replicate 4 True"
  by (simp add: pending_map_insert_take_round_trips_def pending_map_drain_returns_all_and_empties_def
      armed_guard_removes_entry_on_drop_def disarmed_guard_leaves_entry_on_drop_def op_defs dummy_sender_def
      pm_len_def eval_nat_numeral)

end
