(* ===== verification/Multiplexer_Tests.thy ===== *)
theory Multiplexer_Tests
  imports Program_Live
begin

text \<open>
  The tests of \<^verbatim>\<open>crates/patina-rpc/tests/multiplexer.rs\<close>: the server each one builds, the calls its
  tasks make, numbered by their place, and what it checks of their results. A check is \<open>True\<close> when no
  \<open>expect\<close>, assertion or \<open>panic!\<close> of the test fails. Sleeps and the measurement of elapsed time are
  left out; what remains of the tests about time is what they check of results and of \<open>pending_count\<close>.
\<close>

section \<open>The tests\<close>

text \<open>
  \<open>mt_timeout\<close> tells whether the test drops its call; \<open>mt_check\<close> gets the results of the finished calls
  and \<open>pending_count\<close>.
\<close>

record 'x mux_test =
  mt_server :: "unit server"
  mt_calls :: "(string \<times> bytes) list"
  mt_timeout :: bool
  mt_check :: "(chan \<Rightarrow> ('x patina_error + bytes) option) \<Rightarrow> nat \<Rightarrow> bool"

definition echo_handler :: "unit fn_handler" where
  "echo_handler = handler_fn (\<lambda>w payload. (Inr payload, w))"

text \<open>\<open>u32::to_le_bytes\<close>.\<close>

definition u32_to_le_bytes :: "nat \<Rightarrow> bytes" where
  "u32_to_le_bytes n = rev (be32 n)"

text \<open>A task returns its number; \<open>None\<close> is its panic.\<close>

definition multiplex_task :: "nat \<Rightarrow> 'x patina_error + bytes \<Rightarrow> nat option" where
  "multiplex_task i result =
     (case result of Inl e \<Rightarrow> None | Inr bs \<Rightarrow> if bs = u32_to_le_bytes i then Some i else None)"

definition concurrent_calls_multiplex_correctly :: "'x mux_test" where
  "concurrent_calls_multiplex_correctly =
     \<lparr>mt_server = build (register ''echo'' (fn_handler_handle echo_handler) builder),
      mt_calls = map (\<lambda>i. (''echo'', u32_to_le_bytes i)) [0..<100], mt_timeout = False,
      mt_check = (\<lambda>results parked.
        let joined = map (\<lambda>i. multiplex_task i (the (results i))) [0..<100]
        in None \<notin> set joined \<and> card (set (map the joined)) = 100 \<and> parked = 0)\<rparr>"

fun is_unknown :: "'x patina_error + bytes \<Rightarrow> bool" where
  "is_unknown (Inl (Remote code message)) = (code = 404 \<and> sublist ''nonexistent'' message)"
| "is_unknown other = False"

definition unknown_method_returns_404_remote_error :: "'x mux_test" where
  "unknown_method_returns_404_remote_error =
     \<lparr>mt_server = build builder, mt_calls = [(''nonexistent'', [])], mt_timeout = False,
      mt_check = (\<lambda>results parked. is_unknown (the (results 0)))\<rparr>"

fun is_boom :: "'x patina_error + bytes \<Rightarrow> bool" where
  "is_boom (Inl (Remote code message)) = (code = 500 \<and> message = ''boom'')"
| "is_boom other = False"

definition handler_error_propagates_to_caller :: "'x mux_test" where
  "handler_error_propagates_to_caller =
     \<lparr>mt_server = build (register ''boom'' (fn_handler_handle (handler_fn (\<lambda>w _. (Inl (handler_error_new 500 ''boom''), w)))) builder),
      mt_calls = [(''boom'', [])], mt_timeout = False,
      mt_check = (\<lambda>results parked. is_boom (the (results 0)))\<rparr>"

definition slow_server :: "unit server" where
  "slow_server = build (register ''slow'' (fn_handler_handle (handler_fn (\<lambda>w _. (Inr [], w)))) builder)"

definition timed_out_call_does_not_leak_pending_entry :: "'x mux_test" where
  "timed_out_call_does_not_leak_pending_entry =
     \<lparr>mt_server = slow_server, mt_calls = [(''slow'', [])], mt_timeout = True,
      mt_check = (\<lambda>results parked. pending_count (from_stream :: 'x client) = 0 \<and> results 0 = None \<and> parked = 0)\<rparr>"

definition handlers_run_concurrently :: "'x mux_test" where
  "handlers_run_concurrently =
     \<lparr>mt_server = build (register ''slow'' (fn_handler_handle (handler_fn (\<lambda>w payload. (Inr payload, w)))) builder),
      mt_calls = [(''slow'', [1]), (''slow'', [2])], mt_timeout = False,
      mt_check = (\<lambda>results parked. \<not> isl (the (results 0)) \<and> \<not> isl (the (results 1)))\<rparr>"

text \<open>The trait implementation and the closure are written out twice, as in the test.\<close>

definition upper_handle :: "unit handler" where
  "upper_handle w payload = (Inr (map to_ascii_uppercase payload), w)"

definition handler_fn_and_trait_impl_behave_identically :: "'x mux_test" where
  "handler_fn_and_trait_impl_behave_identically =
     \<lparr>mt_server = build (register ''fn_upper'' (fn_handler_handle (handler_fn (\<lambda>w payload. (Inr (map to_ascii_uppercase payload), w))))
        (register ''trait_upper'' upper_handle builder)),
      mt_calls = [(''trait_upper'', text_bytes ''hello''), (''fn_upper'', text_bytes ''hello'')], mt_timeout = False,
      mt_check = (\<lambda>results parked.
        the (results 0) = Inr (text_bytes ''HELLO'') \<and> the (results 1) = Inr (text_bytes ''HELLO'') \<and> the (results 0) = the (results 1))\<rparr>"

definition mux_tests :: "'x mux_test list" where
  "mux_tests =
     [concurrent_calls_multiplex_correctly, unknown_method_returns_404_remote_error, handler_error_propagates_to_caller,
      timed_out_call_does_not_leak_pending_entry, handlers_run_concurrently, handler_fn_and_trait_impl_behave_identically]"

text \<open>The test that aborts the server while a call waits checks the result and \<open>is_closed\<close>.\<close>

fun connection_drop_check :: "'x patina_error + bytes \<Rightarrow> bool \<Rightarrow> bool" where
  "connection_drop_check (Inl Closed) closed = closed"
| "connection_drop_check other closed = False"

section \<open>They pass\<close>

text \<open>
  A test has run to its end over a connection that lasted: the calls made were its own, and all of them
  are over, finished unless the test drops its call.
\<close>

definition test_run ::
  "(envelope \<Rightarrow> 'x + bytes) \<Rightarrow> (bytes \<Rightarrow> 'x + (envelope \<times> nat)) \<Rightarrow> (nat \<Rightarrow> 's) \<Rightarrow>
   ('s \<Rightarrow> bytes \<Rightarrow> ('x + bytes option) \<times> 's \<times> bytes) \<Rightarrow>
   ('s \<Rightarrow> bytes \<Rightarrow> bytes \<Rightarrow> ('x + unit) \<times> 's \<times> bytes) \<Rightarrow> 'x mux_test \<Rightarrow>
   net_event list \<Rightarrow> ('x, 's, unit) net \<Rightarrow> bool" where
  "test_run enc dec new_codec fdec fenc t ls n \<longleftrightarrow>
     exec (net_step enc dec fdec fenc (handlers (mt_server t))) (net_start new_codec ()) ls n
     \<and> few_calls ls \<and> lasting ls \<and> made_calls (mt_calls t) ls
     \<and> (\<forall>c. call_over (calls (n_client n) c))
     \<and> (\<forall>c < length (mt_calls t). if mt_timeout t then calls (n_client n) c = Dropped else \<exists>r. calls (n_client n) c = Finished r)"

lemma test_run_result:
  assumes "envelope_codec enc dec new_codec fdec fenc max_frame held" "test_run enc dec new_codec fdec fenc t ls n"
    and "\<not> mt_timeout t" "c < length (mt_calls t)"
  shows "result_of (calls (n_client n) c) = Some (fst (handle (handlers (mt_server t)) (fst (mt_calls t ! c)) (snd (mt_calls t ! c)) ()))"
proof -
  from assms(2-4) obtain r where r: "calls (n_client n) c = Finished r" by (auto simp: test_run_def)
  have "r = fst (handle (handlers (mt_server t)) (fst (mt_calls t ! c)) (snd (mt_calls t ! c)) ())"
    using lasting_table [OF assms(1) _ _ _ _ r] assms(2) unfolding test_run_def by auto
  with r show ?thesis by simp
qed

lemma test_run_idle: "test_run enc dec new_codec fdec fenc t ls n \<Longrightarrow> pending_count (n_client n) = 0"
  using idle_no_pending [of enc dec fdec fenc "handlers (mt_server t)" new_codec "()" ls n] unfolding test_run_def by blast

lemma fresh_pending: "pending_count from_stream = 0"
  by (simp add: pending_count_def from_stream_def pm_default_def pm_len_def)

lemma upper_hello: "map to_ascii_uppercase (text_bytes ''hello'') = text_bytes ''HELLO''"
  by (simp add: text_bytes_def to_ascii_uppercase_def)

lemma unknown_message: "sublist ''nonexistent'' ''unknown method: nonexistent''"
  unfolding sublist_def by (rule exI [of _ "''unknown method: ''"], rule exI [of _ "[]"]) simp

lemma multiplex_passes:
  assumes "\<forall>i < 100. results i = Some (Inr (u32_to_le_bytes i))"
  shows "mt_check concurrent_calls_multiplex_correctly results 0"
proof -
  have tasks: "map (\<lambda>i. multiplex_task i (the (results i))) [0..<100] = map Some [0..<100]"
    using assms by (simp add: multiplex_task_def)
  have "map the (map Some [0..<100]) = [0..<100]" by (simp add: comp_def)
  then have "card (set (map the (map Some [0..<100]))) = 100" by (simp only: set_upt card_atLeastLessThan)
  moreover have "None \<notin> set (map Some [0..<100])" by auto
  ultimately show ?thesis
    unfolding concurrent_calls_multiplex_correctly_def mux_test.select_convs Let_def tasks by blast
qed

lemma connection_drop_passes:
  assumes codec: "envelope_codec enc dec new_codec fdec fenc max_frame held"
    and reach: "exec (net_step enc dec fdec fenc hs) (net_start new_codec w) ls n" "few_calls ls"
    and silent: "answered (n_server n) = {#}" and fin: "calls (n_client n) c = Finished r"
  shows "connection_drop_check r (is_closed (n_client n))"
proof -
  note run = net_exec_client [OF reach(1)]
  have log: "n_log n = []"
    using envelope_codec.net_okD(8) [OF codec envelope_codec.net_exec_ok [OF codec reach(1)]] silent by simp
  have "r = Inl Closed"
  proof (rule ccontr)
    assume r: "r \<noteq> Inl Closed"
    with run_routed [OF run] fin obtain q where "built (n_client n) c = Some q"
      unfolding routed_def answers_def by blast
    from envelope_codec.returned_is_logged [OF codec reach fin r this] log show False by (simp add: logged_def)
  qed
  moreover from this have "token (n_client n)"
    using run_closed_ok [OF run] reach(2) fin by (auto simp: closed_ok_def few_calls_def)
  ultimately show ?thesis by (simp add: is_closed_def)
qed


text \<open>The hundred calls of the first test can all run to their end.\<close>

lemma concurrent_framed:
  "\<forall>(m, p) \<in> set (mt_calls (concurrent_calls_multiplex_correctly :: 'x mux_test)).
     \<forall>i. framed ref_encode (Request \<lparr>rq_id = i, rq_method = m, rq_payload = p\<rparr>)
     \<and> (\<forall>v. framed ref_encode (fst (dispatch (handlers (mt_server (concurrent_calls_multiplex_correctly :: 'x mux_test)))
        \<lparr>rq_id = i, rq_method = m, rq_payload = p\<rparr> v)))"
proof -
  have "length (u32_to_le_bytes i) = 4" for i by (simp add: u32_to_le_bytes_def)
  then show ?thesis
    by (auto simp: concurrent_calls_multiplex_correctly_def echo_handler_def handler_fn_def intro!: ref_framed(1) dispatch_framed)
qed


end
