(* ===== verification/Service_Macro_Tests.thy ===== *)
theory Service_Macro_Tests
  imports Rust_Values
begin

text \<open>
  The tests of \<^verbatim>\<open>crates/patina-rpc/tests/service_macro.rs\<close>: the trait \<open>Calc\<close> of that file, its
  implementation, the server made from it, and the four tests as the calls they make, numbered by their
  place, and what they check of the results. A check is \<open>True\<close> when no \<open>expect\<close>, assertion or \<open>panic!\<close>
  of the test fails.
\<close>

section \<open>The service\<close>

definition test_add :: rpc_method where
  "test_add =
     \<lparr>m_ident = ''add'', m_args = [\<lparr>arg_name = ''a'', arg_ty = i32_type\<rparr>, \<lparr>arg_name = ''b'', arg_ty = i32_type\<rparr>],
      m_ok_type = i32_type\<rparr>"

definition test_ping :: rpc_method where
  "test_ping = \<lparr>m_ident = ''ping'', m_args = [], m_ok_type = string_type\<rparr>"

definition test_boom :: rpc_method where
  "test_boom = \<lparr>m_ident = ''boom'', m_args = [], m_ok_type = Type_Tuple []\<rparr>"

definition test_calc :: service_trait where
  "test_calc =
     \<lparr>st_vis = ''pub'', st_attrs = [], st_supertraits = [''Send'', ''Sync'', ''static''], st_ident = ''Calc'',
      st_methods = [test_add, test_ping, test_boom]\<rparr>"

text \<open>
  \<open>a + b\<close> is the wrapping addition of a release build; where it overflows, a debug build panics. The
  last equation is for arguments that the types of the trait exclude.
\<close>

definition calc_impl_add :: "i32 \<Rightarrow> i32 \<Rightarrow> 'x patina_error + prim_val rust_val" where
  "calc_impl_add a b = Inr (Val (I32 (a + b)))"

fun test_calc_impl :: "(prim_val, 'x, unit) trait_impl" where
  "test_calc_impl m [Val (I32 a), Val (I32 b)] w = (calc_impl_add a b, w)"
| "test_calc_impl m [] w =
     (if m = ''ping'' then Inr (Val (Text ''pong'')) else Inl (application 503 ''service down''), w)"
| "test_calc_impl m args w = (Inl Closed, w)"

definition start_calc_server :: "(prim_val, 'e) serde_lib \<Rightarrow> ('x \<Rightarrow> string) \<Rightarrow> unit server" where
  "start_calc_server L disp =
     build (add_service (wrapper_service L disp (ex_server (expand test_calc)) (wrapper_new test_calc_impl)) builder)"

section \<open>The tests\<close>

text \<open>A call through the generated client, or one of the raw client.\<close>

datatype test_call = Proxy rpc_method "prim_val rust_val list" | Raw string bytes

record 'x service_test =
  sv_calls :: "test_call list"
  sv_check :: "(nat \<Rightarrow> 'x patina_error + bytes) \<Rightarrow> bool"

text \<open>What a call of the generated client returns for the answer to its request.\<close>

abbreviation "returned L m r \<equiv> proxy_result L (expand_client_fn test_calc m) r"

definition multi_and_zero_arg_round_trip :: "(prim_val, 'e) serde_lib \<Rightarrow> 'x service_test" where
  "multi_and_zero_arg_round_trip L =
     \<lparr>sv_calls = [Proxy test_add [Val (I32 2), Val (I32 3)], Proxy test_add [Val (I32 (- 10)), Val (I32 4)], Proxy test_ping []],
      sv_check = (\<lambda>results. returned L test_add (results 0) = Inr (Val (I32 5))
        \<and> returned L test_add (results 1) = Inr (Val (I32 (- 6)))
        \<and> returned L test_ping (results 2) = Inr (Val (Text ''pong'')))\<rparr>"

fun is_service_down :: "'x patina_error + 'a \<Rightarrow> bool" where
  "is_service_down (Inl (Remote code message)) = (code = 503 \<and> message = ''service down'')"
| "is_service_down other = False"

definition handler_error_propagates_through_macro :: "(prim_val, 'e) serde_lib \<Rightarrow> 'x service_test" where
  "handler_error_propagates_through_macro L =
     \<lparr>sv_calls = [Proxy test_boom []], sv_check = (\<lambda>results. is_service_down (returned L test_boom (results 0)))\<rparr>"

fun is_404 :: "'x patina_error + 'a \<Rightarrow> bool" where
  "is_404 (Inl (Remote code message)) = (code = 404)"
| "is_404 other = False"

definition unknown_method_is_404 :: "(prim_val, 'e) serde_lib \<Rightarrow> 'x service_test" where
  "unknown_method_is_404 L =
     \<lparr>sv_calls = [Raw ''Calc::nonexistent'' []], sv_check = (\<lambda>results. is_404 (results 0))\<rparr>"

text \<open>The generic function, given what \<open>calc.add(10, 20)\<close> returns; \<open>None\<close> is its panic.\<close>

fun sum_via :: "'x patina_error + prim_val rust_val \<Rightarrow> i32 option" where
  "sum_via (Inr (Val (I32 n))) = Some n"
| "sum_via other = None"

definition client_and_impl_are_interchangeable_behind_trait :: "(prim_val, 'e) serde_lib \<Rightarrow> 'x service_test" where
  "client_and_impl_are_interchangeable_behind_trait L =
     \<lparr>sv_calls = [Proxy test_add [Val (I32 10), Val (I32 20)]],
      sv_check = (\<lambda>results. sum_via (returned L test_add (results 0)) = Some 30
        \<and> sum_via (calc_impl_add 10 20 :: 'x patina_error + prim_val rust_val) = Some 30)\<rparr>"

definition service_tests :: "(prim_val, 'e) serde_lib \<Rightarrow> 'x service_test list" where
  "service_tests L =
     [multi_and_zero_arg_round_trip L, handler_error_propagates_through_macro L, unknown_method_is_404 L,
      client_and_impl_are_interchangeable_behind_trait L]"

section \<open>They pass\<close>

text \<open>The request a call sends.\<close>

fun call_request :: "(prim_val, 'e) serde_lib \<Rightarrow> test_call \<Rightarrow> unit patina_error + (string \<times> bytes)" where
  "call_request L (Proxy m args) =
     and_then (proxy_payload L (expand_client_fn test_calc m) args) (\<lambda>p. Inr (cf_wire_name (expand_client_fn test_calc m), p))"
| "call_request L (Raw name p) = Inr (name, p)"

text \<open>
  The calls a connection carries are those of the test: each is made with the request of its place,
  and not at all if its arguments do not serialise.
\<close>

definition test_calls :: "(prim_val, 'e) serde_lib \<Rightarrow> 'x service_test \<Rightarrow> net_event list \<Rightarrow> bool" where
  "test_calls L t ls \<longleftrightarrow> (\<forall>ev \<in> set (client_side ls). \<forall>c name p. ev = EvCall c name p \<longrightarrow>
     c < length (sv_calls t) \<and> call_request L (sv_calls t ! c) = Inr (name, p))"

lemma test_generated: "payload_codec prim_base L \<Longrightarrow> generated_server prim_base L test_calc"
  by (intro generated_server.intro generated_server_axioms.intro)
    (auto simp: test_calc_def test_add_def test_ping_def test_boom_def)

lemma start_calc_server_served:
  "handlers (start_calc_server L disp) = served L disp test_calc_impl test_calc builder"
  by (simp add: start_calc_server_def wrapper_service_def wrapper_new_def served_def)

text \<open>The values the service returns serialise.\<close>

definition values_encode :: "(prim_val, 'e) serde_lib \<Rightarrow> bool" where
  "values_encode L \<longleftrightarrow> (\<forall>v \<in> {I32 5, I32 (- 6), I32 30, Text ''pong''}. \<not> isl (to_vec L (Val v)))"

lemma test_call_result:
  assumes codec: "payload_codec prim_base L" and vals: "values_encode L"
    and call: "call_request L (Proxy m args) = Inr (name, p)"
    and m: "m \<in> set (st_methods test_calc)" "typed_list prim_base args (map arg_ty (m_args m))"
    and result: "fst (test_calc_impl (m_ident m) args () :: ('x patina_error + prim_val rust_val) \<times> unit) = r"
      "case r of Inr (Val v) \<Rightarrow> v \<in> {I32 5, I32 (- 6), I32 30, Text ''pong''} \<and> prim_base v (m_ok_type m) | Inr _ \<Rightarrow> False | _ \<Rightarrow> True"
  shows "returned L m (fst (handle (handlers (start_calc_server L (disp :: 'x \<Rightarrow> string))) name p ()))
    = (case r of Inr v \<Rightarrow> Inr v | Inl e \<Rightarrow> Inl (remote_error disp e :: 'y patina_error))"
proof -
  from call have p: "proxy_payload L (expand_client_fn test_calc m) args = (Inr p :: unit patina_error + bytes)"
    "name = cf_wire_name (expand_client_fn test_calc m)"
    by (auto simp: and_then_Inr_iff)
  have "result_encodes prim_base L m (fst (test_calc_impl (m_ident m) args () :: ('x patina_error + prim_val rust_val) \<times> unit))"
    using result vals by (auto simp: result_encodes_def values_encode_def split: sum.splits rust_val.splits)
  from typed_call_result [where impl = test_calc_impl and w = "()", OF test_generated [OF codec] m p(1) this]
  show ?thesis by (simp add: start_calc_server_served p(2) result(1))
qed

text \<open>Each call that has returned has the reply of the request of its place.\<close>

lemma test_replies:
  assumes "envelope_codec enc dec new_codec fdec fenc max_frame held"
    and "exec (net_step enc dec fdec fenc hs) (net_start new_codec ()) ls n" "few_calls ls" "lasting ls"
    and "test_calls L t ls" "calls (n_client n) c = Finished r"
  shows "\<exists>name p. call_request L (sv_calls t ! c) = Inr (name, p) \<and> r = fst (handle hs name p ())"
proof -
  from envelope_codec.lasting_result [OF assms(1-4,6)] obtain q where
    q: "built (n_client n) c = Some q" "r = fst (handle hs (rq_method q) (rq_payload q) ())" by auto
  then have "EvCall c (rq_method q) (rq_payload q) \<in> set (client_side ls)"
    using run_asked_ok [OF net_exec_client [OF assms(2)]] by (auto simp: asked_ok_def)
  with assms(5) q(2) show ?thesis unfolding test_calls_def by blast
qed

lemma test_methods: "m \<in> {test_add, test_ping, test_boom} \<Longrightarrow> m \<in> set (st_methods test_calc)"
  by (auto simp: test_calc_def)

lemma test_unknown: "is_404 (fst (handle (handlers (start_calc_server L disp)) ''Calc::nonexistent'' p ()))"
  if "payload_codec prim_base L"
proof -
  have "''Calc::nonexistent'' \<notin> wire_method_name test_calc ` set (st_methods test_calc)"
    by (auto simp: test_calc_def wire_method_name_def test_add_def test_ping_def test_boom_def)
  then show ?thesis
    by (simp add: start_calc_server_served served_lookup [OF test_generated [OF that]] handle_def UNKNOWN_METHOD_CODE_def)
qed

text \<open>
  C34. The tests of the service macro pass. Over every codec and every serialiser that keep the laws, in
  every execution of the whole system that makes the calls of one of the tests and in which they all
  return over a connection that lasts, its checks succeed: the proxy gives the sums and the text of the
  implementation, its 503 arrives with code and text, an undeclared name gives a 404, and a function
  over the trait gives the same with the proxy as with the implementation.
\<close>

theorem service_macro_tests_pass:
  assumes "envelope_codec enc dec new_codec fdec fenc max_frame held"
    and "payload_codec prim_base L" and "values_encode L"
    and "exec (net_step enc dec fdec fenc (handlers (start_calc_server L (disp :: 'd \<Rightarrow> string)))) (net_start new_codec ()) ls n"
    and "few_calls ls" and "lasting ls" and "t \<in> set (service_tests L)" and "test_calls L t ls"
    and "\<forall>c < length (sv_calls t). calls (n_client n) c = Finished (results c)"
  shows "sv_check t results"
proof -
  have reply: "\<exists>name p. call_request L (sv_calls t ! c) = Inr (name, p)
      \<and> results c = fst (handle (handlers (start_calc_server L disp)) name p ())" if "c < length (sv_calls t)" for c
    using test_replies [OF assms(1,4-6,8)] assms(9) that by blast
  have typed: "returned L m (results c) = (case r of Inr v \<Rightarrow> Inr v | Inl e \<Rightarrow> Inl (remote_error disp e))"
    if "c < length (sv_calls t)" "sv_calls t ! c = Proxy m args" "m \<in> {test_add, test_ping, test_boom}"
      "typed_list prim_base args (map arg_ty (m_args m))" "fst (test_calc_impl (m_ident m) args ()) = r"
      "case r of Inr (Val v) \<Rightarrow> v \<in> {I32 5, I32 (- 6), I32 30, Text ''pong''} \<and> prim_base v (m_ok_type m) | Inr _ \<Rightarrow> False | _ \<Rightarrow> True"
    for c m args and r :: "'d patina_error + prim_val rust_val"
  proof -
    have "\<exists>name p. call_request L (Proxy m args) = Inr (name, p)
        \<and> results c = fst (handle (handlers (start_calc_server L disp)) name p ())"
      using reply [OF that(1)] unfolding that(2) .
    then obtain name p where "call_request L (Proxy m args) = Inr (name, p)"
      "results c = fst (handle (handlers (start_calc_server L disp)) name p ())" by blast
    with test_call_result [OF assms(2,3) this(1) test_methods [OF that(3)] that(4-6)] show ?thesis by simp
  qed
  note defs = test_add_def test_ping_def test_boom_def calc_impl_add_def
  from assms(7) consider "t = multi_and_zero_arg_round_trip L" | "t = handler_error_propagates_through_macro L"
    | "t = unknown_method_is_404 L" | "t = client_and_impl_are_interchangeable_behind_trait L"
    by (auto simp: service_tests_def)
  then show ?thesis
  proof cases
    case 1
    show ?thesis
      using typed [of 0 test_add "[Val (I32 2), Val (I32 3)]"] typed [of 1 test_add "[Val (I32 (- 10)), Val (I32 4)]"]
        typed [of 2 test_ping "[]"]
      by (simp add: 1 multi_and_zero_arg_round_trip_def defs)
  next
    case 2
    show ?thesis using typed [of 0 test_boom "[]"] by (simp add: 2 handler_error_propagates_through_macro_def defs application_def)
  next
    case 3
    with reply [of 0] show ?thesis using test_unknown [OF assms(2)] by (auto simp: unknown_method_is_404_def)
  next
    case 4
    show ?thesis
      using typed [of 0 test_add "[Val (I32 10), Val (I32 20)]"]
      by (simp add: 4 client_and_impl_are_interchangeable_behind_trait_def defs)
  qed
qed

section \<open>A complete run\<close>

definition error_table :: "(string \<times> bytes) list" where
  "error_table = [(wire_method_name test_calc test_boom, prim_put (Tuple []))]"

lemma boom_short: "short_call (\<lambda>e :: string. e) test_calc_impl test_calc test_boom []"
  by (simp add: short_call_def test_calc_def test_boom_def wire_method_name_def application_def)

theorem service_macro_tests_pass_witness:
  "\<exists>ls r (n :: (string, framing, unit) net).
     exec (ref_net_step (handlers (start_calc_server prim_lib (\<lambda>e :: string. e)))) (net_start ref_new_codec ()) ls n
     \<and> calls (n_client n) 0 = Finished r \<and> is_service_down (returned prim_lib test_boom r)"
proof -
  let ?t = "handler_error_propagates_through_macro prim_lib :: string service_test"
  note gen = test_generated [OF prim_payload.payload_codec_axioms]
  have "\<forall>(m, p) \<in> set error_table. \<forall>i. framed ref_encode (Request \<lparr>rq_id = i, rq_method = m, rq_payload = p\<rparr>)
     \<and> (\<forall>v. framed ref_encode (fst (dispatch (handlers (start_calc_server prim_lib (\<lambda>e :: string. e))) \<lparr>rq_id = i, rq_method = m, rq_payload = p\<rparr> v)))"
    using short_call_framed [OF gen boom_short] unfolding start_calc_server_served error_table_def by simp
  from table_completes [OF ref_envelope_codec this, of "()"] obtain ls and n :: "(string, framing, unit) net" where
    n: "exec (ref_net_step (handlers (start_calc_server prim_lib (\<lambda>e :: string. e)))) (net_start ref_new_codec ()) ls n"
      "few_calls ls" "lasting ls" "made_calls error_table ls" "\<exists>r. calls (n_client n) 0 = Finished r"
    by (auto simp: error_table_def CLIENT_WRITER_CHANNEL_CAPACITY_def)
  then obtain r where r: "calls (n_client n) 0 = Finished r" by blast
  have "call_request prim_lib (Proxy test_boom []) = Inr (wire_method_name test_calc test_boom, prim_put (Tuple []))"
    using short_call_payload [OF gen boom_short, where 'x = unit] by (simp add: expand_client_fn_def)
  then have calls: "test_calls prim_lib ?t ls"
    using n(4) by (fastforce simp: test_calls_def made_calls_def error_table_def handler_error_propagates_through_macro_def)
  have "values_encode prim_lib" by (simp add: values_encode_def prim_lib_def)
  moreover have "?t \<in> set (service_tests prim_lib)" by (simp add: service_tests_def)
  moreover have "\<forall>c < length (sv_calls ?t). calls (n_client n) c = Finished r"
    using r by (simp add: handler_error_propagates_through_macro_def)
  ultimately have "sv_check ?t (\<lambda>_. r)"
    by (rule service_macro_tests_pass [OF ref_envelope_codec prim_payload.payload_codec_axioms _ n(1-3) _ calls])
  with n(1) r show ?thesis by (auto simp: handler_error_propagates_through_macro_def)
qed

end
