(* ===== verification/Loopback_Tests.thy ===== *)
theory Loopback_Tests
  imports Echo
begin

text \<open>
  The tests of \<^verbatim>\<open>crates/patina-rpc/tests/loopback.rs\<close>: two \<open>Framed\<close> ends over a duplex stream. As in
  the echo program, \<open>split\<close> says in what pieces the bytes arrive; that covers the bounded buffer of the
  duplex and, in the second test, every interleaving of the sending task with the receiver. A test is
  \<open>True\<close> when none of its \<open>expect\<close>s and assertions fails.
\<close>

section \<open>The tests\<close>

definition sample_envelopes :: "envelope list" where
  "sample_envelopes =
     [Request \<lparr>rq_id = 1, rq_method = ''store.get'', rq_payload = [0xde, 0xad, 0xbe, 0xef]\<rparr>,
      Response \<lparr>rs_id = 1, rs_payload = map byte_of_char ''hello world''\<rparr>,
      Error \<lparr>er_id = 1, er_code = 500, er_message = ''internal''\<rparr>,
      Heartbeat]"

fun round_trip_loop ::
  "('s wire_codec \<Rightarrow> bytes \<Rightarrow> ('x wire_error + envelope option) \<times> 's wire_codec \<times> bytes) \<Rightarrow>
   ('s wire_codec \<Rightarrow> envelope \<Rightarrow> bytes \<Rightarrow> ('x wire_error + unit) \<times> 's wire_codec \<times> bytes) \<Rightarrow>
   ('s wire_codec \<Rightarrow> bytes \<Rightarrow> ('x wire_error + envelope option) \<times> 's wire_codec \<times> bytes) \<Rightarrow>
   (bytes \<Rightarrow> bytes list) \<Rightarrow> 's wire_codec \<Rightarrow> 's wire_codec \<Rightarrow> bytes \<Rightarrow> bytes list \<Rightarrow> envelope list \<Rightarrow> bool" where
  "round_trip_loop dec enc eof split c s buf wire [] = True"
| "round_trip_loop dec enc eof split c s buf wire (envelope # envelopes) =
     (case enc c envelope [] of
        (Inl e, _, _) \<Rightarrow> False
      | (Inr _, c', frame) \<Rightarrow>
          (case next_envelope dec eof s buf (wire @ split frame) of
             (Some (Inr received), s', buf', wire') \<Rightarrow>
               received = envelope \<and> round_trip_loop dec enc eof split c' s' buf' wire' envelopes
           | (_, _, _, _) \<Rightarrow> False))"

definition each_variant_round_trips_over_duplex ::
  "('s wire_codec \<Rightarrow> bytes \<Rightarrow> ('x wire_error + envelope option) \<times> 's wire_codec \<times> bytes) \<Rightarrow>
   ('s wire_codec \<Rightarrow> envelope \<Rightarrow> bytes \<Rightarrow> ('x wire_error + unit) \<times> 's wire_codec \<times> bytes) \<Rightarrow>
   ('s wire_codec \<Rightarrow> bytes \<Rightarrow> ('x wire_error + envelope option) \<times> 's wire_codec \<times> bytes) \<Rightarrow>
   (nat \<Rightarrow> 's) \<Rightarrow> (bytes \<Rightarrow> bytes list) \<Rightarrow> bool" where
  "each_variant_round_trips_over_duplex dec enc eof new_codec split =
     round_trip_loop dec enc eof split (wire_new new_codec) (wire_new new_codec) [] [] sample_envelopes"

definition burst :: "envelope list" where
  "burst = map (\<lambda>i. Request \<lparr>rq_id = word_of_nat i, rq_method = ''m'' @ dec_digits i,
     rq_payload = replicate (i mod 17) (word_of_nat i)\<rparr>) [0..<50]"

text \<open>The sending task: the bytes it has sent when it closes its end, \<open>None\<close> if an \<open>expect\<close> panics.\<close>

fun send_task ::
  "('s wire_codec \<Rightarrow> envelope \<Rightarrow> bytes \<Rightarrow> ('x wire_error + unit) \<times> 's wire_codec \<times> bytes) \<Rightarrow>
   's wire_codec \<Rightarrow> bytes \<Rightarrow> envelope list \<Rightarrow> bytes option" where
  "send_task enc c sent [] = Some sent"
| "send_task enc c sent (envelope # envelopes) =
     (case enc c envelope sent of
        (Inl e, _, _) \<Rightarrow> None
      | (Inr _, c', sent') \<Rightarrow> send_task enc c' sent' envelopes)"

fun receive_loop ::
  "('s wire_codec \<Rightarrow> bytes \<Rightarrow> ('x wire_error + envelope option) \<times> 's wire_codec \<times> bytes) \<Rightarrow>
   ('s wire_codec \<Rightarrow> bytes \<Rightarrow> ('x wire_error + envelope option) \<times> 's wire_codec \<times> bytes) \<Rightarrow>
   's wire_codec \<Rightarrow> bytes \<Rightarrow> bytes list \<Rightarrow> envelope list \<Rightarrow> bool" where
  "receive_loop dec eof s buf wire [] = (fst (next_envelope dec eof s buf wire) = None)"
| "receive_loop dec eof s buf wire (expected # envelopes) =
     (case next_envelope dec eof s buf wire of
        (Some (Inr actual), s', buf', wire') \<Rightarrow> actual = expected \<and> receive_loop dec eof s' buf' wire' envelopes
      | (_, _, _, _) \<Rightarrow> False)"

definition burst_of_envelopes_preserves_order_and_content ::
  "('s wire_codec \<Rightarrow> bytes \<Rightarrow> ('x wire_error + envelope option) \<times> 's wire_codec \<times> bytes) \<Rightarrow>
   ('s wire_codec \<Rightarrow> envelope \<Rightarrow> bytes \<Rightarrow> ('x wire_error + unit) \<times> 's wire_codec \<times> bytes) \<Rightarrow>
   ('s wire_codec \<Rightarrow> bytes \<Rightarrow> ('x wire_error + envelope option) \<times> 's wire_codec \<times> bytes) \<Rightarrow>
   (nat \<Rightarrow> 's) \<Rightarrow> (bytes \<Rightarrow> bytes list) \<Rightarrow> bool" where
  "burst_of_envelopes_preserves_order_and_content dec enc eof new_codec split =
     (case send_task enc (wire_new new_codec) [] burst of
        None \<Rightarrow> False
      | Some sent \<Rightarrow> receive_loop dec eof (wire_new new_codec) [] (split sent) burst)"

section \<open>They pass\<close>

context envelope_codec
begin

lemma round_trip_all:
  assumes "list_all2 (sends mx) es ps" "\<And>bs. concat (split bs) = bs" "mx < 2 ^ 32"
    and "cap c = mx" "cap s = mx" "rest_of s buf = []" "concat wire = []"
  shows "round_trip_loop wdec wenc eof split c s buf wire es"
  using assms(1,4-7)
proof (induction es ps arbitrary: c s buf wire rule: list_all2_induct)
  case (Cons e es p ps)
  from wire_encode_ok [of c e p "[]"] Cons.hyps(1) Cons.prems(1) obtain c1 where
    1: "wenc c e [] = (Inr (), c1, frame_of p)" "cap c1 = mx" by auto
  have "rest_of s buf @ concat (wire @ split (frame_of p)) = frame_of p"
    using Cons.prems(3,4) assms(2) by simp
  from next_envelope_frame [OF this, of e eof] Cons.hyps(1) Cons.prems(2) assms(3) obtain s2 buf2 wire2 where
    2: "next_envelope wdec eof s buf (wire @ split (frame_of p)) = (Some (Inr e), s2, buf2, wire2)"
    "cap s2 = mx" "rest_of s2 buf2 = []" "concat wire2 = []" by auto
  from Cons.IH [OF 1(2) 2(2-4)] 1(1) 2(1) show ?case by simp
qed simp

lemma send_task_sends:
  "list_all2 (sends (cap c)) es ps \<Longrightarrow> send_task wenc c sent es = Some (sent @ concat (map frame_of ps))"
proof (induction es arbitrary: c sent ps)
  case (Cons e es)
  then obtain p ps' where p: "ps = p # ps'" "sends (cap c) e p" "list_all2 (sends (cap c)) es ps'"
    by (auto simp: list_all2_Cons1)
  from wire_encode_ok [OF p(2)] obtain c' where
    c': "wenc c e sent = (Inr (), c', sent @ frame_of p)" "cap c' = cap c" by blast
  from Cons.IH [of c' ps'] p(1,3) c' show ?case by simp
qed simp

lemma receive_all:
  assumes "list_all2 (sends (cap s)) es ps" "cap s < 2 ^ 32" "rest_of s buf @ concat wire = concat (map frame_of ps)"
    and eof: "ends_quietly wdec eof"
  shows "receive_loop wdec eof s buf wire es"
  using assms(1-3)
proof (induction es arbitrary: s buf wire ps)
  case Nil
  then have "rest_of s buf = []" "concat wire = []" by auto
  from next_envelope_end [OF this Nil(2) eof] show ?case by simp
next
  case (Cons e es)
  then obtain p ps' where p: "ps = p # ps'" "sends (cap s) e p" "list_all2 (sends (cap s)) es ps'"
    by (auto simp: list_all2_Cons1)
  have "rest_of s buf @ concat wire = frame_of p @ concat (map frame_of ps')" using Cons.prems(3) p(1) by simp
  from next_envelope_stream [OF this p(2) Cons.prems(2), of eof] obtain s' buf' wire' where
    s': "next_envelope wdec eof s buf wire = (Some (Inr e), s', buf', wire')" "cap s' = cap s"
      "rest_of s' buf' @ concat wire' = concat (map frame_of ps')" by blast
  from Cons.IH [of s' ps' buf' wire'] s' p(3) Cons.prems(2) show ?case by simp
qed

end

text \<open>
  C35. The loopback tests pass. For every codec that keeps the laws, and however the bytes are cut on
  their way: if the envelopes of the tests fit in a frame, each of the four sample envelopes arrives as it
  was sent, and of the burst of fifty requests every one arrives, unchanged and in order, and after the
  last the receiver sees the end of the stream.
\<close>

theorem loopback_tests_pass:
  assumes "envelope_codec enc dec new_codec fdec fenc max_frame held"
    and "\<And>bs. concat (split bs) = bs"
    and "\<forall>e \<in> set (sample_envelopes @ burst). \<exists>p. enc e = Inr p \<and> length p \<le> DEFAULT_MAX_FRAME_LEN"
    and "ends_quietly (wire_decode dec fdec) eof"
  shows "each_variant_round_trips_over_duplex (wire_decode dec fdec) (wire_encode enc fenc) eof new_codec split
    \<and> burst_of_envelopes_preserves_order_and_content (wire_decode dec fdec) (wire_encode enc fenc) eof new_codec split"
proof -
  note sends = envelope_codec.sends_def [OF assms(1)] and fresh = envelope_codec.wire_new_fresh [OF assms(1)]
  have all: "list_all2 (envelope_codec.sends enc DEFAULT_MAX_FRAME_LEN) es (map (projr \<circ> enc) es)"
    if "set es \<subseteq> set (sample_envelopes @ burst)" for es
    unfolding list_all2_conv_all_nth
  proof (intro conjI allI impI)
    fix i assume "i < length es"
    with that have "es ! i \<in> set (sample_envelopes @ burst)" using nth_mem by blast
    with assms(3) \<open>i < length es\<close> show "envelope_codec.sends enc DEFAULT_MAX_FRAME_LEN (es ! i) (map (projr \<circ> enc) es ! i)"
      by (force simp: sends)
  qed simp
  have samples: "each_variant_round_trips_over_duplex (wire_decode dec fdec) (wire_encode enc fenc) eof new_codec split"
    using envelope_codec.round_trip_all [OF assms(1) all assms(2) default_cap_less, of sample_envelopes]
    by (simp add: each_variant_round_trips_over_duplex_def fresh)
  let ?sent = "concat (map frame_of (map (projr \<circ> enc) burst))"
  have burst: "list_all2 (envelope_codec.sends enc (envelope_codec.cap max_frame (wire_new new_codec))) burst (map (projr \<circ> enc) burst)"
    using all [of burst] by (simp add: fresh)
  then have "send_task (wire_encode enc fenc) (wire_new new_codec) [] burst = Some ?sent"
    using envelope_codec.send_task_sends [OF assms(1) burst, of "[]"] by simp
  moreover have "receive_loop (wire_decode dec fdec) eof (wire_new new_codec) [] (split ?sent) burst"
    using default_cap_less by (intro envelope_codec.receive_all [OF assms(1) burst]) (simp_all add: fresh assms(2,4))
  ultimately show ?thesis using samples by (simp add: burst_of_envelopes_preserves_order_and_content_def)
qed

lemma envelope_short:
  assumes "e \<in> set (sample_envelopes @ burst)"
  shows "fits e \<and> length (put_envelope e) \<le> 100"
proof (cases "e \<in> set sample_envelopes")
  case True
  then show ?thesis by (auto simp: sample_envelopes_def put_vec_def put_varint_def)
next
  case False
  with assms obtain i where i: "i < 50" "e = Request \<lparr>rq_id = word_of_nat i, rq_method = ''m'' @ dec_digits i,
      rq_payload = replicate (i mod 17) (word_of_nat i)\<rparr>" by (auto simp: burst_def)
  have "i div 10 < 10" using i(1) by simp
  then have "length (dec_digits i) \<le> 2" by (subst dec_digits.simps, subst dec_digits.simps) simp
  moreover define k where "k = i mod 17"
  then have "k \<le> 16" by simp
  ultimately show ?thesis
    using length_put_varint [of "unat (word_of_nat i :: u64)"] length_put_varint [of "Suc (length (dec_digits i))"]
      length_put_varint [of k]
    by (simp add: i(2) put_vec_def k_def [symmetric])
qed

theorem loopback_tests_pass_witness:
  "burst_of_envelopes_preserves_order_and_content (wire_decode ref_decode ref_frame_decode)
     (wire_encode ref_encode ref_frame_encode :: _ \<Rightarrow> _ \<Rightarrow> _ \<Rightarrow> (string wire_error + unit) \<times> _)
     (eof_of (wire_decode ref_decode ref_frame_decode)) ref_new_codec (map (\<lambda>b. [b]))"
proof (rule loopback_tests_pass [OF ref_envelope_codec _ _ eof_of_ends_quietly, THEN conjunct2])
  show "\<forall>e \<in> set (sample_envelopes @ burst). \<exists>p. ref_encode e = Inr p \<and> length p \<le> DEFAULT_MAX_FRAME_LEN"
  proof
    fix e assume "e \<in> set (sample_envelopes @ burst)"
    then have "fits e" "length (put_envelope e) \<le> 100"
      using envelope_short [of e] by auto
    then show "\<exists>p. ref_encode e = Inr p \<and> length p \<le> DEFAULT_MAX_FRAME_LEN"
      by (simp add: ref_encode_def DEFAULT_MAX_FRAME_LEN_def)
  qed
qed simp

end
