(* ===== verification/Spec2Isabelle.thy ===== *)
theory Spec2Isabelle
  imports Typed_Shared Shared_Schedule Shared_Conn Ping_Pong Calc_Example Echo Codec_Tests Pending_Tests Multiplexer_Tests Service_Macro_Tests Loopback_Tests
begin

text \<open>
  Patina RPC: a verification library of the crates \<^verbatim>\<open>crates/patina-rpc\<close> (wire layer, client
  and server multiplexers) and \<^verbatim>\<open>crates/patina-macros\<close> (the \<open>service\<close> attribute macro).

  \<^bold>\<open>The program.\<close> Many callers share one TCP connection. \<open>Client::call\<close> numbers a request, parks a
  oneshot sender in the pending map and queues the request; a writer task sends it, a reader task
  decodes answers and wakes the caller with the matching id. The server reads requests, spawns a
  worker per request that runs the registered handler, and a writer task sends the answers. The codec
  frames bincode bodies with a four-byte big-endian length. The macro turns an async trait into the
  trait, a client proxy and a server dispatcher.

  \<^bold>\<open>Theories\<close>, each importing what its part of the code calls:

  \<^item> \<open>Patina_Prelude\<close>: integer widths, Rust's \<open>?\<close> on sums, runs of a transition function with their
    invariant rules, decimal and big-endian digits, list lemmas.
  \<^item> \<open>Envelope\<close>, \<open>Errors\<close>: the data of \<^verbatim>\<open>envelope.rs\<close> and \<^verbatim>\<open>error.rs\<close>; also
    \<open>HandlerError\<close> of \<^verbatim>\<open>server.rs\<close>.
  \<^item> \<open>Wire_Lib\<close>: what the code relies on of \<open>bincode\<close> and \<open>LengthDelimitedCodec\<close>, as the locales
    \<open>bincode\<close> and \<open>length_delimited\<close>. \<open>Codec\<close>: \<open>WireCodec\<close> (\<^verbatim>\<open>codec.rs\<close>) over them, and the
    locale \<open>envelope_codec\<close> that composes both contracts. \<open>Wire_Layout\<close>: a reference instance in the
    documented layout, which interprets the locales. \<open>Codec_Props\<close>: the properties.
  \<^item> \<open>Pending_Map\<close>: \<open>PendingMap\<close> and \<open>PendingGuard\<close> (\<^verbatim>\<open>client.rs\<close>) as an instance of the locale
    \<open>registry\<close>. \<open>Client\<close>: the call future and both tasks as steps. \<open>Client_Inv\<close>: the invariant and
    its preservation per operation. \<open>Client_Trace\<close>: where results, ids and sent envelopes come from.
    \<open>Client_Props\<close>: the properties.
  \<^item> \<open>Server\<close>: builder, registry, dispatch and the contract of a service (locale
    \<open>service_contract\<close>). \<open>Server_Conn\<close>: one connection as a labelled step relation with its
    accounting invariant. \<open>Server_Props\<close>: the properties.
  \<^item> \<open>Macro_Model\<close>: validation (\<^verbatim>\<open>model.rs\<close>). \<open>Macro_Expand\<close>: generation (\<^verbatim>\<open>expand.rs\<close>)
    as data. \<open>Macro_Props\<close>: the properties. \<open>Payload\<close>: the helpers \<open>__private\<close> of \<^verbatim>\<open>lib.rs\<close>
    and the locale \<open>payload_codec\<close>. \<open>Service\<close>: what the generated code does when it runs; a
    generated server satisfies \<open>service_contract\<close> (\<open>sublocale\<close>), with the \<open>Calc\<close> service of the
    tests as an instance. \<open>Service_Props\<close>: the properties.
  \<^item> \<open>System\<close>: the two ends with their streams as a relation, and one call from end to end.
    \<open>Rpc_Spec\<close>: the abstract specification, calls that are executed at most once, and the locale
    \<open>refinement_map\<close> that lifts a refinement mapping to executions. \<open>Pipe\<close>: one direction of a
    connection, bytes on the wire and in the read buffer, with its contract. \<open>Network\<close>: the client, the
    server connection and two pipes as one step relation. \<open>Network_Inv\<close>: its invariant.
    \<open>Network_Refines\<close>: the refinement mapping to \<open>Rpc_Spec\<close>, which interprets \<open>refinement_map\<close> for
    every codec that keeps the laws. \<open>Client_Live\<close>, \<open>Network_Live\<close>: while nothing fails, messages
    move on until a waiting call has its answer. \<open>Network_Props\<close>: the facts of one connection that the
    properties rest on. \<open>Any_Schedule\<close>: messages move on in whatever order the scheduler takes the steps.
  \<^item> \<open>Shared_World\<close>, \<open>Shared_Server\<close>, \<open>Shared_Refines\<close>, \<open>Shared_Props\<close>: the accept loop with any number of
    connections that share the service (\<open>Server::serve\<close> of \<^verbatim>\<open>server.rs\<close>). Seen from one connection the
    others only change the state of the service, so an execution of it among others is one of it alone
    with handlers that are told the state they find; that carries the invariants of \<open>Network_Inv\<close> over,
    and the refinement mapping is that of each connection, with the connection as part of a call's name.
    \<open>Shared_Schedule\<close>: no schedule of a server, and nothing that other connections do, keeps a waiting call
    from its answer. \<open>Shared_Conn\<close>: streams, replies, panics and lost answers on each connection of a server.
    \<open>Typed_Shared\<close>: the generated clients of a server see sequential calls of the implementation.
  \<^item> \<open>Closed_Calls\<close>: when a call ends with \<open>Closed\<close>. \<open>Program_Live\<close>: programs with a fixed list of calls
    can run to their end, and how their main functions end. \<open>Rust_Values\<close>: values of primitive types with
    a serialiser that interprets \<open>payload_codec\<close>, and what a typed call over a connection gives.
  \<^item> The programs and tests of the repository: \<open>Ping_Pong\<close>, \<open>Calc_Example\<close> and \<open>Echo\<close>
    (\<^verbatim>\<open>examples/\<close>), \<open>Codec_Tests\<close> and \<open>Pending_Tests\<close> (the test modules of \<^verbatim>\<open>codec.rs\<close>
    and \<^verbatim>\<open>client.rs\<close>), \<open>Multiplexer_Tests\<close>, \<open>Service_Macro_Tests\<close> and \<open>Loopback_Tests\<close>
    (\<^verbatim>\<open>tests/\<close>). This theory imports them all.

  \<^bold>\<open>How state and steps correspond.\<close> Every atomic action on state that tasks share is one step: a
  critical section of the mutex, an operation on the atomic counter, a channel operation, a test or
  cancellation of the token. So every interleaving of callers and tasks is a run. Local variables of a
  task or future are the arguments of its control state (\<open>call_state\<close>, \<open>writer_state\<close>,
  \<open>reader_state\<close>, \<open>dispatcher\<close>, \<open>worker\<close>, \<open>conn_writer\<close>). A dropped future runs the drop of its guard. Frames
  that arrive, send failures, panics and aborts are events of the environment. Fields called history
  in their theories (\<open>built\<close>, \<open>entered\<close>, \<open>sent\<close>; \<open>received\<close>, \<open>answered\<close>, \<open>discarded\<close>, \<open>panicked\<close>)
  are read by no step.

  \<^bold>\<open>What is shown.\<close> For a server with all its connections, under every interleaving, fragmentation and
  failure: it refines the at-most-once specification; its calls are linearizable, so the service's state
  and all results are those of one sequential run of the calls executed that respects their order in
  time; with generated clients that is a run of the user's implementation itself, on typed arguments and
  with typed results; and the accept loop serves exactly the sockets accepted before its first error. For
  each connection of the server, whatever the others do: no stream is misread, even after a send that
  failed half way; while it works, its messages take at most a number of hops known beforehand, in any
  schedule and while its callers go on calling, and once nothing moves all waiting calls have their
  answers; a call returns \<open>Closed\<close> only after the connection has ended, and as long as it lasts every call
  that returns has its handler's reply; and a handler that panics, or a send that fails, strands callers
  that are never told. A typed call through a generated proxy is the local call of the implementation.
  The example programs and the integration tests inherit this: their assertions never fail, complete
  runs of them exist, and in these main ends well. For the
  client: routing, no lost wake-up, no leak of pending entries, unique ids, teardown, cancellation, and the
  run that strands a call. For the codec: round trip under every fragmentation and the error paths. For
  the server: answers match requests, a returned connection has answered everything, draining ends, and
  the half-open connection. For the macro: exactly which traits are accepted, the diagnostics, that the
  generated items agree, and that only typed values cross them. The unit tests are evaluated on every
  library that keeps the laws.

  \<^bold>\<open>Bounds.\<close> Ids are 64-bit words, so uniqueness, and with it the refinement, is stated for at most
  \<open>2 ^ 64\<close> ids on a connection (\<open>few_calls\<close>). The framing laws need a cap below \<open>2 ^ 32\<close>; the default is
  64 MiB. \<open>decode_all\<close>, \<open>echo_server_loop\<close> and \<open>echo_server_end\<close> are partial functions whose
  termination on framed streams is part of the properties that use them. No definition uses fuel.

  \<^bold>\<open>What is not modelled.\<close> Time (so of the test that handlers run concurrently only its results), the
  scheduler's fairness, TCP and the tokio runtime, the poisoning of the mutex, logging and its set-up,
  \<open>syn\<close>'s parser and the token-level layout of generated code, the harness of the compile-fail tests, and
  the streaming phase of \<^verbatim>\<open>DESIGN.md\<close>, which is not implemented. Handlers are functions of the service
  state and the payload and run in one step: a handler that never returns is a worker whose step is not
  taken, and one that panics leaves the state alone.
\<close>

section \<open>The calls of all generated clients\<close>

text \<open>
  C3. Typed calls on a server are linearizable with respect to the implementation. Let every request
  that the clients of a server build be one that the generated client makes for a call \<open>tc x\<close> of the
  service, with well-typed arguments, and let the implementation's values serialise. Then there is an
  order \<open>cs @ ds\<close> of calls, each at most once, such that running the user's implementation directly on
  these calls one after the other gives the service's state; every call that has returned anything but
  \<open>Closed\<close> gave its caller the value of that run, or its error as it crosses the wire; calls that had
  returned by an earlier moment are in \<open>cs\<close>, and calls that had not built their request then are not.
\<close>

theorem typed_calls_linearizable:
  assumes "envelope_codec enc dec new_codec fdec fenc max_frame held"
    and "generated_server base L service" and "results_encode base L service impl"
    and "exec (host_step enc dec new_codec fdec fenc (served L disp impl service b)) (host_start w) ls s"
    and "exec (host_step enc dec new_codec fdec fenc (served L disp impl service b)) s ls' t" and "few_calls_each (ls @ ls')"
    and "\<forall>x q. request_on t x = Some q \<longrightarrow> proxy_request base L service (tc x) q"
  shows "\<exists>cs ds vs. distinct (cs @ ds) \<and> run_local impl (map tc (cs @ ds)) w = (vs, h_world t)
    \<and> (\<forall>x r. result_on t x = Some r \<and> r \<noteq> Inl Closed \<longrightarrow>
        (\<exists>v. (x, v) \<in> set (zip (cs @ ds) vs)
          \<and> proxy_result L (expand_client_fn service (fst (tc x))) r = map_err (remote_error disp) v))
    \<and> (\<forall>x r. result_on s x = Some r \<and> r \<noteq> Inl Closed \<longrightarrow> x \<in> set cs)
    \<and> (\<forall>x \<in> set cs. request_on s x \<noteq> None) \<and> (\<forall>x \<in> set ds. request_on t x \<noteq> None)"
  by (rule typed_effects [OF assms])

theorem typed_calls_linearizable_witness:
  "\<exists>cs ds vs r (t :: (string, framing, nat) host). distinct (cs @ ds) \<and> (0, 3) \<in> set cs \<and> (1, 3) \<notin> set cs
     \<and> run_local calc_impl (map calc_calls_of (cs @ ds)) 0 = (vs, h_world t) \<and> result_on t (0, 3) = Some r
     \<and> proxy_result ref_lib (expand_client_fn calc_trait calc_add_method) r = Inr (Val 14)"
proof -
  obtain ls s ls' r r' and t :: "(string, framing, nat) host" where
    st: "exec (ref_host_step calc_served) (host_start 0) ls s" "exec (ref_host_step calc_served) s ls' t" "few_calls_each (ls @ ls')"
    and on: "result_on s (0, 3) = Some r" "r \<noteq> Inl Closed" "request_on s (1, 3) = None" "result_on t (0, 3) = Some r"
      "request_on t = [(0, 3) \<mapsto> add_request, (1, 3) \<mapsto> ping_request]"
    using two_join [OF ref_envelope_codec calc_framed_requests] by blast
  have "\<forall>x q. request_on t x = Some q \<longrightarrow> proxy_request ref_base ref_lib calc_trait (calc_calls_of x) q"
    using calc_proxy_requests by (auto simp: on(5) calc_calls_of_def)
  from typed_calls_linearizable [OF ref_envelope_codec calc_generated_server calc_results_encode st this]
  obtain cs ds vs where L: "distinct (cs @ ds)" "run_local calc_impl (map calc_calls_of (cs @ ds)) 0 = (vs, h_world t)"
    "\<forall>x r. result_on t x = Some r \<and> r \<noteq> Inl Closed \<longrightarrow>
        (\<exists>v. (x, v) \<in> set (zip (cs @ ds) vs)
          \<and> proxy_result ref_lib (expand_client_fn calc_trait (fst (calc_calls_of x))) r = map_err (remote_error (\<lambda>e. e)) v)"
    "\<forall>x r. result_on s x = Some r \<and> r \<noteq> Inl Closed \<longrightarrow> x \<in> set cs" "\<forall>x \<in> set cs. request_on s x \<noteq> None"
    by blast
  from L(3) on(2,4) obtain v where v: "((0, 3), v) \<in> set (zip (cs @ ds) vs)"
    "proxy_result ref_lib (expand_client_fn calc_trait calc_add_method) r = map_err (remote_error (\<lambda>e. e)) v"
    by (fastforce simp: calc_calls_of_def)
  have "v = Inr (Val 14)"
    using calc_run_add [where xs = "cs @ ds" and n = 0] v(1) L(2) by simp
  with v(2) have "proxy_result ref_lib (expand_client_fn calc_trait calc_add_method) r = Inr (Val 14)" by simp
  moreover have "(0, 3) \<in> set cs" "(1, 3) \<notin> set cs" using L(4,5) on(1-3) by blast+
  ultimately show ?thesis using L(1,2) on(4) by blast
qed

section \<open>The connection as a whole\<close>

text \<open>
  What a call returns is what the server computed for it. Take any run of a client, any execution
  of the server connection, and byte streams cut and delayed in any way between their codecs. If a
  call finished with anything but \<open>Closed\<close>, then the result is the answer that \<open>dispatch\<close> gave, in some
  state of the service, for exactly the request this call built: never another call's answer, a
  stale one or a frame that was not sent.
\<close>

lemma results_come_from_dispatch:
  assumes "envelope_codec enc dec new_codec fdec fenc max_frame held"
    and "client_run es from_stream = Some s" and "length (numbered es) \<le> 2 ^ 64"
    and "conn_exec hs (open_conn w0) ls t"
    and "delivered enc dec new_codec fdec fenc (sent s) (server_frames ls)"
    and "delivered enc dec new_codec fdec fenc (written t) (client_frames es)"
    and "calls s c = Finished r" and "r \<noteq> Inl Closed"
  shows "\<exists>q w e w'. built s c = Some q \<and> dispatch hs q w = (e, w')
    \<and> r = (case e of Response d \<Rightarrow> Inr (rs_payload d) | Error d \<Rightarrow> Inl (Remote (er_code d) (er_message d)) | _ \<Rightarrow> Inl Closed)"
proof -
  from finished_answer [OF assms] obtain q w w' e where
    "built s c = Some q" "dispatch hs q w = (e, w')" "r = call_result (Some e)" by blast
  then show ?thesis
    by (intro exI [of _ q] exI [of _ w] exI [of _ e] exI [of _ w'])
      (cases e; simp add: patina_from_error_data_def)
qed

lemma echo_round:
  "\<exists>t (s2 :: string client).
      client_run (submit_run 3 ''echo'' [7, 8] @ answer_run 3 (Response \<lparr>rs_id = 0, rs_payload = [7, 8]\<rparr>)) from_stream = Some s2
      \<and> delivered ref_encode ref_decode ref_new_codec ref_frame_decode ref_frame_encode (sent s2) (server_frames (answer_events echo_request))
      \<and> conn_exec echo_server (open_conn 0) (answer_events echo_request) t
      \<and> delivered ref_encode ref_decode ref_new_codec ref_frame_decode ref_frame_encode (written t)
          (client_frames (answer_run 3 (Response \<lparr>rs_id = 0, rs_payload = [7, 8]\<rparr>)))
      \<and> calls s2 3 = Finished (Inr [7, 8]) \<and> built s2 3 = Some echo_request"
proof -
  from complete_round [OF ref_envelope_codec echo_encodes(1,2) echo_dispatch echo_encodes(3,4), of 3, where 'y = string]
  obtain s1 :: "string client" and t s2 where s1: "client_run (submit_run 3 ''echo'' [7, 8]) from_stream = Some s1"
    and s2: "client_run (answer_run 3 (Response \<lparr>rs_id = 0, rs_payload = [7, 8]\<rparr>)) s1 = Some s2" "sent s2 = sent s1"
      "calls s2 3 = Finished (call_result (Some (Response \<lparr>rs_id = 0, rs_payload = [7, 8]\<rparr>)))" "built s2 3 = Some echo_request"
    and wire: "delivered ref_encode ref_decode ref_new_codec ref_frame_decode ref_frame_encode (sent s1) (server_frames (answer_events echo_request))"
      "conn_exec echo_server (open_conn 0) (answer_events echo_request) t"
      "delivered ref_encode ref_decode ref_new_codec ref_frame_decode ref_frame_encode (written t)
          (client_frames (answer_run 3 (Response \<lparr>rs_id = 0, rs_payload = [7, 8]\<rparr>)))"
    by (elim exE conjE)
  have "client_run (submit_run 3 ''echo'' [7, 8] @ answer_run 3 (Response \<lparr>rs_id = 0, rs_payload = [7, 8]\<rparr>)) from_stream = Some s2"
    by (simp add: run_append s1 s2(1))
  with s2 wire show ?thesis by (intro exI [of _ t] exI [of _ s2]) simp
qed

lemma results_come_from_dispatch_witness:
  "\<exists>(s :: string client) q w e w'. calls s 3 = Finished (Inr [7, 8]) \<and> built s 3 = Some q
     \<and> dispatch echo_server q w = (e, w')"
proof -
  let ?es = "submit_run 3 ''echo'' [7, 8] @ answer_run 3 (Response \<lparr>rs_id = 0, rs_payload = [7, 8]\<rparr>)"
  obtain s :: "string client" and t where s: "client_run ?es from_stream = Some s"
    "delivered ref_encode ref_decode ref_new_codec ref_frame_decode ref_frame_encode (sent s) (server_frames (answer_events echo_request))"
    "conn_exec echo_server (open_conn 0) (answer_events echo_request) t"
    "delivered ref_encode ref_decode ref_new_codec ref_frame_decode ref_frame_encode (written t)
          (client_frames (answer_run 3 (Response \<lparr>rs_id = 0, rs_payload = [7, 8]\<rparr>)))"
    "calls s 3 = Finished (Inr [7, 8])"
    using echo_round by blast
  have frames: "client_frames ?es = client_frames (answer_run 3 (Response \<lparr>rs_id = 0, rs_payload = [7, 8]\<rparr>))"
    and numbered: "length (numbered ?es) \<le> 2 ^ 64"
    by (simp_all add: submit_run_def answer_run_def)
  from results_come_from_dispatch [OF ref_envelope_codec s(1) numbered s(3,2), unfolded frames, OF s(4,5)] s(5)
  show ?thesis by auto
qed

text \<open>
  A call completes. On a fresh connection, for any handlers, method and payload: the client's call
  reaches the socket, the bytes carry it to the server, the handler runs once, its answer comes back over
  the other stream and the call finishes with it, leaving no pending entry, as long as request and
  answer fit in a frame.
\<close>

lemma first_call_completes:
  assumes "envelope_codec enc dec new_codec fdec fenc max_frame held"
    and "enc (Request \<lparr>rq_id = 0, rq_method = m, rq_payload = p\<rparr>) = Inr b1" and "length b1 \<le> 64 * 1024 * 1024"
    and "dispatch hs \<lparr>rq_id = 0, rq_method = m, rq_payload = p\<rparr> w = (e, w')"
    and "enc e = Inr b2" and "length b2 \<le> 64 * 1024 * 1024"
  shows "\<exists>(s1 :: 'y client) t s2.
      client_run (submit_run c m p) from_stream = Some s1
      \<and> delivered enc dec new_codec fdec fenc (sent s1)
          (server_frames (answer_events \<lparr>rq_id = 0, rq_method = m, rq_payload = p\<rparr>))
      \<and> conn_exec hs (open_conn w) (answer_events \<lparr>rq_id = 0, rq_method = m, rq_payload = p\<rparr>) t \<and> world t = w'
      \<and> delivered enc dec new_codec fdec fenc (written t) (client_frames (answer_run c e))
      \<and> client_run (answer_run c e) s1 = Some s2
      \<and> calls s2 c = Finished (call_result (Some e)) \<and> pending_count s2 = 0"
proof -
  from complete_round [OF assms(1,2) _ assms(4,5), of c, where 'y = 'y] assms(3,6)
  show ?thesis unfolding DEFAULT_MAX_FRAME_LEN_def by blast
qed

text \<open>
  A typed call over the connection is a local call. Let a call made by a generated proxy for a
  method of a generated service finish with anything but \<open>Closed\<close>. Then the proxy returns what the
  implementation returns for the same arguments in some state of the service: its value, its
  application error unchanged, or any other error as a 500.
\<close>

lemma typed_result_is_local_result:
  assumes "envelope_codec enc dec new_codec fdec fenc max_frame held"
    and "client_run es from_stream = Some s" and "length (numbered es) \<le> 2 ^ 64"
    and "generated_server base L service" and "m \<in> set (st_methods service)"
    and "conn_exec (served L disp impl service b) (open_conn w0) ls t"
    and "delivered enc dec new_codec fdec fenc (sent s) (server_frames ls)"
    and "delivered enc dec new_codec fdec fenc (written t) (client_frames es)"
    and "typed_list base args (map arg_ty (m_args m))"
    and "proxy_payload L (expand_client_fn service m) args = (Inr p :: 'y patina_error + bytes)"
    and "built s c = Some \<lparr>rq_id = i, rq_method = cf_wire_name (expand_client_fn service m), rq_payload = p\<rparr>"
    and "calls s c = Finished r" and "r \<noteq> Inl (Closed :: 'y patina_error)"
    and "\<forall>w. result_encodes base L m (fst (impl (m_ident m) args w))"
  shows "\<exists>w. proxy_result L (expand_client_fn service m) r =
    (case fst (impl (m_ident m) args w) of Inr v \<Rightarrow> Inr v | Inl err \<Rightarrow> Inl (remote_error disp err))"
proof -
  from finished_answer [OF assms(1-3,6-8,12,13)] obtain q w w' e where
    q: "built s c = Some q" "dispatch (served L disp impl service b) q w = (e, w')" "r = call_result (Some e)"
    by blast
  with assms(11) have "exchange (served L disp impl service b) i (cf_wire_name (expand_client_fn service m)) p w = (r, w')"
    by (simp add: exchange_def)
  moreover have "length args = length (m_args m)"
    using typed_list_length [OF assms(9)] by simp
  then have "to_vec L (Tuple args) = Inr p"
    using assms(10) generated_server.distinct_args [OF assms(4,5)]
    by (simp add: proxy_payload_expanded encode_def)
  ultimately have call: "exchange (served L disp impl service b) i (wire_method_name service m) p w = (r, w')"
    and "to_vec L (Tuple args) = Inr p"
    by (simp_all add: expand_client_fn_def)
  from typed_exchange [OF assms(4,5,9) this(2) assms(14) [THEN spec] call] show ?thesis
    by (intro exI [of _ w]) (simp add: proxy_result_def expand_client_fn_def)
qed

text \<open>The witness: \<open>add(10, 4)\<close> of the \<open>Calc\<close> service, called through its proxy.\<close>

lemma calc_result_encodes: "result_encodes ref_base ref_lib calc_add_method (fst (calc_impl (m_ident calc_add_method) [Val 10, Val 4] w))"
  by (simp add: result_encodes_def ref_base_def ref_lib_def ref_val_encode_def)

lemma add_encodes:
  "ref_encode (Request add_request) = Inr (put_envelope (Request add_request))"
  "length (put_envelope (Request add_request)) \<le> DEFAULT_MAX_FRAME_LEN"
  "ref_encode add_response = Inr (put_envelope add_response)"
  "length (put_envelope add_response) \<le> DEFAULT_MAX_FRAME_LEN"
  by (simp_all add: ref_encode_def put_vec_def put_varint_def DEFAULT_MAX_FRAME_LEN_def)

lemma typed_result_is_local_result_witness:
  "\<exists>s :: string client. calls s 0 = Finished (Inr [14])
     \<and> (\<exists>w. proxy_result ref_lib (expand_client_fn calc_trait calc_add_method) (Inr [14] :: string patina_error + bytes)
       = (case fst (calc_impl (m_ident calc_add_method) [Val 10, Val 4] w) of
            Inr v \<Rightarrow> Inr v | Inl err \<Rightarrow> Inl (remote_error (\<lambda>e. e) err)))"
proof -
  let ?es = "submit_run 0 ''Calc::add'' [10, 4] @ answer_run 0 add_response"
  from complete_round [OF ref_envelope_codec add_encodes(1,2) add_dispatch [of 0] add_encodes(3,4), of 0, where 'y = string]
  obtain s1 :: "string client" and t s where s1: "client_run (submit_run 0 ''Calc::add'' [10, 4]) from_stream = Some s1"
    and s: "client_run (answer_run 0 add_response) s1 = Some s" "sent s = sent s1"
      "calls s 0 = Finished (call_result (Some add_response))" "built s 0 = Some add_request"
    and wire: "delivered ref_encode ref_decode ref_new_codec ref_frame_decode ref_frame_encode (sent s1) (server_frames (answer_events add_request))"
      "conn_exec calc_served (open_conn 0) (answer_events add_request) t"
      "delivered ref_encode ref_decode ref_new_codec ref_frame_decode ref_frame_encode (written t) (client_frames (answer_run 0 add_response))"
    by (elim exE conjE)
  have run: "client_run ?es from_stream = Some s" by (simp add: run_append s1 s(1))
  have frames: "client_frames ?es = client_frames (answer_run 0 add_response)" and numbered: "length (numbered ?es) \<le> 2 ^ 64"
    by (simp_all add: submit_run_def answer_run_def)
  have fin: "calls s 0 = Finished (Inr [14])" using s(3) by simp
  have typed: "typed_list ref_base [Val 10, Val 4] (map arg_ty (m_args calc_add_method))" by (simp add: arg_def ref_base_def)
  have payload: "proxy_payload ref_lib (expand_client_fn calc_trait calc_add_method) [Val 10, Val 4] = (Inr [10, 4] :: string patina_error + bytes)"
    by (simp add: proxy_payload_expanded arg_def encode_def ref_lib_def ref_val_encode_def)
  have built: "built s 0 = Some \<lparr>rq_id = 0, rq_method = cf_wire_name (expand_client_fn calc_trait calc_add_method), rq_payload = [10, 4]\<rparr>"
    by (simp add: s(4) expand_client_fn_def wire_method_name_def calc_trait_def)
  have encodes: "\<forall>w. result_encodes ref_base ref_lib calc_add_method (fst (calc_impl (m_ident calc_add_method) [Val 10, Val 4] w))"
    using calc_result_encodes by blast
  from typed_result_is_local_result [OF ref_envelope_codec run numbered calc_generated_server add_in_calc wire(2)
      wire(1) [folded s(2)] wire(3) [folded frames] typed payload built fin _ encodes] fin
  show ?thesis by blast
qed

end
